(* ===== verification/Turbo_Prelude.thy ===== *)
theory Turbo_Prelude
  imports Main "HOL-Library.Sublist"
begin

text \<open>
  Shared vocabulary of the development: Python values the components have in common (byte strings,
  exceptions, the string and slice operations of the standard library that the sources use), the
  lemmas about them, and the transition-system locale through which the stateful components get
  their reachability theorems.

  A Python \<open>bytes\<close> value is a list of \<open>char\<close>: Isabelle's \<open>char\<close> is exactly an eight-bit
  value.  A Python \<open>str\<close> that the code only ever obtains by a Latin-1 decoding (headers, paths,
  host names) is a list of \<open>char\<close> too, one \<open>char\<close> per code point.
\<close>

named_theorems py_simps \<open>evaluation of the Python standard-library operations\<close>
named_theorems step_inv \<open>one step of a component keeps its invariant\<close>

section \<open>Values and exceptions\<close>

type_synonym bytes = "char list"
type_synonym codepoints = "nat list"

text \<open>The exceptions that the modelled code raises or lets through.\<close>

datatype py_exn =
    ValueError
  | TypeError
  | KeyError
  | IndexError
  | AttributeError
  | LookupError
  | AssertionError
  | NotImplementedError
  | RecursionError
  | UnicodeEncodeError
  | UnicodeDecodeError
  | TimeoutError
  | ConnectionError string
  | RuntimeError string

type_synonym 'a py = "py_exn + 'a"

section \<open>Index arithmetic of slices\<close>

text \<open>
  \<open>py_idx n i\<close> is the position that the slice bound \<open>i\<close> denotes in a sequence of length \<open>n\<close>:
  a negative bound counts from the end, and every bound is clipped to the sequence.
\<close>

definition py_idx :: "nat \<Rightarrow> int \<Rightarrow> nat" where
  "py_idx n i = (if i < 0 then nat (int n + i) else min (nat i) n)"

definition py_slice :: "'a list \<Rightarrow> int \<Rightarrow> int \<Rightarrow> 'a list" where
  "py_slice xs i j = drop (py_idx (length xs) i) (take (py_idx (length xs) j) xs)"

definition py_del_prefix :: "'a list \<Rightarrow> int \<Rightarrow> 'a list" where
  "py_del_prefix xs j = drop (py_idx (length xs) j) xs"

lemma py_idx_of_nat [py_simps]: "py_idx n (int k) = min k n"
  by (simp add: py_idx_def)

lemma py_slice_of_nat [py_simps]: "py_slice xs (int i) (int j) = drop i (take j xs)"
  by (cases "i \<le> length xs") (simp_all add: py_slice_def py_simps min_def)

lemma py_del_prefix_of_nat [py_simps]: "py_del_prefix xs (int j) = drop j xs"
  by (simp add: py_del_prefix_def py_simps min_def)

lemma py_slice_mid:
  assumes "i = int (length xs)" and "j = int (length xs + length ys)"
  shows "py_slice (xs @ ys @ zs) i j = ys"
  using assms py_slice_of_nat [of "xs @ ys @ zs" "length xs" "length xs + length ys"] by simp

section \<open>Searching\<close>

fun find_sub :: "'a list \<Rightarrow> 'a list \<Rightarrow> nat option" where
  "find_sub pat [] = (if pat = [] then Some 0 else None)"
| "find_sub pat (x # xs) = (if prefix pat (x # xs) then Some 0 else map_option Suc (find_sub pat xs))"

definition py_find :: "'a list \<Rightarrow> 'a list \<Rightarrow> int \<Rightarrow> int" where
  "py_find pat xs start =
     (let i = py_idx (length xs) start
      in case find_sub pat (drop i xs) of None \<Rightarrow> -1 | Some k \<Rightarrow> int (i + k))"

lemma find_sub_prefix [simp]: "pat \<noteq> [] \<Longrightarrow> find_sub pat (pat @ xs) = Some 0"
  by (cases pat) simp_all

lemma find_sub_Some: "find_sub pat xs = Some k \<Longrightarrow> prefix pat (drop k xs) \<and> k + length pat \<le> length xs"
proof (induction xs arbitrary: k)
  case Nil
  then show ?case by (simp split: if_splits)
next
  case (Cons x xs)
  then show ?case
    by (auto split: if_splits dest: prefix_length_le)
qed

text \<open>A two-element pattern whose first element does not occur in \<open>xs\<close> is found right after \<open>xs\<close>.\<close>

lemma find_sub_after:
  assumes "a \<notin> set xs"
  shows "find_sub [a, b] (xs @ a # b # ys) = Some (length xs)"
  using assms by (induction xs) auto

lemma find_sub_absent:
  assumes "a \<notin> set xs"
  shows "find_sub [a, b] xs = None" and "find_sub [a, b] (xs @ [a]) = None"
  using assms by (induction xs) auto

section \<open>Character classes, trimming and case\<close>

text \<open>
  The ASCII white space that \<open>bytes\<close> methods and \<open>int()\<close> of a byte string skip, and Python's
  \<open>str.lower\<close> on the Latin-1 range: ASCII capitals and the capitals \<open>0xC0\<close> to \<open>0xDE\<close> except
  the multiplication sign \<open>0xD7\<close> move up by 32.
\<close>

definition is_ws :: "char \<Rightarrow> bool" where
  "is_ws c \<longleftrightarrow> (let n = of_char c :: nat in n = 32 \<or> 9 \<le> n \<and> n \<le> 13)"

definition lower_char :: "char \<Rightarrow> char" where
  "lower_char c =
     (let n = of_char c :: nat
      in if 65 \<le> n \<and> n \<le> 90 \<or> 192 \<le> n \<and> n \<le> 222 \<and> n \<noteq> 215 then char_of (n + 32) else c)"

definition py_lower :: "string \<Rightarrow> string" where
  "py_lower s = map lower_char s"

definition lstrip_by :: "('a \<Rightarrow> bool) \<Rightarrow> 'a list \<Rightarrow> 'a list" where
  "lstrip_by p xs = dropWhile p xs"

definition rstrip_by :: "('a \<Rightarrow> bool) \<Rightarrow> 'a list \<Rightarrow> 'a list" where
  "rstrip_by p xs = rev (dropWhile p (rev xs))"

definition strip_by :: "('a \<Rightarrow> bool) \<Rightarrow> 'a list \<Rightarrow> 'a list" where
  "strip_by p xs = rstrip_by p (lstrip_by p xs)"

lemma lower_char_idem [simp]: "lower_char (lower_char c) = lower_char c"
  by (auto simp: lower_char_def Let_def)

lemma py_lower_idem [simp]: "py_lower (py_lower s) = py_lower s"
  by (simp add: py_lower_def)

lemma py_lower_append [simp]: "py_lower (s @ t) = py_lower s @ py_lower t"
  by (simp add: py_lower_def)

lemma length_py_lower [simp]: "length (py_lower s) = length s"
  by (simp add: py_lower_def)

lemma strip_by_id: "(\<And>x. x \<in> set xs \<Longrightarrow> \<not> p x) \<Longrightarrow> strip_by p xs = xs"
proof -
  assume no: "\<And>x. x \<in> set xs \<Longrightarrow> \<not> p x"
  have "dropWhile p xs = xs" and "dropWhile p (rev xs) = rev xs"
    using no by (cases xs; simp) (cases "rev xs"; use no in \<open>auto simp: dropWhile_eq_self_iff hd_rev\<close>)
  then show ?thesis by (simp add: strip_by_def rstrip_by_def lstrip_by_def)
qed

lemma rstrip_by_append_keep: "\<not> p x \<Longrightarrow> rstrip_by p (xs @ [x]) = xs @ [x]"
  by (simp add: rstrip_by_def)

lemma rstrip_by_snoc_drop: "p x \<Longrightarrow> rstrip_by p (xs @ [x]) = rstrip_by p xs"
  by (simp add: rstrip_by_def)

lemma rstrip_by_last: "rstrip_by p xs \<noteq> [] \<Longrightarrow> \<not> p (last (rstrip_by p xs))"
  using hd_dropWhile [of p "rev xs"] by (simp add: rstrip_by_def last_rev)

section \<open>Decimal numerals\<close>

text \<open>
  \<open>b"%d" % n\<close> prints a number in decimal; \<open>int()\<close> of a byte string reads one: white space
  around it, an optional sign, then digits with single underscores allowed between digits.
\<close>

definition digit_char :: "nat \<Rightarrow> char" where
  "digit_char n = char_of (48 + n)"

definition is_digit :: "char \<Rightarrow> bool" where
  "is_digit c \<longleftrightarrow> 48 \<le> (of_char c :: nat) \<and> (of_char c :: nat) \<le> 57"

definition digit_val :: "char \<Rightarrow> nat" where
  "digit_val c = of_char c - 48"

fun dec_nat :: "nat \<Rightarrow> bytes" where
  "dec_nat n = (if n < 10 then [digit_char n] else dec_nat (n div 10) @ [digit_char (n mod 10)])"

declare dec_nat.simps [simp del]

definition dec_int :: "int \<Rightarrow> bytes" where
  "dec_int i = (if i < 0 then CHR ''-'' # dec_nat (nat (- i)) else dec_nat (nat i))"

fun int_digits :: "nat \<Rightarrow> bool \<Rightarrow> bytes \<Rightarrow> nat option" where
  "int_digits acc seen [] = (if seen then Some acc else None)"
| "int_digits acc seen (c # cs) =
     (if is_digit c then int_digits (10 * acc + digit_val c) True cs
      else if c = CHR ''_'' \<and> seen then int_digits acc False cs
      else None)"

definition py_int :: "bytes \<Rightarrow> int py" where
  "py_int s =
     (case strip_by is_ws s of
        [] \<Rightarrow> Inl ValueError
      | c # cs \<Rightarrow>
          (case (if c = CHR ''-'' then map_option (\<lambda>n. - int n) (int_digits 0 False cs)
                 else if c = CHR ''+'' then map_option int (int_digits 0 False cs)
                 else map_option int (int_digits 0 False (c # cs))) of
             None \<Rightarrow> Inl ValueError
           | Some i \<Rightarrow> Inr i))"

text \<open>
  \<open>int()\<close> of a \<open>str\<close> skips every character for which \<open>str.isspace\<close> holds; on Latin-1 these are the
  ASCII ones, the four information separators, the next-line character and the no-break space.
\<close>

definition is_str_ws :: "char \<Rightarrow> bool" where
  "is_str_ws c \<longleftrightarrow> (let n = of_char c :: nat in 9 \<le> n \<and> n \<le> 13 \<or> 28 \<le> n \<and> n \<le> 32 \<or> n = 133 \<or> n = 160)"

definition py_int_str :: "string \<Rightarrow> int py" where
  "py_int_str s = py_int (strip_by is_str_ws s)"

lemma digit_char_props [simp]:
  assumes "n < 10"
  shows "is_digit (digit_char n)" and "digit_val (digit_char n) = n"
    and "\<not> is_ws (digit_char n)" and "digit_char n \<noteq> CHR ''-''" and "digit_char n \<noteq> CHR ''+''"
    and "digit_char n \<noteq> CHR 0x0D"
proof -
  have "of_char (digit_char n) = 48 + n"
    using assms by (simp add: digit_char_def)
  then show "is_digit (digit_char n)" and "digit_val (digit_char n) = n"
    and "\<not> is_ws (digit_char n)" and "digit_char n \<noteq> CHR ''-''" and "digit_char n \<noteq> CHR ''+''"
    and "digit_char n \<noteq> CHR 0x0D"
    using assms by (auto simp: is_digit_def digit_val_def is_ws_def Let_def)
qed

lemma digit_char_numerals [simp]:
  "digit_char 0 = CHR ''0''" "digit_char (Suc 0) = CHR ''1''" "digit_char 1 = CHR ''1''"
  "digit_char 2 = CHR ''2''" "digit_char 3 = CHR ''3''" "digit_char 4 = CHR ''4''"
  "digit_char 5 = CHR ''5''" "digit_char 6 = CHR ''6''" "digit_char 7 = CHR ''7''"
  "digit_char 8 = CHR ''8''" "digit_char 9 = CHR ''9''"
  by (simp_all add: digit_char_def char_of_eq_iff)

lemma dec_nat_chars: "c \<in> set (dec_nat n) \<Longrightarrow> \<exists>k < 10. c = digit_char k"
proof (induction n rule: dec_nat.induct)
  case (1 n)
  have last_digit: "\<exists>k < 10. digit_char (n mod 10) = digit_char k"
    by (rule exI [of _ "n mod 10"]) simp
  show ?case
  proof (cases "n < 10")
    case False
    with "1.prems" have "c \<in> set (dec_nat (n div 10)) \<or> c = digit_char (n mod 10)"
      by (auto simp: dec_nat.simps [of n])
    with "1.IH" False last_digit show ?thesis by blast
  qed (use "1.prems" in \<open>auto simp: dec_nat.simps [of n]\<close>)
qed

lemma dec_nat_Cons: "\<exists>k cs. dec_nat n = digit_char k # cs \<and> k < 10"
proof -
  have "dec_nat n \<noteq> []" by (subst dec_nat.simps) simp
  then show ?thesis
    using dec_nat_chars [of "hd (dec_nat n)" n] by (cases "dec_nat n") auto
qed

lemma int_digits_dec_nat:
  "int_digits acc seen (dec_nat n @ xs) = int_digits (acc * 10 ^ length (dec_nat n) + n) True xs"
proof (induction n arbitrary: acc seen xs rule: dec_nat.induct)
  case (1 n)
  show ?case
  proof (cases "n < 10")
    case True
    then show ?thesis by (simp add: dec_nat.simps [of n] mult.commute)
  next
    case False
    then have "int_digits acc seen (dec_nat n @ xs)
        = int_digits (acc * 10 ^ length (dec_nat (n div 10)) + n div 10) True
            (digit_char (n mod 10) # xs)"
      using "1" [of acc seen "digit_char (n mod 10) # xs"] by (simp add: dec_nat.simps [of n])
    then show ?thesis
      using False by (simp add: dec_nat.simps [of n] algebra_simps)
  qed
qed

lemma dec_int_no_ws: "c \<in> set (dec_int i) \<Longrightarrow> \<not> is_ws c \<and> c \<noteq> CHR 0x0D"
  by (auto simp: dec_int_def is_ws_def Let_def split: if_splits dest!: dec_nat_chars)
    (auto simp: is_ws_def Let_def dest: digit_char_props)

lemma py_int_dec_int [py_simps]: "py_int (dec_int i) = Inr i"
proof -
  have strip: "strip_by is_ws (dec_int i) = dec_int i"
    by (rule strip_by_id) (simp add: dec_int_no_ws)
  have digits: "int_digits 0 False (dec_nat n) = Some n" for n
    using int_digits_dec_nat [of 0 False n "[]"] by simp
  show ?thesis
  proof (cases "i < 0")
    case True
    then show ?thesis
      by (simp add: py_int_def strip) (simp add: dec_int_def digits)
  next
    case False
    obtain k cs where d: "dec_nat (nat i) = digit_char k # cs" "k < 10"
      using dec_nat_Cons by blast
    with False digits [of "nat i"] show ?thesis
      by (simp add: py_int_def strip) (simp add: dec_int_def)
  qed
qed

lemma dec_int_no_str_ws: "c \<in> set (dec_int i) \<Longrightarrow> \<not> is_str_ws c"
proof -
  assume "c \<in> set (dec_int i)"
  then consider "c = CHR ''-''" | k where "k < 10" "c = digit_char k"
    by (auto simp: dec_int_def split: if_splits dest!: dec_nat_chars)
  then show ?thesis
    by cases (auto simp: is_str_ws_def Let_def digit_char_def)
qed

lemma py_int_str_dec_int [py_simps]: "py_int_str (dec_int i) = Inr i"
  by (simp add: py_int_str_def strip_by_id [OF dec_int_no_str_ws] py_int_dec_int)

lemma dec_int_chars: "c \<in> set (dec_int i) \<Longrightarrow> is_digit c \<or> c = CHR ''-''"
  by (auto simp: dec_int_def split: if_splits dest!: dec_nat_chars)

lemma dec_int_no_colon: "CHR '':'' \<notin> set (dec_int i)"
  by (auto simp: is_digit_def dest!: dec_int_chars)

lemma dec_int_no_dot: "CHR ''.'' \<notin> set (dec_int i)"
  by (auto simp: is_digit_def dest!: dec_int_chars)

text \<open>\<open>split(c)\<close>: the parts between the separators, at least one.\<close>

fun split_on :: "'a \<Rightarrow> 'a list \<Rightarrow> 'a list list" where
  "split_on c [] = [[]]"
| "split_on c (x # xs) =
     (if x = c then [] # split_on c xs
      else case split_on c xs of y # ys \<Rightarrow> (x # y) # ys | [] \<Rightarrow> [[x]])"

lemma split_on_plain: "c \<notin> set xs \<Longrightarrow> split_on c xs = [xs]"
  by (induction xs) auto

lemma split_on_nonempty: "split_on c xs \<noteq> []"
  by (induction xs) (auto split: list.split)

lemma split_on_append: "c \<notin> set xs \<Longrightarrow> split_on c (xs @ c # ys) = xs # split_on c ys"
  by (induction xs) auto

lemma split_on_three:
  "split_on c v = [a, b, d] \<Longrightarrow> v = a @ c # b @ c # d"
proof -
  have glue: "v = concat (map (\<lambda>p. p @ [c]) (butlast (split_on c v))) @ last (split_on c v)" for v
  proof (induction v)
    case (Cons x xs)
    obtain y ys where "split_on c xs = y # ys" using split_on_nonempty [of c xs] by (cases "split_on c xs") auto
    with Cons show ?case by (cases ys) auto
  qed simp
  assume "split_on c v = [a, b, d]"
  with glue [of v] show ?thesis by simp
qed

section \<open>Transition systems\<close>

text \<open>
  A stateful component is a labelled step relation with a set of start states.  The locale is the
  interface between a component and its safety theorems: a component provides the two laws (its
  invariant holds at the start, every step keeps it) and obtains the invariant in every reachable
  state and along every run.
\<close>

inductive run :: "('s \<Rightarrow> 'e \<Rightarrow> 's \<Rightarrow> bool) \<Rightarrow> 's \<Rightarrow> 'e list \<Rightarrow> 's \<Rightarrow> bool" for step where
  run_Nil: "run step s [] s"
| run_Cons: "step s e t \<Longrightarrow> run step t es u \<Longrightarrow> run step s (e # es) u"

inductive_cases run_NilE [elim!]: "run step s [] u"
inductive_cases run_ConsE [elim!]: "run step s (e # es) u"

lemma run_append: "run step s es t \<Longrightarrow> run step t fs u \<Longrightarrow> run step s (es @ fs) u"
  by (induction rule: run.induct) (auto intro: run.intros)

locale transition_system =
  fixes init :: "'s \<Rightarrow> bool"
    and step :: "'s \<Rightarrow> 'e \<Rightarrow> 's \<Rightarrow> bool"
    and inv :: "'s \<Rightarrow> bool"
  assumes init_inv: "init s \<Longrightarrow> inv s"
    and step_keeps: "inv s \<Longrightarrow> step s e t \<Longrightarrow> inv t"
begin

lemma run_keeps: "run step s es t \<Longrightarrow> inv s \<Longrightarrow> inv t"
  by (induction rule: run.induct) (blast intro: step_keeps)+

lemma reachable_inv: "init s \<Longrightarrow> run step s es t \<Longrightarrow> inv t"
  by (blast intro: run_keeps init_inv)

end

end
