(* ===== verification/Resp.thy ===== *)
theory Resp
  imports Turbo_Prelude
begin

text \<open>
  The RESP2 layer of \<open>contrib_redis.py\<close>: the incremental reader \<open>_PyReader\<close> and the command encoder
  \<open>_encode_command\<close>.  The reader is compared with the wire grammar of the protocol (\<open>resp\<close>,
  \<open>wire\<close>, \<open>value_of\<close>): it returns exactly the values the server sent, and a reply that has
  only partly arrived is reported as incomplete and leaves the buffer alone.

  The \<open>nat\<close> argument of \<open>parse\<close> is the number of interpreter frames left for the recursion of
  \<open>_parse\<close>; running out of them is CPython's \<open>RecursionError\<close>.
\<close>

section \<open>UTF-8\<close>

text \<open>\<open>str.encode()\<close> and strict \<open>bytes.decode()\<close>; surrogates are not encodable.\<close>

definition valid_cp :: "nat \<Rightarrow> bool" where
  "valid_cp cp \<longleftrightarrow> cp < 0xD800 \<or> 0xE000 \<le> cp \<and> cp < 0x110000"

definition utf8_cp :: "nat \<Rightarrow> nat list" where
  "utf8_cp cp =
     (if cp < 0x80 then [cp]
      else if cp < 0x800 then [0xC0 + cp div 64, 0x80 + cp mod 64]
      else if cp < 0x10000 then [0xE0 + cp div 4096, 0x80 + cp div 64 mod 64, 0x80 + cp mod 64]
      else [0xF0 + cp div 262144, 0x80 + cp div 4096 mod 64, 0x80 + cp div 64 mod 64, 0x80 + cp mod 64])"

definition utf8 :: "codepoints \<Rightarrow> bytes" where
  "utf8 s = map char_of (concat (map utf8_cp s))"

definition utf8_encode :: "codepoints \<Rightarrow> bytes py" where
  "utf8_encode s = (if list_all valid_cp s then Inr (utf8 s) else Inl UnicodeEncodeError)"

definition is_cont :: "nat \<Rightarrow> bool" where
  "is_cont b \<longleftrightarrow> 0x80 \<le> b \<and> b < 0xC0"

fun utf8_dec :: "nat list \<Rightarrow> codepoints option" where
  "utf8_dec [] = Some []"
| "utf8_dec (b # bs) =
     (if b < 0x80 then map_option ((#) b) (utf8_dec bs)
      else if 0xC2 \<le> b \<and> b < 0xE0 then
        (case bs of
           c # rest \<Rightarrow>
             (if is_cont c then map_option ((#) ((b - 0xC0) * 64 + (c - 0x80))) (utf8_dec rest) else None)
         | _ \<Rightarrow> None)
      else if 0xE0 \<le> b \<and> b < 0xF0 then
        (case bs of
           c # d # rest \<Rightarrow>
             (let cp = (b - 0xE0) * 4096 + (c - 0x80) * 64 + (d - 0x80)
              in if is_cont c \<and> is_cont d \<and> 0x800 \<le> cp \<and> valid_cp cp
                 then map_option ((#) cp) (utf8_dec rest) else None)
         | _ \<Rightarrow> None)
      else if 0xF0 \<le> b \<and> b < 0xF5 then
        (case bs of
           c # d # e # rest \<Rightarrow>
             (let cp = (b - 0xF0) * 262144 + (c - 0x80) * 4096 + (d - 0x80) * 64 + (e - 0x80)
              in if is_cont c \<and> is_cont d \<and> is_cont e \<and> 0x10000 \<le> cp \<and> valid_cp cp
                 then map_option ((#) cp) (utf8_dec rest) else None)
         | _ \<Rightarrow> None)
      else None)"

definition utf8_decode :: "bytes \<Rightarrow> codepoints py" where
  "utf8_decode s = (case utf8_dec (map of_char s) of None \<Rightarrow> Inl UnicodeDecodeError | Some cs \<Rightarrow> Inr cs)"

section \<open>The reader\<close>

text \<open>
  What \<open>gets\<close> hands to its caller: byte strings, integers, error objects, \<open>None\<close> and lists.
  \<open>_parse\<close> returns \<open>None\<close> when the reply is incomplete, a pair of a value and the number of
  bytes consumed, or raises.
\<close>

datatype reply =
    RBytes bytes
  | RInt int
  | RError codepoints
  | RNone
  | RList "reply list"

datatype 'a outcome = Incomplete | Parsed 'a int | Raised py_exn

definition crlf :: bytes where
  "crlf = [CHR 0x0D, CHR 0x0A]"

fun parse_items :: "(int \<Rightarrow> reply outcome) \<Rightarrow> nat \<Rightarrow> reply list \<Rightarrow> int \<Rightarrow> reply list outcome" where
  "parse_items p 0 items cursor = Parsed items cursor"
| "parse_items p (Suc n) items cursor =
     (case p cursor of
        Incomplete \<Rightarrow> Incomplete
      | Raised e \<Rightarrow> Raised e
      | Parsed v consumed \<Rightarrow> parse_items p n (items @ [v]) (cursor + consumed))"

definition parse_kind ::
  "(int \<Rightarrow> reply outcome) \<Rightarrow> bytes \<Rightarrow> int \<Rightarrow> bytes \<Rightarrow> bytes \<Rightarrow> int \<Rightarrow> reply outcome" where
  "parse_kind p buf pos kind line head_end =
     (if kind = ''+'' then Parsed (RBytes line) (head_end - pos)
      else if kind = '':'' then
        (case py_int line of Inl e \<Rightarrow> Raised e | Inr i \<Rightarrow> Parsed (RInt i) (head_end - pos))
      else if kind = ''-'' then
        (case utf8_decode line of Inl e \<Rightarrow> Raised e | Inr s \<Rightarrow> Parsed (RError s) (head_end - pos))
      else if kind = ''$'' then
        (case py_int line of
           Inl e \<Rightarrow> Raised e
         | Inr n \<Rightarrow>
             if n = -1 then Parsed RNone (head_end - pos)
             else if int (length buf) < head_end + n + 2 then Incomplete
             else Parsed (RBytes (py_slice buf head_end (head_end + n))) (head_end + n + 2 - pos))
      else if kind = ''*'' then
        (case py_int line of
           Inl e \<Rightarrow> Raised e
         | Inr n \<Rightarrow>
             if n = -1 then Parsed RNone (head_end - pos)
             else (case parse_items p (nat n) [] head_end of
                     Incomplete \<Rightarrow> Incomplete
                   | Raised e \<Rightarrow> Raised e
                   | Parsed items cursor \<Rightarrow> Parsed (RList items) (cursor - pos)))
      else Raised (ConnectionError ''unexpected RESP type byte''))"

primrec parse :: "nat \<Rightarrow> bytes \<Rightarrow> int \<Rightarrow> reply outcome" where
  "parse 0 buf pos = Raised RecursionError"
| "parse (Suc d) buf pos =
     (let nl = py_find crlf buf pos
      in if nl < 0 then Incomplete
         else parse_kind (parse d buf) buf pos
                (py_slice buf pos (pos + 1)) (py_slice buf (pos + 1) nl) (nl + 2))"

definition feed :: "bytes \<Rightarrow> bytes \<Rightarrow> bytes" where
  "feed buf data = buf @ data"

text \<open>\<open>gets\<close> with its result and the buffer it leaves; \<open>Inr None\<close> is the source's \<open>False\<close>.\<close>

definition gets :: "nat \<Rightarrow> bytes \<Rightarrow> reply option py \<times> bytes" where
  "gets d buf =
     (case parse d buf 0 of
        Incomplete \<Rightarrow> (Inr None, buf)
      | Raised e \<Rightarrow> (Inl e, buf)
      | Parsed v consumed \<Rightarrow> (Inr (Some v), py_del_prefix buf consumed))"

section \<open>The command encoder\<close>

text \<open>
  The arguments \<open>_encode_command\<close> tells apart.  \<open>repr\<close> of a float is a parameter, and a value of
  any other type is \<open>AOther\<close>.
\<close>

datatype 'f arg = ABytes bytes | AStr codepoints | AInt int | AFloat 'f | AOther

fun arg_bytes :: "('f \<Rightarrow> bytes) \<Rightarrow> 'f arg \<Rightarrow> bytes py" where
  "arg_bytes repr (ABytes b) = Inr b"
| "arg_bytes repr (AStr s) = utf8_encode s"
| "arg_bytes repr (AInt i) = Inr (dec_int i)"
| "arg_bytes repr (AFloat x) = Inr (repr x)"
| "arg_bytes repr AOther = Inl TypeError"

fun encode_args :: "('f \<Rightarrow> bytes) \<Rightarrow> bytes \<Rightarrow> 'f arg list \<Rightarrow> bytes py" where
  "encode_args repr out [] = Inr out"
| "encode_args repr out (a # as) =
     (case arg_bytes repr a of
        Inl e \<Rightarrow> Inl e
      | Inr b \<Rightarrow> encode_args repr (out @ ''$'' @ dec_nat (length b) @ crlf @ b @ crlf) as)"

definition encode_command :: "('f \<Rightarrow> bytes) \<Rightarrow> 'f arg list \<Rightarrow> bytes py" where
  "encode_command repr args = encode_args repr (''*'' @ dec_nat (length args) @ crlf) args"

text \<open>The hand-written encodings of \<open>RedisMux.get\<close> and \<open>RedisMux.set\<close> for a key and a value.\<close>

definition get_bytes :: "bytes \<Rightarrow> bytes" where
  "get_bytes k = ''*2'' @ crlf @ ''$3'' @ crlf @ ''GET'' @ crlf
     @ ''$'' @ dec_nat (length k) @ crlf @ k @ crlf"

text \<open>
  \<open>get\<close> accepts a \<open>str\<close> key, which it encodes, or a byte string; any other key has no
  \<open>len\<close> and raises \<open>TypeError\<close>.
\<close>

fun key_bytes :: "'f arg \<Rightarrow> bytes py" where
  "key_bytes (AStr s) = utf8_encode s"
| "key_bytes (ABytes b) = Inr b"
| "key_bytes _ = Inl TypeError"

definition get_command :: "'f arg \<Rightarrow> bytes py" where
  "get_command key = (case key_bytes key of Inl e \<Rightarrow> Inl e | Inr k \<Rightarrow> Inr (get_bytes k))"

definition set_bytes :: "bytes \<Rightarrow> bytes \<Rightarrow> bytes" where
  "set_bytes k v = ''*3'' @ crlf @ ''$3'' @ crlf @ ''SET'' @ crlf
     @ ''$'' @ dec_nat (length k) @ crlf @ k @ crlf
     @ ''$'' @ dec_nat (length v) @ crlf @ v @ crlf"

definition set_command :: "'f arg \<Rightarrow> 'f arg \<Rightarrow> bytes py" where
  "set_command key value =
     (case key_bytes key of
        Inl e \<Rightarrow> Inl e
      | Inr k \<Rightarrow> (case key_bytes value of Inl e \<Rightarrow> Inl e | Inr v \<Rightarrow> Inr (set_bytes k v)))"

section \<open>The wire grammar\<close>

text \<open>
  The replies of the RESP2 protocol, how they are written on the wire, and the Python value that a
  client is meant to see.  Simple strings and errors are single lines; \<open>resp_ok\<close> says so.
\<close>

datatype resp =
    Simple bytes
  | Integer int
  | Err codepoints
  | Bulk bytes
  | NullBulk
  | Arr "resp list"
  | NullArr

fun wire :: "resp \<Rightarrow> bytes" where
  "wire (Simple s) = CHR ''+'' # s @ crlf"
| "wire (Integer i) = CHR '':'' # dec_int i @ crlf"
| "wire (Err e) = CHR ''-'' # utf8 e @ crlf"
| "wire (Bulk b) = CHR ''$'' # dec_nat (length b) @ crlf @ b @ crlf"
| "wire NullBulk = CHR ''$'' # ''-1'' @ crlf"
| "wire (Arr vs) = CHR ''*'' # dec_nat (length vs) @ crlf @ concat (map wire vs)"
| "wire NullArr = CHR ''*'' # ''-1'' @ crlf"

fun value_of :: "resp \<Rightarrow> reply" where
  "value_of (Simple s) = RBytes s"
| "value_of (Integer i) = RInt i"
| "value_of (Err e) = RError e"
| "value_of (Bulk b) = RBytes b"
| "value_of NullBulk = RNone"
| "value_of (Arr vs) = RList (map value_of vs)"
| "value_of NullArr = RNone"

fun resp_ok :: "resp \<Rightarrow> bool" where
  "resp_ok (Simple s) = (CHR 0x0D \<notin> set s)"
| "resp_ok (Err e) = (13 \<notin> set e \<and> list_all valid_cp e)"
| "resp_ok (Arr vs) = list_all resp_ok vs"
| "resp_ok _ = True"

fun depth :: "resp \<Rightarrow> nat" where
  "depth (Arr vs) = Suc (foldr (max \<circ> depth) vs 0)"
| "depth _ = 1"

section \<open>UTF-8 round trip\<close>

lemma utf8_dec_multi:
  assumes "r < 64"
  shows "2 \<le> p \<Longrightarrow> p < 32 \<Longrightarrow>
      utf8_dec ((0xC0 + p) # (0x80 + r) # bs) = map_option ((#) (p * 64 + r)) (utf8_dec bs)"
    and "\<lbrakk>p < 16; q < 64; 0x800 \<le> p * 4096 + q * 64 + r; valid_cp (p * 4096 + q * 64 + r)\<rbrakk> \<Longrightarrow>
      utf8_dec ((0xE0 + p) # (0x80 + q) # (0x80 + r) # bs)
        = map_option ((#) (p * 4096 + q * 64 + r)) (utf8_dec bs)"
    and "\<lbrakk>o' < 5; p < 64; q < 64; 0x10000 \<le> o' * 262144 + p * 4096 + q * 64 + r;
        valid_cp (o' * 262144 + p * 4096 + q * 64 + r)\<rbrakk> \<Longrightarrow>
      utf8_dec ((0xF0 + o') # (0x80 + p) # (0x80 + q) # (0x80 + r) # bs)
        = map_option ((#) (o' * 262144 + p * 4096 + q * 64 + r)) (utf8_dec bs)"
  using assms by (simp_all add: is_cont_def Let_def)

lemma utf8_dec_cp:
  assumes "valid_cp cp"
  shows "utf8_dec (utf8_cp cp @ bs) = map_option ((#) cp) (utf8_dec bs)"
proof -
  have split1: "cp div 64 * 64 + cp mod 64 = cp" by simp
  have div2: "cp div 4096 = cp div 64 div 64" and div3: "cp div 262144 = cp div 64 div 64 div 64"
    by (simp_all flip: div_mult2_eq)
  have split2: "cp div 4096 * 4096 + cp div 64 mod 64 * 64 + cp mod 64 = cp"
    using div_mult_mod_eq [of "cp div 64" 64] split1 unfolding div2 by linarith
  have split3: "cp div 262144 * 262144 + cp div 4096 mod 64 * 4096 + cp div 64 mod 64 * 64 + cp mod 64 = cp"
    using div_mult_mod_eq [of "cp div 64 div 64" 64] split2 unfolding div2 div3 by linarith
  have "cp < 0x110000" using assms by (auto simp: valid_cp_def)
  then consider "cp < 0x80" | "0x80 \<le> cp" "cp < 0x800" | "0x800 \<le> cp" "cp < 0x10000"
    | "0x10000 \<le> cp" "cp < 0x110000" by linarith
  then show ?thesis
  proof cases
    case 1
    then show ?thesis by (simp add: utf8_cp_def)
  next
    case 2
    then have lo: "2 \<le> cp div 64" and hi: "cp div 64 < 32" by auto
    show ?thesis
      using 2 split1 utf8_dec_multi(1) [of "cp mod 64" "cp div 64" bs, OF _ lo hi]
      by (simp add: utf8_cp_def del: utf8_dec.simps)
  next
    case 3
    then have "cp div 4096 < 16" by auto
    then show ?thesis
      using 3 split2 assms utf8_dec_multi(2) [of "cp mod 64" "cp div 4096" "cp div 64 mod 64" bs]
      by (simp add: utf8_cp_def del: utf8_dec.simps)
  next
    case 4
    then have "cp div 262144 < 5" by auto
    then show ?thesis
      using 4 split3 assms utf8_dec_multi(3) [of "cp mod 64" "cp div 262144" "cp div 4096 mod 64"
          "cp div 64 mod 64" bs]
      by (simp add: utf8_cp_def del: utf8_dec.simps)
  qed
qed

lemma utf8_cp_byte:
  assumes "valid_cp cp" and "b \<in> set (utf8_cp cp)"
  shows "b < 256" and "b = 13 \<Longrightarrow> cp = 13"
proof -
  have "cp < 0x110000" using assms(1) by (auto simp: valid_cp_def)
  then have "cp div 262144 < 5" and "cp < 0x10000 \<Longrightarrow> cp div 4096 < 16" and "cp < 0x800 \<Longrightarrow> cp div 64 < 32"
    by auto
  then show "b < 256" and "b = 13 \<Longrightarrow> cp = 13"
    using assms(2) by (auto simp: utf8_cp_def split: if_splits)
qed

lemma utf8_bytes:
  assumes "list_all valid_cp s"
  shows "map of_char (utf8 s) = concat (map utf8_cp s)"
proof -
  have "\<forall>b \<in> set (concat (map utf8_cp s)). (of_char (char_of b :: char) :: nat) = b"
    using assms utf8_cp_byte(1) by (fastforce simp: list_all_iff)
  then show ?thesis by (simp add: utf8_def map_idI del: set_concat)
qed

lemma utf8_decode_utf8:
  assumes "list_all valid_cp s"
  shows "utf8_decode (utf8 s) = Inr s"
proof -
  have "utf8_dec (concat (map utf8_cp s)) = Some s"
    using assms by (induction s) (simp_all add: utf8_dec_cp)
  then show ?thesis by (simp add: utf8_decode_def utf8_bytes [OF assms])
qed

lemma utf8_no_cr:
  assumes "list_all valid_cp s" and "13 \<notin> set s"
  shows "CHR 0x0D \<notin> set (utf8 s)"
proof
  assume "CHR 0x0D \<in> set (utf8 s)"
  then have "(of_char (CHR 0x0D) :: nat) \<in> set (map of_char (utf8 s))"
    by (simp only: set_map imageI)
  then have "13 \<in> set (concat (map utf8_cp s))"
    by (simp add: utf8_bytes [OF assms(1)])
  then show False using assms utf8_cp_byte(2) by (fastforce simp: list_all_iff)
qed

section \<open>The reader agrees with the wire grammar\<close>

text \<open>One unfolding of \<open>parse\<close> at a complete header line.\<close>

lemma parse_line:
  assumes "k \<noteq> CHR 0x0D" and "CHR 0x0D \<notin> set line"
    and "buf = pre @ k # line @ crlf @ post"
  shows "parse (Suc d) buf (int (length pre))
    = parse_kind (parse d buf) buf (int (length pre)) [k] line (int (length pre + length line + 3))"
proof -
  have buf: "buf = pre @ (k # line) @ CHR 0x0D # CHR 0x0A # post"
    using assms(3) by (simp add: crlf_def)
  have find: "py_find crlf buf (int (length pre)) = int (length pre + length line + 1)"
    using find_sub_after [of "CHR 0x0D" "k # line" "CHR 0x0A" post] assms(1,2)
    by (simp add: py_find_def crlf_def buf py_simps)
  have kind: "py_slice buf (int (length pre)) (int (length pre) + 1) = [k]"
    using py_slice_mid [of "int (length pre)" pre "int (length pre) + 1" "[k]" "line @ crlf @ post"]
    by (simp add: buf crlf_def)
  have line: "py_slice buf (int (length pre) + 1) (int (length pre + length line + 1)) = line"
    using py_slice_mid [of "int (length pre) + 1" "pre @ [k]"
        "int (length pre + length line + 1)" line "crlf @ post"]
    by (simp add: buf crlf_def)
  show ?thesis
    by (simp only: parse.simps Let_def find kind line) (simp add: ac_simps)
qed

lemma parse_truncated_line:
  assumes "k \<noteq> CHR 0x0D" and "CHR 0x0D \<notin> set line"
    and "n < length line + 3"
  shows "parse (Suc d) (pre @ take n (k # line @ crlf)) (int (length pre)) = Incomplete"
proof -
  have "take n (k # line @ crlf) = take n (k # line) @ take (n - Suc (length line)) crlf"
    using take_append [of n "k # line" crlf] by simp
  moreover have "take (n - Suc (length line)) crlf \<in> {[], [CHR 0x0D]}"
    using assms(3) by (cases "n - Suc (length line)") (auto simp: crlf_def take_Cons')
  moreover have "CHR 0x0D \<notin> set (take n (k # line))"
    using assms(1,2) by (auto dest: in_set_takeD)
  ultimately have "find_sub crlf (take n (k # line @ crlf)) = None"
    using find_sub_absent [of "CHR 0x0D" "take n (k # line)" "CHR 0x0A"] by (auto simp: crlf_def)
  then show ?thesis by (simp add: py_find_def py_simps)
qed

lemma parse_items_wire:
  assumes "\<And>v pre post. v \<in> set vs \<Longrightarrow>
      parse d (pre @ wire v @ post) (int (length pre)) = Parsed (value_of v) (int (length (wire v)))"
  shows "parse_items (parse d (pre @ concat (map wire vs) @ post)) (length vs) acc (int (length pre))
    = Parsed (acc @ map value_of vs) (int (length pre + length (concat (map wire vs))))"
  using assms
proof (induction vs arbitrary: pre acc)
  case Nil
  then show ?case by simp
next
  case (Cons v vs)
  from Cons.prems [of v pre "concat (map wire vs) @ post"]
  have v: "parse d (pre @ wire v @ concat (map wire vs) @ post) (int (length pre))
      = Parsed (value_of v) (int (length (wire v)))" by simp
  show ?case
    using Cons.IH [of "pre @ wire v" "acc @ [value_of v]"] Cons.prems v by (simp add: ac_simps)
qed

lemma depth_Suc: "depth v = Suc (depth v - 1)"
  by (cases v) auto

lemma depth_item: "v \<in> set vs \<Longrightarrow> depth v \<le> foldr (max \<circ> depth) vs 0"
  by (induction vs) auto

lemma minus_one_no_cr: "CHR 0x0D \<notin> set ''-1''"
  by simp

lemma py_int_minus_one: "py_int ''-1'' = Inr (-1)"
  by code_simp

lemma dec_nat_no_cr: "CHR 0x0D \<notin> set (dec_nat n)" and dec_int_no_cr: "CHR 0x0D \<notin> set (dec_int i)"
  using dec_int_no_ws [of "CHR 0x0D" "int n"] dec_int_no_ws [of "CHR 0x0D" i]
  by (auto simp: dec_int_def)

lemma py_int_dec_nat: "py_int (dec_nat n) = Inr (int n)"
  using py_int_dec_int [of "int n"] by (simp add: dec_int_def)

lemmas header_facts = minus_one_no_cr py_int_minus_one dec_nat_no_cr dec_int_no_cr py_int_dec_nat
  py_int_dec_int utf8_decode_utf8 utf8_no_cr

lemma parse_wire:
  assumes "resp_ok v" and "depth v \<le> d"
  shows "parse d (pre @ wire v @ post) (int (length pre)) = Parsed (value_of v) (int (length (wire v)))"
  using assms
proof (induction v arbitrary: d pre post)
  case (Bulk b)
  then obtain d' where d: "d = Suc d'" by (cases d) auto
  let ?h = "pre @ CHR ''$'' # dec_nat (length b) @ crlf"
  have "py_slice (?h @ b @ crlf @ post) (int (length ?h)) (int (length ?h) + int (length b)) = b"
    by (rule py_slice_mid) simp_all
  then show ?case
    using parse_line [of "CHR ''$''" "dec_nat (length b)" _ pre "b @ crlf @ post" d']
    by (simp add: d parse_kind_def header_facts crlf_def ac_simps)
next
  case (Arr vs)
  then obtain d' where d: "d = Suc d'" and d': "foldr (max \<circ> depth) vs 0 \<le> d'" by (cases d) auto
  have items: "parse d' (pre @ wire v @ post) (int (length pre))
      = Parsed (value_of v) (int (length (wire v)))" if "v \<in> set vs" for v pre post
    using Arr.IH [OF that, of d' pre post] that Arr.prems(1) depth_item [OF that] d'
    by (simp add: list_all_iff)
  let ?h = "pre @ CHR ''*'' # dec_nat (length vs) @ crlf"
  show ?case
    using parse_line [of "CHR ''*''" "dec_nat (length vs)" _ pre "concat (map wire vs) @ post" d']
      parse_items_wire [OF items, of vs "?h" post "[]"]
    by (simp add: d parse_kind_def header_facts crlf_def ac_simps)
next
  case (Simple s)
  then show ?case
    using parse_line [of "CHR ''+''" "s" _ pre post "d - 1"]
    by (cases d) (simp_all add: parse_kind_def header_facts crlf_def ac_simps)
next
  case (Integer i)
  then show ?case
    using parse_line [of "CHR '':''" "dec_int i" _ pre post "d - 1"]
    by (cases d) (simp_all add: parse_kind_def header_facts crlf_def ac_simps)
next
  case (Err e)
  then show ?case
    using parse_line [of "CHR ''-''" "utf8 e" _ pre post "d - 1"]
    by (cases d) (simp_all add: parse_kind_def header_facts crlf_def ac_simps)
next
  case NullBulk
  then show ?case
    using parse_line [of "CHR ''$''" "''-1''" _ pre post "d - 1"]
    by (cases d) (simp_all add: parse_kind_def header_facts crlf_def ac_simps)
next
  case NullArr
  then show ?case
    using parse_line [of "CHR ''*''" "''-1''" _ pre post "d - 1"]
    by (cases d) (simp_all add: parse_kind_def header_facts crlf_def ac_simps)
qed

text \<open>A reply of which only a proper prefix has arrived is incomplete, wherever it is cut.\<close>

lemma parse_items_prefix:
  assumes "\<And>v pre post. v \<in> set vs \<Longrightarrow>
      parse d (pre @ wire v @ post) (int (length pre)) = Parsed (value_of v) (int (length (wire v)))"
    and "\<And>v pre n. v \<in> set vs \<Longrightarrow> n < length (wire v) \<Longrightarrow>
      parse d (pre @ take n (wire v)) (int (length pre)) = Incomplete"
    and "n < length (concat (map wire vs))"
  shows "parse_items (parse d (pre @ take n (concat (map wire vs)))) (length vs) acc (int (length pre))
    = Incomplete"
  using assms
proof (induction vs arbitrary: pre acc n)
  case Nil
  then show ?case by simp
next
  case (Cons v vs)
  show ?case
  proof (cases "n < length (wire v)")
    case True
    with Cons.prems(2) [of v n pre] show ?thesis by simp
  next
    case False
    let ?rest = "take (n - length (wire v)) (concat (map wire vs))"
    have "parse d (pre @ wire v @ ?rest) (int (length pre)) = Parsed (value_of v) (int (length (wire v)))"
      using Cons.prems(1) by simp
    moreover have "parse_items (parse d ((pre @ wire v) @ ?rest)) (length vs) (acc @ [value_of v])
        (int (length (pre @ wire v))) = Incomplete"
      using Cons.prems False by (intro Cons.IH) auto
    ultimately show ?thesis using False by simp
  qed
qed

lemma length_crlf [simp]: "length crlf = 2"
  by (simp add: crlf_def)

lemma take_header:
  assumes "length line + 3 \<le> n"
  shows "take n (k # line @ crlf @ body) = k # line @ crlf @ take (n - (length line + 3)) body"
  using assms take_append [of n "k # line @ crlf" body] by (simp add: add_2_eq_Suc' numeral_3_eq_3)

lemma take_in_header:
  assumes "n < length line + 3"
  shows "take n (k # line @ crlf @ body) = take n (k # line @ crlf)"
  using assms take_append [of n "k # line @ crlf" body] by simp

lemma parse_wire_prefix:
  assumes "resp_ok v" and "depth v \<le> d" and "n < length (wire v)"
  shows "parse d (pre @ take n (wire v)) (int (length pre)) = Incomplete"
  using assms
proof (induction v arbitrary: d pre n)
  case (Bulk b)
  then obtain d' where d: "d = Suc d'" by (cases d) auto
  show ?case
  proof (cases "n < length (dec_nat (length b)) + 3")
    case True
    then show ?thesis
      using parse_truncated_line [of "CHR ''$''" "dec_nat (length b)" n d' pre]
      by (simp add: d take_in_header header_facts)
  next
    case False
    then show ?thesis
      using Bulk.prems(3) parse_line [of "CHR ''$''" "dec_nat (length b)" _ pre
          "take (n - (length (dec_nat (length b)) + 3)) (b @ crlf)" d']
      by (simp add: d take_header parse_kind_def header_facts ac_simps del: take_append parse.simps)
  qed
next
  case (Arr vs)
  then obtain d' where d: "d = Suc d'" and d': "foldr (max \<circ> depth) vs 0 \<le> d'" by (cases d) auto
  have item: "resp_ok v" "depth v \<le> d'" if "v \<in> set vs" for v
    using that Arr.prems(1) depth_item [OF that] d' by (auto simp: list_all_iff)
  show ?case
  proof (cases "n < length (dec_nat (length vs)) + 3")
    case True
    then show ?thesis
      using parse_truncated_line [of "CHR ''*''" "dec_nat (length vs)" n d' pre]
      by (simp add: d take_in_header header_facts)
  next
    case False
    let ?m = "n - (length (dec_nat (length vs)) + 3)"
    let ?h = "pre @ CHR ''*'' # dec_nat (length vs) @ crlf"
    have "parse_items (parse d' (?h @ take ?m (concat (map wire vs)))) (length vs) []
        (int (length ?h)) = Incomplete"
      using Arr.prems(3) False item
      by (intro parse_items_prefix parse_wire Arr.IH) auto
    then show ?thesis
      using False parse_line [of "CHR ''*''" "dec_nat (length vs)" _ pre
          "take ?m (concat (map wire vs))" d']
      by (simp add: d take_header parse_kind_def header_facts ac_simps del: parse.simps)
  qed
next
  case (Simple s)
  then show ?case
    using parse_truncated_line [of "CHR ''+''" "s" n "d - 1" pre]
    by (cases d) (simp_all add: header_facts crlf_def)
next
  case (Integer i)
  then show ?case
    using parse_truncated_line [of "CHR '':''" "dec_int i" n "d - 1" pre]
    by (cases d) (simp_all add: header_facts crlf_def)
next
  case (Err e)
  then show ?case
    using parse_truncated_line [of "CHR ''-''" "utf8 e" n "d - 1" pre]
    by (cases d) (simp_all add: header_facts crlf_def)
next
  case NullBulk
  then show ?case
    using parse_truncated_line [of "CHR ''$''" "''-1''" n "d - 1" pre]
    by (cases d) (simp_all add: header_facts crlf_def)
next
  case NullArr
  then show ?case
    using parse_truncated_line [of "CHR ''*''" "''-1''" n "d - 1" pre]
    by (cases d) (simp_all add: header_facts crlf_def)
qed

lemma dec_nat_small: "dec_nat (Suc 0) = ''1''" "dec_nat (Suc (Suc 0)) = ''2''" "dec_nat (Suc (Suc (Suc 0))) = ''3''"
  by (simp_all add: dec_nat.simps digit_char_def char_of_eq_iff del: digit_char_numerals)

lemma wire_nonempty [simp]: "wire v \<noteq> []"
  by (cases v) simp_all

lemma gets_wire:
  assumes "resp_ok v" and "depth v \<le> d"
  shows "gets d (wire v @ rest) = (Inr (Some (value_of v)), rest)"
  using parse_wire [OF assms, of "[]" rest] by (simp add: gets_def py_simps)

lemma gets_wire_prefix:
  assumes "resp_ok v" and "depth v \<le> d" and "strict_prefix buf (wire v)"
  shows "gets d buf = (Inr None, buf)"
proof -
  from assms(3) have "buf = take (length buf) (wire v)" and "length buf < length (wire v)"
    by (auto simp: strict_prefix_def prefix_def)
  with parse_wire_prefix [OF assms(1,2), of "length buf" "[]"] show ?thesis
    by (simp add: gets_def)
qed

text \<open>
  C2. The reader decodes every well-formed server reply: with at least as many frames left as the
  reply is nested, \<open>gets\<close> on a buffer that starts with the reply returns the value the protocol
  assigns to it and leaves exactly the bytes that follow it in the buffer.
\<close>

theorem reader_decodes_reply:
  assumes "resp_ok v" and "depth v \<le> d"
  shows "gets d (feed (wire v) rest) = (Inr (Some (value_of v)), rest)"
  by (simp add: feed_def gets_wire assms)

theorem reader_decodes_reply_witness:
  "gets 2 (feed (wire (Arr [Bulk ''ab'', NullBulk, Integer (-3)])) ''+O'')
     = (Inr (Some (RList [RBytes ''ab'', RNone, RInt (-3)])), ''+O'')"
  using reader_decodes_reply [of "Arr [Bulk ''ab'', NullBulk, Integer (-3)]" 2 "''+O''"] by simp

text \<open>
  C4. The reader never guesses: on any proper prefix of a well-formed reply \<open>gets\<close> reports that
  nothing is available and keeps every byte, so no cut of the stream can produce a wrong value.
\<close>

theorem reader_waits_for_whole_reply:
  assumes "resp_ok v" and "depth v \<le> d" and "strict_prefix buf (wire v)"
  shows "gets d buf = (Inr None, buf)"
  using assms by (rule gets_wire_prefix)

theorem reader_waits_for_whole_reply_witness:
  "gets 1 (''$2'' @ crlf @ ''a'') = (Inr None, ''$2'' @ crlf @ ''a'')"
proof -
  have "strict_prefix (''$2'' @ crlf @ ''a'') (wire (Bulk ''ab''))"
    by (simp add: strict_prefix_def dec_nat_small crlf_def)
  then show ?thesis by (intro reader_waits_for_whole_reply [of "Bulk ''ab''" 1]) simp_all
qed

section \<open>The encoder\<close>

lemma encode_args_ok:
  assumes "list_all2 (\<lambda>a b. arg_bytes repr a = Inr b) args bs"
  shows "encode_args repr out args = Inr (out @ concat (map (wire \<circ> Bulk) bs))"
  using assms by (induction arbitrary: out rule: list_all2_induct) simp_all

lemma encode_args_cases:
  "(\<exists>bs. list_all2 (\<lambda>a b. arg_bytes repr a = Inr b) args bs) \<or>
   (\<exists>pre a post e. args = pre @ a # post \<and> arg_bytes repr a = Inl e \<and> encode_args repr out args = Inl e
      \<and> (\<exists>bs. list_all2 (\<lambda>a b. arg_bytes repr a = Inr b) pre bs))"
proof (induction args arbitrary: out)
  case Nil
  then show ?case by simp
next
  case (Cons x xs)
  show ?case
  proof (cases "arg_bytes repr x")
    case (Inl e)
    then have "x # xs = [] @ x # xs \<and> arg_bytes repr x = Inl e \<and> encode_args repr out (x # xs) = Inl e
        \<and> list_all2 (\<lambda>a b. arg_bytes repr a = Inr b) [] []" by simp
    then show ?thesis by blast
  next
    case (Inr b)
    from Cons.IH [of "out @ ''$'' @ dec_nat (length b) @ crlf @ b @ crlf"] show ?thesis
    proof (elim disjE exE conjE)
      fix bs
      assume "list_all2 (\<lambda>a b. arg_bytes repr a = Inr b) xs bs"
      with Inr have "list_all2 (\<lambda>a b. arg_bytes repr a = Inr b) (x # xs) (b # bs)" by simp
      then show ?thesis by blast
    next
      fix pre a post e bs
      assume *: "xs = pre @ a # post" "arg_bytes repr a = Inl e"
        "encode_args repr (out @ ''$'' @ dec_nat (length b) @ crlf @ b @ crlf) xs = Inl e"
        "list_all2 (\<lambda>a b. arg_bytes repr a = Inr b) pre bs"
      with Inr have "x # xs = (x # pre) @ a # post" "encode_args repr out (x # xs) = Inl e"
        "list_all2 (\<lambda>a b. arg_bytes repr a = Inr b) (x # pre) (b # bs)" by simp_all
      with * show ?thesis by blast
    qed
  qed
qed

lemma encode_command_ok:
  assumes "list_all2 (\<lambda>a b. arg_bytes repr a = Inr b) args bs"
  shows "encode_command repr args = Inr (wire (Arr (map Bulk bs)))"
  using encode_args_ok [OF assms] list_all2_lengthD [OF assms]
  by (simp add: encode_command_def comp_def)

text \<open>
  C5. Encoding a command and reading it back gives its arguments: if every argument is printable,
  the encoder's output is one RESP array which the reader decodes to the arguments' bytes in order,
  with nothing left over; otherwise the encoder raises what the first unprintable argument raises.
\<close>

theorem encode_command_roundtrip:
  "case encode_command repr args of
     Inr w \<Rightarrow> \<exists>bs. list_all2 (\<lambda>a b. arg_bytes repr a = Inr b) args bs
                  \<and> (\<forall>rest. gets 2 (w @ rest) = (Inr (Some (RList (map RBytes bs))), rest))
   | Inl e \<Rightarrow> \<exists>pre a post. args = pre @ a # post \<and> arg_bytes repr a = Inl e
                  \<and> (\<exists>bs. list_all2 (\<lambda>a b. arg_bytes repr a = Inr b) pre bs)"
proof -
  consider (ok) bs where "list_all2 (\<lambda>a b. arg_bytes repr a = Inr b) args bs"
    | (bad) pre a post e bs where "args = pre @ a # post" "arg_bytes repr a = Inl e"
        "encode_command repr args = Inl e" "list_all2 (\<lambda>a b. arg_bytes repr a = Inr b) pre bs"
    using encode_args_cases unfolding encode_command_def by metis
  then show ?thesis
  proof cases
    case ok
    have "foldr (max \<circ> depth) (map Bulk bs) 0 \<le> 1" by (induction bs) auto
    then have "gets 2 (wire (Arr (map Bulk bs)) @ rest) = (Inr (Some (RList (map RBytes bs))), rest)"
      for rest
      using gets_wire [of "Arr (map Bulk bs)" 2 rest] by (simp add: list_all_iff comp_def)
    with ok show ?thesis by (auto simp: encode_command_ok [OF ok] simp del: wire.simps)
  qed auto
qed

lemma command_words:
  "utf8_encode (map of_char ''GET'') = Inr ''GET''" "utf8_encode (map of_char ''SET'') = Inr ''SET''"
  by (simp_all add: utf8_encode_def utf8_def utf8_cp_def valid_cp_def char_of_eq_iff)

lemma get_bytes_wire: "get_bytes k = wire (Arr (map Bulk [''GET'', k]))"
  and set_bytes_wire: "set_bytes k v = wire (Arr (map Bulk [''SET'', k, v]))"
  by (simp_all add: get_bytes_def set_bytes_def dec_nat_small)

lemma key_bytes_arg: "key \<in> range AStr \<union> range ABytes \<Longrightarrow> arg_bytes repr key = key_bytes key"
  by auto

text \<open>
  C6. The hand-optimised \<open>get\<close> and \<open>set\<close> paths put the same bytes on the wire as the generic
  \<open>execute("GET", key)\<close> and \<open>execute("SET", key, value)\<close> for every text or byte-string
  argument, and raise the same error when a text cannot be encoded.
\<close>

theorem get_set_same_as_execute:
  fixes repr :: "'f \<Rightarrow> bytes"
  assumes "key \<in> range AStr \<union> range ABytes" and "value \<in> range AStr \<union> range ABytes"
  shows "get_command key = encode_command repr [AStr (map of_char ''GET''), key]
    \<and> set_command key value = encode_command repr [AStr (map of_char ''SET''), key, value]"
proof (cases "key_bytes key")
  case (Inl e)
  then show ?thesis
    by (simp add: get_command_def set_command_def encode_command_def key_bytes_arg [OF assms(1)]
        command_words del: list.map)
next
  case key: (Inr k)
  have get: "encode_command repr [AStr (map of_char ''GET''), key] = Inr (get_bytes k)"
    unfolding get_bytes_wire
    by (rule encode_command_ok) (simp add: key_bytes_arg [OF assms(1)] key command_words del: list.map)
  show ?thesis
  proof (cases "key_bytes value")
    case (Inl e)
    with get key show ?thesis
      by (simp add: get_command_def set_command_def encode_command_def key_bytes_arg [OF assms(1)]
          key_bytes_arg [OF assms(2)] command_words del: list.map)
  next
    case (Inr v)
    have "encode_command repr [AStr (map of_char ''SET''), key, value] = Inr (set_bytes k v)"
      unfolding set_bytes_wire
      by (rule encode_command_ok)
        (simp add: key_bytes_arg [OF assms(1)] key_bytes_arg [OF assms(2)] key Inr command_words
          del: list.map)
    with get key Inr show ?thesis
      by (simp add: get_command_def set_command_def)
  qed
qed

theorem get_set_same_as_execute_witness:
  "get_command (ABytes ''k'' :: unit arg)
       = encode_command (\<lambda>x :: unit. []) [AStr (map of_char ''GET''), ABytes ''k'']
   \<and> set_command (ABytes ''k'' :: unit arg) (AStr [118])
       = encode_command (\<lambda>x :: unit. []) [AStr (map of_char ''SET''), ABytes ''k'', AStr [118]]"
  by (rule get_set_same_as_execute) auto

text \<open>
  A bulk header with a negative length other than \<open>-1\<close> is not rejected: the reader answers it with
  an empty byte string and, for the length \<open>-7\<close>, consumes nothing, so the same header answers
  every later call as well.
\<close>

lemma negative_bulk_length_accepted:
  "gets (Suc d) (''$-7'' @ crlf) = (Inr (Some (RBytes [])), ''$-7'' @ crlf)"
proof -
  have "py_int ''-7'' = Inr (-7)" by code_simp
  then show ?thesis
    using parse_line [of "CHR ''$''" "''-7''" "''$-7'' @ crlf" "[]" "[]" d]
    by (simp add: gets_def parse_kind_def crlf_def py_slice_def py_idx_def py_del_prefix_def
        del: parse.simps)
qed

end
