(* ===== verification/Redis_Mux.thy ===== *)
theory Redis_Mux
  imports Resp
begin

text \<open>
  The multiplexed Redis connection of \<open>contrib_redis.py\<close>: class \<open>RedisMux\<close> and its protocol
  object \<open>_MuxProtocol\<close>.  A state holds the fields of \<open>RedisMux\<close> and, below them, what the event
  loop keeps for it: the futures handed out, the transports with the bytes written to them and
  whether they are closing, and the number of queued \<open>_flush\<close> callbacks.  The replies are read
  by the pure Python reader of theory \<open>Resp\<close>; the optional \<open>hiredis\<close> reader is third-party code.

  The coroutine \<open>connect\<close> is cut at its \<open>await\<close> points: \<open>connect_enter\<close> runs up to the dial,
  \<open>connect_established\<close> from the new transport to the end of its \<open>try\<close> block, \<open>connect_finally\<close>
  is the \<open>finally\<close> clause and \<open>connect_waited\<close> the continuation of a task that waited for
  another task's dial.
\<close>

section \<open>State\<close>

datatype fut = Pending | Result reply | ReplyError codepoints | ConnLost | Cancelled

record mux =
  loop :: bool
  transport :: "nat option"
  reader :: "bytes option"
  waiters :: "nat list"
  wbuf :: bytes
  flush_scheduled :: bool
  connecting :: bool
  closed :: bool
  db :: int
  futs :: "nat \<Rightarrow> fut"
  next_fut :: nat
  closing :: "nat \<Rightarrow> bool"
  written :: "nat \<Rightarrow> bytes"
  callbacks :: nat

text \<open>\<open>RedisMux.__init__\<close>, for a given database number.\<close>

definition mux_init :: "int \<Rightarrow> mux" where
  "mux_init n = \<lparr>loop = False, transport = None, reader = None, waiters = [], wbuf = [],
     flush_scheduled = False, connecting = False, closed = False, db = n,
     futs = (\<lambda>_. Cancelled), next_fut = 0, closing = (\<lambda>_. False), written = (\<lambda>_. []), callbacks = 0\<rparr>"

definition usable :: "mux \<Rightarrow> bool" where
  "usable s \<longleftrightarrow> (case transport s of None \<Rightarrow> False | Some t \<Rightarrow> \<not> closing s t)"

section \<open>The command path\<close>

definition write_to :: "nat \<Rightarrow> bytes \<Rightarrow> mux \<Rightarrow> mux" where
  "write_to t data s = s\<lparr>written := (written s)(t := written s t @ data)\<rparr>"

definition flush :: "mux \<Rightarrow> mux" where
  "flush s =
     (let s1 = s\<lparr>flush_scheduled := False\<rparr>
      in case transport s1 of
           None \<Rightarrow> s1
         | Some t \<Rightarrow> if wbuf s1 \<noteq> [] then write_to t (wbuf s1) (s1\<lparr>wbuf := []\<rparr>) else s1)"

text \<open>\<open>_send\<close>: the future it returns, or the \<open>AttributeError\<close> of a loop or transport that is \<open>None\<close>.\<close>

definition send :: "bytes \<Rightarrow> mux \<Rightarrow> nat py \<times> mux" where
  "send encoded s =
     (if \<not> loop s then (Inl AttributeError, s)
      else
        let f = next_fut s;
            s1 = s\<lparr>next_fut := Suc f, futs := (futs s)(f := Pending)\<rparr>
        in if waiters s1 = [] \<and> wbuf s1 = []
           then let s2 = s1\<lparr>waiters := waiters s1 @ [f]\<rparr>
                in case transport s2 of
                     None \<Rightarrow> (Inl AttributeError, s2)
                   | Some t \<Rightarrow> (Inr f, write_to t encoded s2)
           else let s2 = s1\<lparr>waiters := waiters s1 @ [f], wbuf := wbuf s1 @ encoded\<rparr>
                in if \<not> flush_scheduled s2
                   then (Inr f, s2\<lparr>flush_scheduled := True, callbacks := Suc (callbacks s2)\<rparr>)
                   else (Inr f, s2))"

section \<open>Connection management\<close>

datatype connect_next = ConnReturn | ConnRaise py_exn | ConnWait | ConnDial

definition connect_enter :: "mux \<Rightarrow> connect_next \<times> mux" where
  "connect_enter s =
     (if usable s then (ConnReturn, s)
      else if closed s then (ConnRaise (ConnectionError ''RedisMux is closed''), s)
      else if connecting s then (ConnWait, s)
      else (ConnDial, s\<lparr>connecting := True\<rparr>))"

definition connect_waited :: "mux \<Rightarrow> connect_next" where
  "connect_waited s = (if usable s then ConnReturn else ConnRaise (ConnectionError ''redis connect failed''))"

text \<open>\<open>execute\<close> once the connection is usable: encode, then send; and the whole of \<open>execute\<close>
  up to its first \<open>await\<close>, which is the one in \<open>connect\<close> or the one on the future.\<close>

definition execute_connected :: "('f \<Rightarrow> bytes) \<Rightarrow> 'f arg list \<Rightarrow> mux \<Rightarrow> nat py \<times> mux" where
  "execute_connected repr args s =
     (case encode_command repr args of Inl e \<Rightarrow> (Inl e, s) | Inr w \<Rightarrow> send w s)"

definition execute_enter ::
  "('f \<Rightarrow> bytes) \<Rightarrow> 'f arg list \<Rightarrow> mux \<Rightarrow> (connect_next + nat py) \<times> mux" where
  "execute_enter repr args s =
     (if \<not> usable s then map_prod Inl id (connect_enter s)
      else map_prod Inr id (execute_connected repr args s))"

text \<open>After the dial: the reset of the connection state and the \<open>SELECT\<close> of a non-zero database.\<close>

definition connect_established :: "nat \<Rightarrow> mux \<Rightarrow> mux" where
  "connect_established t s =
     (let s1 = s\<lparr>loop := True, reader := Some [], waiters := [], wbuf := [], flush_scheduled := False,
                 transport := Some t\<rparr>
      in if db s1 \<noteq> 0
         then snd (execute_connected (\<lambda>_ :: unit. []) [AStr (map of_char ''SELECT''), AInt (db s1)] s1)
         else s1)"

definition connect_finally :: "mux \<Rightarrow> mux" where
  "connect_finally s = s\<lparr>connecting := False\<rparr>"

definition on_connection_lost :: "mux \<Rightarrow> mux" where
  "on_connection_lost s =
     s\<lparr>transport := None, waiters := [],
       futs := (\<lambda>f. if f \<in> set (waiters s) \<and> futs s f = Pending then ConnLost else futs s f)\<rparr>"

definition close :: "mux \<Rightarrow> mux" where
  "close s =
     (let s1 = s\<lparr>closed := True\<rparr>
      in case transport s1 of
           None \<Rightarrow> s1
         | Some t \<Rightarrow> s1\<lparr>closing := (closing s1)(t := True), transport := None\<rparr>)"

section \<open>Incoming data\<close>

definition settle :: "(nat \<Rightarrow> fut) \<Rightarrow> nat \<Rightarrow> reply \<Rightarrow> nat \<Rightarrow> fut" where
  "settle fs f r =
     (if fs f \<noteq> Pending then fs
      else case r of RError e \<Rightarrow> fs(f := ReplyError e) | _ \<Rightarrow> fs(f := Result r))"

text \<open>
  The \<open>while True\<close> loop of \<open>data_received\<close>.  Every round takes one waiter off the queue, and
  \<open>popleft\<close> of an empty queue raises, so the loop ends.
\<close>

fun drain :: "nat \<Rightarrow> bytes \<Rightarrow> nat list \<Rightarrow> (nat \<Rightarrow> fut) \<Rightarrow> py_exn option \<times> bytes \<times> nat list \<times> (nat \<Rightarrow> fut)" where
  "drain d buf ws fs =
     (case gets d buf of
        (Inl e, buf') \<Rightarrow> (Some e, buf', ws, fs)
      | (Inr None, buf') \<Rightarrow> (None, buf', ws, fs)
      | (Inr (Some r), buf') \<Rightarrow>
          (case ws of
             [] \<Rightarrow> (Some IndexError, buf', [], fs)
           | f # ws' \<Rightarrow> drain d buf' ws' (settle fs f r)))"

declare drain.simps [simp del]

definition data_received :: "nat \<Rightarrow> bytes \<Rightarrow> mux \<Rightarrow> py_exn option \<times> mux" where
  "data_received d data s =
     (case reader s of
        None \<Rightarrow> (Some AttributeError, s)
      | Some buf \<Rightarrow>
          (case drain d (feed buf data) (waiters s) (futs s) of
             (e, buf', ws, fs) \<Rightarrow> (e, s\<lparr>reader := Some buf', waiters := ws, futs := fs\<rparr>)))"

text \<open>A task that gives up on its reply cancels the future it awaits.\<close>

definition cancel :: "nat \<Rightarrow> mux \<Rightarrow> mux" where
  "cancel f s = (if futs s f = Pending then s\<lparr>futs := (futs s)(f := Cancelled)\<rparr> else s)"

text \<open>One mux per event loop: \<open>mux_for_loop\<close> over the table of muxes.\<close>

definition mux_for_loop :: "'l \<Rightarrow> int \<Rightarrow> ('l \<rightharpoonup> mux) \<Rightarrow> mux \<times> ('l \<rightharpoonup> mux)" where
  "mux_for_loop l n per_loop =
     (case per_loop l of
        None \<Rightarrow> (mux_init n, per_loop(l \<mapsto> mux_init n))
      | Some m \<Rightarrow> (m, per_loop))"

section \<open>Demultiplexing\<close>

text \<open>The event loop delivering the chunks of the byte stream one callback after the other.\<close>

fun receive_all :: "nat \<Rightarrow> bytes list \<Rightarrow> mux \<Rightarrow> py_exn option \<times> mux" where
  "receive_all d [] s = (None, s)"
| "receive_all d (c # cs) s =
     (case data_received d c s of
        (Some e, s') \<Rightarrow> (Some e, s')
      | (None, s') \<Rightarrow> receive_all d cs s')"

text \<open>What the caller of a command sees of a reply.\<close>

definition reply_outcome :: "reply \<Rightarrow> fut" where
  "reply_outcome r = (case r of RError e \<Rightarrow> ReplyError e | _ \<Rightarrow> Result r)"

fun settle_all :: "(nat \<Rightarrow> fut) \<Rightarrow> nat list \<Rightarrow> reply list \<Rightarrow> nat \<Rightarrow> fut" where
  "settle_all fs (f # ws) (r # rs) = settle_all (settle fs f r) ws rs"
| "settle_all fs _ _ = fs"

lemma settle_eq: "settle fs f r = (if fs f = Pending then fs(f := reply_outcome r) else fs)"
  by (simp add: settle_def reply_outcome_def split: reply.splits)

lemma settle_all_append:
  "length rs \<le> length ws \<Longrightarrow>
    settle_all fs ws (rs @ rs') = settle_all (settle_all fs ws rs) (drop (length rs) ws) rs'"
  by (induction fs ws rs rule: settle_all.induct) auto

lemma settle_all_other: "f \<notin> set (take (length rs) ws) \<Longrightarrow> settle_all fs ws rs f = fs f"
  by (induction fs ws rs rule: settle_all.induct) (auto simp: settle_eq)

lemma settle_all_nth:
  assumes "distinct ws" and "i < length rs" and "i < length ws"
  shows "settle_all fs ws rs (ws ! i)
    = (if fs (ws ! i) = Pending then reply_outcome (rs ! i) else fs (ws ! i))"
  using assms
proof (induction fs ws rs arbitrary: i rule: settle_all.induct)
  case (1 fs f ws r rs)
  show ?case
  proof (cases i)
    case 0
    have "settle_all (settle fs f r) ws rs f = settle fs f r f"
      using "1.prems"(1) by (intro settle_all_other) (auto dest: in_set_takeD)
    with 0 show ?thesis by (simp add: settle_eq)
  next
    case (Suc j)
    with "1.IH" [of j] "1.prems" show ?thesis by (auto simp: settle_eq)
  qed
qed simp_all

lemma drain_reply:
  assumes "gets d buf = (Inr (Some r), buf')"
  shows "drain d buf (f # ws) fs = drain d buf' ws (settle fs f r)"
  by (subst drain.simps) (simp add: assms)

lemma drain_stop:
  assumes "gets d buf = (Inr None, buf)"
  shows "drain d buf ws fs = (None, buf, ws, fs)"
  by (subst drain.simps) (simp add: assms)

lemma gets_Nil: "0 < d \<Longrightarrow> gets d [] = (Inr None, [])"
  by (cases d) (simp_all add: gets_def py_find_def crlf_def py_idx_def)

text \<open>Draining any prefix of a stream of replies settles the complete ones and keeps the rest.\<close>

lemma drain_prefix:
  assumes "0 < d" and "list_all (\<lambda>v. resp_ok v \<and> depth v \<le> d) vs"
    and "prefix buf (concat (map wire vs))" and "length vs \<le> length ws"
  shows "\<exists>vs1 vs2 part. vs = vs1 @ vs2 \<and> buf = concat (map wire vs1) @ part
    \<and> gets d part = (Inr None, part)
    \<and> drain d buf ws fs = (None, part, drop (length vs1) ws, settle_all fs ws (map value_of vs1))"
  using assms(2-)
proof (induction vs arbitrary: buf ws fs)
  case Nil
  then show ?case
    using drain_stop [OF gets_Nil [OF assms(1)]] gets_Nil [OF assms(1)] by simp
next
  case (Cons v vs)
  have v: "resp_ok v" "depth v \<le> d" and vs: "list_all (\<lambda>v. resp_ok v \<and> depth v \<le> d) vs"
    using Cons.prems(1) by auto
  obtain f ws' where ws: "ws = f # ws'" using Cons.prems(3) by (cases ws) auto
  show ?case
  proof (cases "prefix (wire v) buf")
    case True
    then obtain buf' where buf: "buf = wire v @ buf'" by (auto simp: prefix_def)
    from Cons.IH [OF vs, of buf' ws' "settle fs f (value_of v)"] Cons.prems(2,3)
    obtain vs1 vs2 part where *: "vs = vs1 @ vs2" "buf' = concat (map wire vs1) @ part"
      "gets d part = (Inr None, part)"
      "drain d buf' ws' (settle fs f (value_of v))
         = (None, part, drop (length vs1) ws', settle_all (settle fs f (value_of v)) ws' (map value_of vs1))"
      by (auto simp: buf ws)
    then have "v # vs = (v # vs1) @ vs2" "buf = concat (map wire (v # vs1)) @ part"
      "drain d buf ws fs = (None, part, drop (length (v # vs1)) ws, settle_all fs ws (map value_of (v # vs1)))"
      using drain_reply [OF gets_wire [OF v, of buf']] by (simp_all add: buf ws)
    with *(3) show ?thesis by blast
  next
    case False
    then have "strict_prefix buf (wire v)"
      using Cons.prems(2) prefix_same_cases [of buf _ "wire v"]
      by (fastforce simp: strict_prefix_def)
    then have "gets d buf = (Inr None, buf)" by (rule gets_wire_prefix [OF v])
    with drain_stop [OF this] have "v # vs = [] @ v # vs \<and> buf = concat (map wire []) @ buf
        \<and> gets d buf = (Inr None, buf)
        \<and> drain d buf ws fs = (None, buf, drop (length []) ws, settle_all fs ws (map value_of []))"
      by simp
    then show ?thesis by blast
  qed
qed

lemma receive_all_stream:
  assumes "0 < d" and "list_all (\<lambda>v. resp_ok v \<and> depth v \<le> d) vs"
    and "reader s = Some b" and "b @ concat chunks = concat (map wire vs)"
    and "length vs \<le> length (waiters s)"
    and "gets d b = (Inr None, b)"
  shows "receive_all d chunks s = (None, s\<lparr>reader := Some [],
      waiters := drop (length vs) (waiters s), futs := settle_all (futs s) (waiters s) (map value_of vs)\<rparr>)"
  using assms(2-)
proof (induction chunks arbitrary: vs s b)
  case Nil
  have "vs = []"
  proof (rule ccontr)
    assume "vs \<noteq> []"
    then obtain v vs' where "vs = v # vs'" by (cases vs) auto
    with Nil.prems(1,3) gets_wire [of v d "concat (map wire vs')"]
    have "gets d b = (Inr (Some (value_of v)), concat (map wire vs'))" by simp
    with Nil.prems(5) show False by simp
  qed
  with Nil.prems show ?case by simp
next
  case (Cons c cs)
  have "prefix (b @ c) (concat (map wire vs))"
    using Cons.prems(3) by (metis append.assoc concat.simps(2) prefixI)
  from drain_prefix [OF assms(1) Cons.prems(1) this Cons.prems(4), of "futs s"]
  obtain vs1 vs2 part where *: "vs = vs1 @ vs2" "b @ c = concat (map wire vs1) @ part"
    "gets d part = (Inr None, part)"
    "drain d (b @ c) (waiters s) (futs s)
       = (None, part, drop (length vs1) (waiters s), settle_all (futs s) (waiters s) (map value_of vs1))"
    by blast
  let ?s = "s\<lparr>reader := Some part, waiters := drop (length vs1) (waiters s),
      futs := settle_all (futs s) (waiters s) (map value_of vs1)\<rparr>"
  have recv: "data_received d c s = (None, ?s)"
    using Cons.prems(2) * by (simp add: data_received_def feed_def)
  have "(b @ c) @ concat cs = concat (map wire (vs1 @ vs2))"
    using Cons.prems(3) *(1) by simp
  then have rest: "part @ concat cs = concat (map wire vs2)"
    unfolding *(2) by simp
  have "receive_all d cs ?s = (None, ?s\<lparr>reader := Some [], waiters := drop (length vs2) (waiters ?s),
      futs := settle_all (futs ?s) (waiters ?s) (map value_of vs2)\<rparr>)"
    using Cons.prems(1,4) * rest by (intro Cons.IH) auto
  then show ?case
    using Cons.prems(4) *(1) recv
      settle_all_append [of "map value_of vs1" "waiters s" "futs s" "map value_of vs2"]
    by (simp add: add.commute)
qed

text \<open>
  C1. A FIFO of futures is a complete demultiplexer: however the network cuts the stream of replies
  into chunks, the \<open>i\<close>-th reply settles the future of the \<open>i\<close>-th outstanding command and no
  other; a future the caller has cancelled swallows its reply; the queue loses exactly the
  answered commands and no byte stays behind.
\<close>

theorem mux_demultiplexes_in_order:
  assumes "0 < d" and "list_all (\<lambda>v. resp_ok v \<and> depth v \<le> d) vs"
    and "reader s = Some []" and "concat chunks = concat (map wire vs)"
    and "length vs \<le> length (waiters s)" and "distinct (waiters s)"
  shows "\<exists>s'. receive_all d chunks s = (None, s') \<and> reader s' = Some []
    \<and> waiters s' = drop (length vs) (waiters s)
    \<and> (\<forall>i < length vs. futs s' (waiters s ! i)
         = (if futs s (waiters s ! i) = Pending then reply_outcome (value_of (vs ! i))
            else futs s (waiters s ! i)))
    \<and> (\<forall>f. f \<notin> set (take (length vs) (waiters s)) \<longrightarrow> futs s' f = futs s f)"
proof -
  have "receive_all d chunks s = (None, s\<lparr>reader := Some [],
      waiters := drop (length vs) (waiters s), futs := settle_all (futs s) (waiters s) (map value_of vs)\<rparr>)"
    using assms gets_Nil [OF assms(1)] by (intro receive_all_stream) auto
  with assms(5,6) show ?thesis
    by (auto simp: settle_all_nth settle_all_other)
qed

theorem mux_demultiplexes_in_order_witness:
  "\<exists>s'. receive_all 1 [''+O'', ''K'' @ crlf @ '':'', ''7'' @ crlf]
          ((mux_init 0)\<lparr>reader := Some [], waiters := [0, 1], futs := (\<lambda>_. Pending)\<rparr>) = (None, s')
     \<and> futs s' 0 = Result (RBytes ''OK'') \<and> futs s' 1 = Result (RInt 7) \<and> waiters s' = []"
proof -
  let ?vs = "[Simple ''OK'', Integer 7]"
  let ?s = "(mux_init 0)\<lparr>reader := Some [], waiters := [0, 1], futs := (\<lambda>_. Pending)\<rparr>"
  have "concat [''+O'', ''K'' @ crlf @ '':'', ''7'' @ crlf] = concat (map wire ?vs)"
    by (simp add: dec_int_def dec_nat.simps)
  with mux_demultiplexes_in_order [of 1 ?vs ?s "[''+O'', ''K'' @ crlf @ '':'', ''7'' @ crlf]"]
  show ?thesis by (fastforce simp: reply_outcome_def less_Suc_eq)
qed

section \<open>Command order on the socket\<close>

text \<open>
  A live connection as a transition system.  The second component of its state is the history: all
  bytes of the commands accepted by \<open>send\<close> since the connection was established.
\<close>

datatype mux_event = Sent bytes | Flushed | Received bytes | Gave_up nat

inductive mux_step :: "nat \<Rightarrow> mux \<times> bytes \<Rightarrow> mux_event \<Rightarrow> mux \<times> bytes \<Rightarrow> bool" for d where
  sent: "send w s = (Inr f, s') \<Longrightarrow> mux_step d (s, h) (Sent w) (s', h @ w)"
| flushed: "callbacks s = Suc n \<Longrightarrow> mux_step d (s, h) Flushed (flush (s\<lparr>callbacks := n\<rparr>), h)"
| received: "data_received d data s = (None, s') \<Longrightarrow> mux_step d (s, h) (Received data) (s', h)"
| gave_up: "mux_step d (s, h) (Gave_up f) (cancel f s, h)"

inductive_cases mux_stepE: "mux_step d p e q"

definition mux_start :: "nat \<Rightarrow> nat \<Rightarrow> mux \<times> bytes \<Rightarrow> bool" where
  "mux_start k t p \<longleftrightarrow> (\<exists>s0. written s0 t = [] \<and> next_fut s0 = k \<and> fst p = connect_established t s0 \<and> snd p = written (fst p) t)"

definition mux_inv :: "nat \<Rightarrow> nat \<Rightarrow> mux \<times> bytes \<Rightarrow> bool" where
  "mux_inv k t p \<longleftrightarrow>
     (case p of (s, h) \<Rightarrow>
        transport s = Some t \<and> loop s \<and> reader s \<noteq> None
        \<and> written s t @ wbuf s = h
        \<and> (wbuf s \<noteq> [] \<longrightarrow> flush_scheduled s)
        \<and> (flush_scheduled s \<longrightarrow> 0 < callbacks s)
        \<and> distinct (waiters s) \<and> (\<forall>f \<in> set (waiters s). f < next_fut s)
        \<and> (\<forall>f. k \<le> f \<and> f < next_fut s \<and> futs s f = Pending \<longrightarrow> f \<in> set (waiters s)))"

lemma drain_waiters: "\<exists>n. fst (snd (snd (drain d buf ws fs))) = drop n ws"
proof (induction d buf ws fs rule: drain.induct)
  case (1 d buf ws fs)
  show ?case
  proof (cases "\<exists>r buf' f ws'. gets d buf = (Inr (Some r), buf') \<and> ws = f # ws'")
    case True
    then obtain r buf' f ws' where g: "gets d buf = (Inr (Some r), buf')" and ws: "ws = f # ws'"
      by blast
    with "1" obtain n where "fst (snd (snd (drain d buf' ws' (settle fs f r)))) = drop n ws'"
      by fastforce
    then have "fst (snd (snd (drain d buf ws fs))) = drop (Suc n) ws"
      using drain_reply [OF g] ws by simp
    then show ?thesis by blast
  next
    case False
    then have "fst (snd (snd (drain d buf ws fs))) = drop 0 ws"
      by (subst drain.simps) (auto split: prod.splits sum.splits option.splits list.splits)
    then show ?thesis by blast
  qed
qed

text \<open>A waiter leaves the queue only when its future is no longer pending.\<close>

lemma drain_pending:
  assumes "drain d buf ws fs = (e, buf', ws', fs')" and "fs' f = Pending"
  shows "fs f = Pending \<and> (f \<in> set ws \<longrightarrow> f \<in> set ws')"
  using assms(1)
proof (induction d buf ws fs rule: drain.induct)
  case (1 d buf ws fs)
  show ?case
  proof (cases "\<exists>r b g gs. gets d buf = (Inr (Some r), b) \<and> ws = g # gs")
    case True
    then obtain r b g gs where g: "gets d buf = (Inr (Some r), b)" and ws: "ws = g # gs" by blast
    with "1" have "settle fs g r f = Pending \<and> (f \<in> set gs \<longrightarrow> f \<in> set ws')"
      using drain_reply [OF g] by fastforce
    with ws show ?thesis
      by (auto simp: settle_eq reply_outcome_def split: if_splits reply.splits)
  next
    case False
    with "1.prems" assms(2) show ?thesis
      by (subst (asm) drain.simps) (auto split: prod.splits sum.splits option.splits list.splits)
  qed
qed

lemma data_received_frame:
  assumes "data_received d data s = (e, s')" and "reader s \<noteq> None"
  shows "transport s' = transport s \<and> loop s' = loop s \<and> reader s' \<noteq> None \<and> written s' = written s
    \<and> wbuf s' = wbuf s \<and> flush_scheduled s' = flush_scheduled s \<and> callbacks s' = callbacks s
    \<and> next_fut s' = next_fut s \<and> (\<exists>n. waiters s' = drop n (waiters s))
    \<and> (\<forall>f. futs s' f = Pending \<longrightarrow> futs s f = Pending \<and> (f \<in> set (waiters s) \<longrightarrow> f \<in> set (waiters s')))"
proof -
  obtain b where b: "reader s = Some b" using assms(2) by blast
  obtain e' b' ws fs where r: "drain d (feed b data) (waiters s) (futs s) = (e', b', ws, fs)"
    by (cases "drain d (feed b data) (waiters s) (futs s)") auto
  from drain_waiters [of d "feed b data" "waiters s" "futs s"] r have "\<exists>n. ws = drop n (waiters s)"
    by simp
  with assms(1) b r drain_pending [OF r] show ?thesis by (auto simp: data_received_def)
qed

lemma send_inv [step_inv]:
  assumes "mux_inv k t (s, h)" and "send w s = (Inr f, s')"
  shows "mux_inv k t (s', h @ w)"
  using assms
  by (auto simp: mux_inv_def send_def write_to_def Let_def split: if_splits simp: less_Suc_eq)

lemma flush_inv [step_inv]:
  "mux_inv k t (s, h) \<Longrightarrow> callbacks s = Suc n \<Longrightarrow> mux_inv k t (flush (s\<lparr>callbacks := n\<rparr>), h)"
  by (auto simp: mux_inv_def flush_def write_to_def Let_def)

lemma received_inv [step_inv]:
  assumes "mux_inv k t (s, h)" and "data_received d data s = (None, s')"
  shows "mux_inv k t (s', h)"
proof -
  have "reader s \<noteq> None" using assms(1) by (simp add: mux_inv_def)
  from data_received_frame [OF assms(2) this] obtain n where
    frame: "transport s' = transport s" "loop s' = loop s" "reader s' \<noteq> None" "written s' = written s"
      "wbuf s' = wbuf s" "flush_scheduled s' = flush_scheduled s" "callbacks s' = callbacks s"
      "next_fut s' = next_fut s" "waiters s' = drop n (waiters s)"
      "\<And>f. futs s' f = Pending \<Longrightarrow> futs s f = Pending \<and> (f \<in> set (waiters s) \<longrightarrow> f \<in> set (waiters s'))"
    by blast
  then have "set (waiters s') \<subseteq> set (waiters s)" by (simp add: set_drop_subset)
  with frame assms(1) show ?thesis by (auto simp: mux_inv_def)
qed

lemma cancel_inv [step_inv]: "mux_inv k t (s, h) \<Longrightarrow> mux_inv k t (cancel f s, h)"
  by (auto simp: mux_inv_def cancel_def)

lemma established_inv:
  assumes "written s0 t = []" and "s = connect_established t s0" and "next_fut s0 = k"
  shows "mux_inv k t (s, written s t)"
  using assms
  by (auto simp: mux_inv_def connect_established_def execute_connected_def send_def write_to_def Let_def
      split: sum.splits)

interpretation mux_ts: transition_system "mux_start k t" "mux_step d" "mux_inv k t" for k t d
proof
  fix p :: "mux \<times> bytes"
  assume "mux_start k t p"
  then show "mux_inv k t p" by (cases p) (auto simp: mux_start_def intro: established_inv)
next
  fix p q :: "mux \<times> bytes" and e
  assume "mux_inv k t p" and "mux_step d p e q"
  then show "mux_inv k t q" by (auto elim!: mux_stepE intro: step_inv)
qed

fun sent_bytes :: "mux_event list \<Rightarrow> bytes" where
  "sent_bytes [] = []"
| "sent_bytes (Sent w # es) = w @ sent_bytes es"
| "sent_bytes (_ # es) = sent_bytes es"

lemma run_history: "run (mux_step d) p es q \<Longrightarrow> snd q = snd p @ sent_bytes es"
  by (induction rule: run.induct) (auto elim!: mux_stepE)

text \<open>
  C3. Coalescing never loses or reorders a command: on a live connection, at every moment, the bytes
  already written to the socket followed by the bytes still buffered are the connection's first
  bytes followed by the commands in the order they were sent, and while anything is buffered a
  \<open>_flush\<close> callback is queued which will write it.
\<close>

theorem mux_writes_commands_in_order:
  assumes "mux_start k t (s0, h0)" and "run (mux_step d) (s0, h0) es (s, h)"
  shows "written s t @ wbuf s = written s0 t @ sent_bytes es
    \<and> (wbuf s \<noteq> [] \<longrightarrow> (\<exists>n. callbacks s = Suc n
         \<and> written (flush (s\<lparr>callbacks := n\<rparr>)) t = written s0 t @ sent_bytes es))"
proof -
  have inv: "mux_inv k t (s, h)" using assms by (rule mux_ts.reachable_inv)
  have h: "h = written s0 t @ sent_bytes es"
    using run_history [OF assms(2)] assms(1) by (auto simp: mux_start_def)
  have "\<exists>n. callbacks s = Suc n" if "wbuf s \<noteq> []"
    using inv that by (auto simp: mux_inv_def gr0_conv_Suc)
  with inv h show ?thesis
    by (auto simp: mux_inv_def flush_def write_to_def Let_def)
qed

theorem mux_writes_commands_in_order_witness:
  "\<exists>s h. run (mux_step 1) (connect_established 0 (mux_init 0), []) [Sent ''a'', Sent ''b'', Sent ''c'', Flushed] (s, h)
     \<and> written s 0 @ wbuf s = ''abc''"
proof -
  let ?s0 = "connect_established 0 (mux_init 0)"
  have start: "mux_start 0 0 (?s0, [])"
    by (auto simp: mux_start_def mux_init_def connect_established_def intro!: exI [of _ "mux_init 0"])
  have "\<exists>s h. run (mux_step 1) (?s0, []) [Sent ''a'', Sent ''b'', Sent ''c'', Flushed] (s, h)"
    by (intro exI, (rule run.intros mux_step.intros | simp add: send_def connect_established_def mux_init_def write_to_def)+)
  then obtain s h where r: "run (mux_step 1) (?s0, []) [Sent ''a'', Sent ''b'', Sent ''c'', Flushed] (s, h)"
    by (elim exE) (erule that)
  have "written ?s0 0 = []" by (simp add: connect_established_def mux_init_def)
  with mux_writes_commands_in_order [OF start r] have "written s 0 @ wbuf s = ''abc''" by simp
  with r show ?thesis by (intro exI conjI)
qed

section \<open>Dialling and losing the connection\<close>

text \<open>
  The connection tasks of one mux: the number in the state counts the tasks between their dial and
  their \<open>finally\<close> clause.
\<close>

datatype conn_event = Entered | Dialled nat | Finished | Lost | Closed

inductive conn_step :: "mux \<times> nat \<Rightarrow> conn_event \<Rightarrow> mux \<times> nat \<Rightarrow> bool" where
  dial: "connect_enter s = (ConnDial, s') \<Longrightarrow> conn_step (s, n) Entered (s', Suc n)"
| no_dial: "connect_enter s = (r, s') \<Longrightarrow> r \<noteq> ConnDial \<Longrightarrow> conn_step (s, n) Entered (s', n)"
| dialled: "conn_step (s, Suc n) (Dialled t) (connect_established t s, Suc n)"
| finished: "conn_step (s, Suc n) Finished (connect_finally s, n)"
| lost: "conn_step (s, n) Lost (on_connection_lost s, n)"
| closed: "conn_step (s, n) Closed (close s, n)"

inductive_cases conn_stepE: "conn_step p e q"

definition conn_inv :: "mux \<times> nat \<Rightarrow> bool" where
  "conn_inv p \<longleftrightarrow> snd p = (if connecting (fst p) then 1 else 0)"

lemma connecting_send [simp]: "connecting (snd (send w s)) = connecting s"
  by (simp add: send_def write_to_def Let_def split: option.splits)

lemma connecting_established [simp]: "connecting (connect_established t s) = connecting s"
  by (simp add: connect_established_def execute_connected_def Let_def split: sum.splits)

lemma connecting_others [simp]:
  "connecting (on_connection_lost s) = connecting s" "connecting (close s) = connecting s"
  by (simp_all add: on_connection_lost_def close_def Let_def split: option.splits)

interpretation conn_ts: transition_system "\<lambda>p. \<exists>n. p = (mux_init n, 0)" conn_step conn_inv
proof
  fix p :: "mux \<times> nat"
  assume "\<exists>n. p = (mux_init n, 0)"
  then show "conn_inv p" by (auto simp: conn_inv_def mux_init_def)
next
  fix p q e
  assume "conn_inv p" and "conn_step p e q"
  then show "conn_inv q"
    by (auto elim!: conn_stepE simp: conn_inv_def connect_enter_def connect_finally_def split: if_splits)
qed

text \<open>
  C8. Racing callers collapse onto one dial: in every reachable state of the connection tasks at most
  one task is dialling, while it is no other caller starts a second dial, and a closed mux without
  a usable transport refuses with \<open>ConnectionError\<close> instead of dialling.
\<close>

theorem mux_single_dial:
  assumes "run conn_step (mux_init n, 0) es (s, k)"
  shows "k \<le> 1 \<and> (0 < k \<longrightarrow> fst (connect_enter s) \<noteq> ConnDial)
    \<and> (closed s \<and> \<not> usable s \<longrightarrow> connect_enter s = (ConnRaise (ConnectionError ''RedisMux is closed''), s))"
proof -
  have "conn_inv (s, k)" using conn_ts.reachable_inv [OF _ assms] by blast
  then show ?thesis by (auto simp: conn_inv_def connect_enter_def split: if_splits)
qed

theorem mux_single_dial_witness:
  "run conn_step (mux_init 0, 0) [Entered, Entered] ((mux_init 0)\<lparr>connecting := True\<rparr>, 1)
   \<and> fst (connect_enter ((mux_init 0)\<lparr>connecting := True\<rparr>)) = ConnWait"
proof -
  have "connect_enter (mux_init 0) = (ConnDial, (mux_init 0)\<lparr>connecting := True\<rparr>)"
    and busy: "connect_enter ((mux_init 0)\<lparr>connecting := True\<rparr>) = (ConnWait, (mux_init 0)\<lparr>connecting := True\<rparr>)"
    by (simp_all add: connect_enter_def usable_def mux_init_def)
  then have r: "run conn_step (mux_init 0, 0) [Entered, Entered] ((mux_init 0)\<lparr>connecting := True\<rparr>, 1)"
    by (auto intro!: run.intros conn_step.intros)
  from mux_single_dial [OF r] busy r show ?thesis by simp
qed



text \<open>
  Two places where the connection state is shared between connections.  The \<open>connection_lost\<close>
  callback does not say which transport it is about, so the late callback of a superseded transport
  disconnects the live one and fails its commands; and establishing a connection empties the queue
  of the previous one without settling the futures in it, which then stay pending.
\<close>

lemma late_connection_lost_hits_live_connection:
  assumes "usable s" and "f \<in> set (waiters s)" and "futs s f = Pending"
  shows "\<not> usable (on_connection_lost s)" and "futs (on_connection_lost s) f = ConnLost"
  using assms by (simp_all add: on_connection_lost_def usable_def)

lemma reconnect_abandons_waiters:
  assumes "f \<in> set (waiters s)" and "futs s f = Pending" and "db s = 0"
  shows "futs (connect_established t s) f = Pending" and "f \<notin> set (waiters (connect_established t s))"
  using assms by (simp_all add: connect_established_def)

end
