(* ===== verification/Lifecycle.thy ===== *)
theory Lifecycle
  imports Turbo_Prelude "HOL-Library.Multiset"
begin

text \<open>
  The application life cycle of \<^verbatim>\<open>applications.py\<close>: collection of the startup, shutdown and lifespan
  callbacks over the router tree, the \<open>_startup_state\<close> machine, entering and leaving lifespans,
  the ASGI lifespan loop, the in-process installation of the documentation routes and the
  process-level entry point.  The callbacks are user code: they are named by \<open>'h\<close> (handlers) and
  \<open>'l\<close> (lifespan callables), their behaviour is the record \<open>user\<close>, whose fields may depend on
  everything user code did before (the log), and the model records each call of user code in that
  log.  No worker timeout is configured, so \<open>submit\<close> returns what its coroutine returns.
\<close>

section \<open>State\<close>

type_synonym 'v dict = "string \<rightharpoonup> 'v"

datatype ('h, 'l) router = Router
  (r_on_startup: "'h list") (r_on_shutdown: "'h list") (r_lifespan: "'l option")
  (r_included: "('h, 'l) router list")

datatype ('h, 'l) ev = Ran 'h | Called 'l | Entered 'l | Exited 'l

datatype startup_state = Not_started | Running | Started | Failed

text \<open>What the object returned by a lifespan callable is, in the order \<open>_wrap\<close> tests it.\<close>

datatype cm_kind = Has_aenter | Async_gen | Sync_gen | Has_enter | Plain

datatype cm_phase = Fresh | Suspended | Finished

datatype 'l cm = Cm (cm_wrap: cm_kind) (cm_src: 'l) (cm_phase: cm_phase)

datatype 'v gen_step = Yields "'v dict" | Stops | Raises py_exn

record ('h, 'l, 'v) user =
  handler_raises :: "('h, 'l) ev list \<Rightarrow> 'h \<Rightarrow> py_exn option"
  call_raises :: "('h, 'l) ev list \<Rightarrow> 'l \<Rightarrow> py_exn option"
  cm_kind_of :: "'l \<Rightarrow> cm_kind"
  cm_enter :: "('h, 'l) ev list \<Rightarrow> 'l \<Rightarrow> 'v dict py"
  cm_exit :: "('h, 'l) ev list \<Rightarrow> 'l \<Rightarrow> py_exn option"
  gen_next :: "('h, 'l) ev list \<Rightarrow> 'l \<Rightarrow> 'v gen_step"
  exn_repr :: "py_exn option \<Rightarrow> string"

text \<open>A route of the root router, as far as the installer looks at it.\<close>

record route =
  rt_path :: string
  rt_name :: string
  rt_dynamic :: bool

datatype exit_callback = Lifespan_shutdown | Shutdown_handlers | Stop_mw_chain

record ('h, 'l, 'v) app =
  on_startup :: "'h list"
  on_shutdown :: "'h list"
  lifespan :: "'l option"
  router :: "('h, 'l) router"
  included_routers :: "('h, 'l) router list"
  startup_state :: startup_state
  startup_failure :: "py_exn option"
  lifespan_cms :: "'l cm list option"
  app_state :: "'v dict"
  state_attrs :: "'v dict"
  dynamic_installed :: bool
  routes :: "route list"
  openapi_url :: "string option"
  docs_url :: "string option"
  redoc_url :: "string option"
  oauth2_redirect_url :: "string option"
  exit_callbacks :: "exit_callback list"
  log :: "('h, 'l) ev list"

section \<open>Collecting the callbacks\<close>

fun walk_startup :: "('h, 'l) router \<Rightarrow> 'h list" where
  "walk_startup (Router su sd lf inc) = su @ concat (map walk_startup inc)"

definition collect_startup_handlers :: "('h, 'l, 'v) app \<Rightarrow> 'h list" where
  "collect_startup_handlers a =
     on_startup a @ walk_startup (router a) @ concat (map walk_startup (included_routers a))"

fun walk_shutdown :: "('h, 'l) router \<Rightarrow> 'h list" where
  "walk_shutdown (Router su sd lf inc) = concat (map walk_shutdown inc) @ sd"

definition collect_shutdown_handlers :: "('h, 'l, 'v) app \<Rightarrow> 'h list" where
  "collect_shutdown_handlers a =
     concat (map walk_shutdown (included_routers a)) @ walk_shutdown (router a) @ on_shutdown a"

fun walk_lifespans :: "('h, 'l) router \<Rightarrow> 'l list" where
  "walk_lifespans (Router su sd lf inc) =
     (case lf of None \<Rightarrow> [] | Some l \<Rightarrow> [l]) @ concat (map walk_lifespans inc)"

definition collect_lifespans :: "('h, 'l, 'v) app \<Rightarrow> 'l list" where
  "collect_lifespans a =
     concat (map walk_lifespans (r_included (router a)))
     @ concat (map walk_lifespans (included_routers a))
     @ (case lifespan a of None \<Rightarrow> [] | Some l \<Rightarrow> [l])"

section \<open>Startup and shutdown handlers\<close>

fun run_handlers :: "('h, 'l, 'v) user \<Rightarrow> 'h list \<Rightarrow> ('h, 'l) ev list \<Rightarrow> py_exn option \<times> ('h, 'l) ev list" where
  "run_handlers u [] l = (None, l)"
| "run_handlers u (h # hs) l =
     (case handler_raises u l h of
        Some e \<Rightarrow> (Some e, l @ [Ran h])
      | None \<Rightarrow> run_handlers u hs (l @ [Ran h]))"

definition failed_message :: string where
  "failed_message = ''fastapi-turbo: startup handler raised earlier; the app is in a failed state and cannot serve traffic. Re-create the app instance to retry. Original error: ''"

definition reentrant_error :: py_exn where
  "reentrant_error = RuntimeError ''fastapi-turbo: re-entrant call to startup handlers; a startup hook is invoking another startup-running code path. This is a bug in the user's startup chain.''"

definition run_startup_handlers :: "('h, 'l, 'v) user \<Rightarrow> ('h, 'l, 'v) app \<Rightarrow> py_exn option \<times> ('h, 'l, 'v) app" where
  "run_startup_handlers u a =
     (case startup_state a of
        Started \<Rightarrow> (None, a)
      | Failed \<Rightarrow> (Some (RuntimeError (failed_message @ exn_repr u (startup_failure a))), a)
      | Running \<Rightarrow> (Some reentrant_error, a)
      | Not_started \<Rightarrow>
          (let a1 = a\<lparr>startup_state := Running\<rparr>
           in case run_handlers u (collect_startup_handlers a1) (log a1) of
                (Some e, l) \<Rightarrow> (Some e, a1\<lparr>startup_state := Failed, startup_failure := Some e, log := l\<rparr>)
              | (None, l) \<Rightarrow> (None, a1\<lparr>startup_state := Started, log := l\<rparr>)))"

definition run_shutdown_handlers :: "('h, 'l, 'v) user \<Rightarrow> ('h, 'l, 'v) app \<Rightarrow> py_exn option \<times> ('h, 'l, 'v) app" where
  "run_shutdown_handlers u a =
     (case run_handlers u (collect_shutdown_handlers a) (log a) of
        (Some e, l) \<Rightarrow> (Some e, a\<lparr>log := l\<rparr>)
      | (None, l) \<Rightarrow> (None, a\<lparr>log := l, startup_state := Not_started, startup_failure := None,
                             dynamic_installed := False\<rparr>))"

section \<open>Lifespans\<close>

text \<open>
  \<open>_wrap\<close> turns the object returned by a lifespan callable into an async context manager.  The
  opening and the closing half of the result are the code before and after its \<open>yield\<close>; a
  generator that ends before its first \<open>yield\<close> raises \<open>StopIteration\<close> inside the wrapper, which the
  interpreter turns into a \<open>RuntimeError\<close>.
\<close>

definition cm_first :: "('h, 'l, 'v) user \<Rightarrow> ('h, 'l) ev list \<Rightarrow> 'l cm \<Rightarrow> 'v dict py" where
  "cm_first u l c =
     (case cm_wrap c of
        Has_aenter \<Rightarrow> cm_enter u l (cm_src c)
      | Async_gen \<Rightarrow> (case gen_next u l (cm_src c) of Yields d \<Rightarrow> Inr d | Raises e \<Rightarrow> Inl e
                        | Stops \<Rightarrow> Inl (RuntimeError ''async generator raised StopAsyncIteration''))
      | Sync_gen \<Rightarrow> (case gen_next u l (cm_src c) of Yields d \<Rightarrow> Inr d | Raises e \<Rightarrow> Inl e
                        | Stops \<Rightarrow> Inl (RuntimeError ''async generator raised StopIteration''))
      | Has_enter \<Rightarrow> cm_enter u l (cm_src c)
      | Plain \<Rightarrow> Inl AttributeError)"

definition cm_second :: "('h, 'l, 'v) user \<Rightarrow> ('h, 'l) ev list \<Rightarrow> 'l cm \<Rightarrow> py_exn option" where
  "cm_second u l c =
     (case cm_wrap c of
        Has_aenter \<Rightarrow> cm_exit u l (cm_src c)
      | Async_gen \<Rightarrow> (case gen_next u l (cm_src c) of Raises e \<Rightarrow> Some e | _ \<Rightarrow> None)
      | Sync_gen \<Rightarrow> (case gen_next u l (cm_src c) of Raises e \<Rightarrow> Some e | _ \<Rightarrow> None)
      | Has_enter \<Rightarrow> cm_exit u l (cm_src c)
      | Plain \<Rightarrow> Some AttributeError)"

definition enter_events :: "'l cm \<Rightarrow> ('h, 'l) ev list" where
  "enter_events c = (if cm_wrap c = Plain then [] else [Entered (cm_src c)])"

definition exit_events :: "'l cm \<Rightarrow> ('h, 'l) ev list" where
  "exit_events c = (if cm_wrap c = Plain then [] else [Exited (cm_src c)])"

fun wrap_all :: "('h, 'l, 'v) user \<Rightarrow> 'l list \<Rightarrow> ('h, 'l) ev list \<Rightarrow> 'l cm list py \<times> ('h, 'l) ev list" where
  "wrap_all u [] l = (Inr [], l)"
| "wrap_all u (lf # lfs) l =
     (case call_raises u l lf of
        Some e \<Rightarrow> (Inl e, l @ [Called lf])
      | None \<Rightarrow> (case wrap_all u lfs (l @ [Called lf]) of
                   (Inl e, l') \<Rightarrow> (Inl e, l')
                 | (Inr cms, l') \<Rightarrow> (Inr (Cm (cm_kind_of u lf) lf Fresh # cms), l')))"

text \<open>The loop of \<open>_enter_all\<close>; the second component is the list of managers as it leaves them.\<close>

fun enter_all :: "('h, 'l, 'v) user \<Rightarrow> 'l cm list \<Rightarrow> 'v dict \<Rightarrow> ('h, 'l) ev list
    \<Rightarrow> 'v dict py \<times> 'l cm list \<times> ('h, 'l) ev list" where
  "enter_all u [] merged l = (Inr merged, [], l)"
| "enter_all u (c # cs) merged l =
     (case cm_first u l c of
        Inl e \<Rightarrow> (Inl e, Cm (cm_wrap c) (cm_src c) Finished # cs, l @ enter_events c)
      | Inr d \<Rightarrow> (case enter_all u cs (merged ++ d) (l @ enter_events c) of
                   (r, cs', l') \<Rightarrow> (r, Cm (cm_wrap c) (cm_src c) Suspended # cs', l')))"

definition run_lifespan_startup :: "('h, 'l, 'v) user \<Rightarrow> ('h, 'l, 'v) app \<Rightarrow> py_exn option \<times> ('h, 'l, 'v) app" where
  "run_lifespan_startup u a =
     (if lifespan_cms a \<noteq> None \<and> lifespan_cms a \<noteq> Some [] then (None, a)
      else if collect_lifespans a = [] then (None, a)
      else case wrap_all u (collect_lifespans a) (log a) of
             (Inl e, l) \<Rightarrow> (Some e, a\<lparr>log := l\<rparr>)
           | (Inr cms, l) \<Rightarrow>
               (case enter_all u cms Map.empty l of
                  (Inl e, cms', l') \<Rightarrow> (Some e, a\<lparr>lifespan_cms := Some cms', log := l'\<rparr>)
                | (Inr merged, cms', l') \<Rightarrow>
                    (None, a\<lparr>lifespan_cms := Some cms', app_state := merged,
                             state_attrs := state_attrs a ++ merged, log := l'\<rparr>)))"

text \<open>
  \<open>__aexit__(None, None, None)\<close>.  A manager made by \<open>@asynccontextmanager\<close> advances its generator by
  one step: suspended at its \<open>yield\<close> it runs the closing half, finished it has nothing to do, and
  never entered it runs the opening half and complains that the generator did not stop.
\<close>

definition aexit :: "('h, 'l, 'v) user \<Rightarrow> ('h, 'l) ev list \<Rightarrow> 'l cm \<Rightarrow> py_exn option \<times> ('h, 'l) ev list" where
  "aexit u l c =
     (if cm_wrap c \<in> {Has_aenter, Plain} then (cm_second u l c, l @ exit_events c)
      else case cm_phase c of
             Suspended \<Rightarrow> (cm_second u l c, l @ exit_events c)
           | Finished \<Rightarrow> (None, l)
           | Fresh \<Rightarrow> (case cm_first u l c of Inl e \<Rightarrow> Some e
                         | Inr _ \<Rightarrow> Some (RuntimeError ''generator didn't stop''), l @ enter_events c))"

fun exit_all :: "('h, 'l, 'v) user \<Rightarrow> 'l cm list \<Rightarrow> py_exn list \<Rightarrow> ('h, 'l) ev list
    \<Rightarrow> py_exn list \<times> ('h, 'l) ev list" where
  "exit_all u [] first_exc l = (first_exc, l)"
| "exit_all u (c # cs) first_exc l =
     (case aexit u l c of
        (None, l') \<Rightarrow> exit_all u cs first_exc l'
      | (Some e, l') \<Rightarrow> exit_all u cs (if first_exc = [] then [e] else first_exc) l')"

definition run_lifespan_shutdown :: "('h, 'l, 'v) user \<Rightarrow> ('h, 'l, 'v) app \<Rightarrow> py_exn option \<times> ('h, 'l, 'v) app" where
  "run_lifespan_shutdown u a =
     (case lifespan_cms a of
        None \<Rightarrow> (None, a)
      | Some [] \<Rightarrow> (None, a)
      | Some cms \<Rightarrow>
          (case exit_all u (rev cms) [] (log a) of
             (first_exc, l) \<Rightarrow>
               (case first_exc of [] \<Rightarrow> None | e # _ \<Rightarrow> Some e, a\<lparr>lifespan_cms := None, log := l\<rparr>)))"

section \<open>The coroutine variants\<close>

definition async_run_startup_handlers :: "('h, 'l, 'v) user \<Rightarrow> ('h, 'l, 'v) app \<Rightarrow> py_exn option \<times> ('h, 'l, 'v) app" where
  "async_run_startup_handlers u a =
     (if startup_state a = Started then (None, a)
      else if startup_state a = Failed
      then (Some (RuntimeError (failed_message @ exn_repr u (startup_failure a))), a)
      else if startup_state a = Running then (Some reentrant_error, a)
      else let a1 = a\<lparr>startup_state := Running\<rparr>; (r, l) = run_handlers u (collect_startup_handlers a1) (log a1)
           in case r of
                Some e \<Rightarrow> (Some e, a1\<lparr>log := l, startup_state := Failed, startup_failure := Some e\<rparr>)
              | None \<Rightarrow> (None, a1\<lparr>log := l, startup_state := Started\<rparr>))"

definition async_run_shutdown_handlers :: "('h, 'l, 'v) user \<Rightarrow> ('h, 'l, 'v) app \<Rightarrow> py_exn option \<times> ('h, 'l, 'v) app" where
  "async_run_shutdown_handlers u a =
     (let (r, l) = run_handlers u (collect_shutdown_handlers a) (log a)
      in if r \<noteq> None then (r, a\<lparr>log := l\<rparr>)
         else (None, a\<lparr>log := l, startup_state := Not_started, startup_failure := None,
                       dynamic_installed := False\<rparr>))"

definition async_run_lifespan_startup :: "('h, 'l, 'v) user \<Rightarrow> ('h, 'l, 'v) app \<Rightarrow> py_exn option \<times> ('h, 'l, 'v) app" where
  "async_run_lifespan_startup u a =
     (if lifespan_cms a \<notin> {None, Some []} \<or> collect_lifespans a = [] then (None, a)
      else let (w, l) = wrap_all u (collect_lifespans a) (log a)
           in case w of
                Inl e \<Rightarrow> (Some e, a\<lparr>log := l\<rparr>)
              | Inr cms \<Rightarrow>
                  (let (r, cms', l') = enter_all u cms Map.empty l; a1 = a\<lparr>lifespan_cms := Some cms', log := l'\<rparr>
                   in case r of
                        Inl e \<Rightarrow> (Some e, a1)
                      | Inr merged \<Rightarrow>
                          (None, a1\<lparr>app_state := merged, state_attrs := state_attrs a1 ++ merged\<rparr>)))"

fun async_exit_loop :: "('h, 'l, 'v) user \<Rightarrow> 'l cm list \<Rightarrow> py_exn option \<Rightarrow> ('h, 'l) ev list
    \<Rightarrow> py_exn option \<times> ('h, 'l) ev list" where
  "async_exit_loop u [] first_exc l = (first_exc, l)"
| "async_exit_loop u (c # cs) first_exc l =
     (let (r, l') = aexit u l c
      in async_exit_loop u cs (if r \<noteq> None \<and> first_exc = None then r else first_exc) l')"

definition async_run_lifespan_shutdown :: "('h, 'l, 'v) user \<Rightarrow> ('h, 'l, 'v) app \<Rightarrow> py_exn option \<times> ('h, 'l, 'v) app" where
  "async_run_lifespan_shutdown u a =
     (case lifespan_cms a of
        None \<Rightarrow> (None, a)
      | Some cms \<Rightarrow>
          (if cms = [] then (None, a)
           else let (first_exc, l) = async_exit_loop u (rev cms) None (log a)
                in (first_exc, a\<lparr>lifespan_cms := None, log := l\<rparr>)))"

section \<open>The ASGI lifespan protocol\<close>

datatype lifespan_msg = Lifespan_startup_msg | Lifespan_shutdown_msg | Other_msg

datatype lifespan_reply =
  Startup_complete | Startup_failed py_exn | Shutdown_complete | Shutdown_failed py_exn | Startup_unexpected

definition reset_startup :: "('h, 'l, 'v) app \<Rightarrow> ('h, 'l, 'v) app" where
  "reset_startup a = a\<lparr>startup_state := Not_started, startup_failure := None, dynamic_installed := False\<rparr>"

definition asgi_startup :: "('h, 'l, 'v) user \<Rightarrow> bool \<Rightarrow> ('h, 'l, 'v) app \<Rightarrow> py_exn option \<times> ('h, 'l, 'v) app" where
  "asgi_startup u door a =
     (if door then
        (case (if collect_lifespans a \<noteq> [] then run_lifespan_startup u a else (None, a)) of
           (Some e, a1) \<Rightarrow> (Some e, a1)
         | (None, a1) \<Rightarrow> run_startup_handlers u a1)
      else
        (case (if collect_lifespans a \<noteq> [] then async_run_lifespan_startup u a else (None, a)) of
           (Some e, a1) \<Rightarrow> (Some e, a1)
         | (None, a1) \<Rightarrow> async_run_startup_handlers u a1))"

definition asgi_shutdown :: "('h, 'l, 'v) user \<Rightarrow> bool \<Rightarrow> ('h, 'l, 'v) app \<Rightarrow> py_exn option \<times> ('h, 'l, 'v) app" where
  "asgi_shutdown u door a =
     (if door then
        (case (if lifespan_cms a \<notin> {None, Some []} then run_lifespan_shutdown u a else (None, a)) of
           (Some e, a1) \<Rightarrow> (Some e, a1)
         | (None, a1) \<Rightarrow> run_shutdown_handlers u a1)
      else
        (case (if lifespan_cms a \<notin> {None, Some []} then async_run_lifespan_shutdown u a else (None, a)) of
           (Some e, a1) \<Rightarrow> (Some e, a1)
         | (None, a1) \<Rightarrow> async_run_shutdown_handlers u a1))"

text \<open>
  The loop of \<open>_asgi_lifespan\<close> over the messages \<open>receive\<close> delivers.  The result is the messages
  sent, whether the coroutine returned (otherwise it is waiting for the next message), and the
  application.
\<close>

fun asgi_lifespan :: "('h, 'l, 'v) user \<Rightarrow> bool \<Rightarrow> lifespan_msg list \<Rightarrow> ('h, 'l, 'v) app
    \<Rightarrow> lifespan_reply list \<times> bool \<times> ('h, 'l, 'v) app" where
  "asgi_lifespan u door [] a = ([], False, a)"
| "asgi_lifespan u door (Lifespan_startup_msg # ms) a =
     (case asgi_startup u door a of
        (None, a1) \<Rightarrow> (case asgi_lifespan u door ms a1 of (out, r) \<Rightarrow> (Startup_complete # out, r))
      | (Some e, a1) \<Rightarrow> ([Startup_failed e], True, a1))"
| "asgi_lifespan u door (Lifespan_shutdown_msg # ms) a =
     (case asgi_shutdown u door a of
        (None, a1) \<Rightarrow> ([Shutdown_complete], True, a1)
      | (Some e, a1) \<Rightarrow> ([Shutdown_failed e], True, reset_startup a1))"
| "asgi_lifespan u door (Other_msg # ms) a = asgi_lifespan u door ms a"

text \<open>
  \<open>_inner_app\<close>, the innermost application of the lifespan chain built when raw ASGI middleware is
  registered; the third component of the result is the exception that leaves the coroutine.
\<close>

definition inner_shutdown :: "('h, 'l, 'v) user \<Rightarrow> ('h, 'l, 'v) app
    \<Rightarrow> lifespan_reply list \<times> bool \<times> py_exn option \<times> ('h, 'l, 'v) app" where
  "inner_shutdown u a =
     (case async_run_shutdown_handlers u a of
        (Some e, a1) \<Rightarrow> ([Shutdown_failed e], True, Some e, a1)
      | (None, a1) \<Rightarrow>
          (case async_run_lifespan_shutdown u a1 of
             (Some e, a2) \<Rightarrow> ([Shutdown_failed e], True, Some e, a2)
           | (None, a2) \<Rightarrow> ([Shutdown_complete], True, None, a2)))"

definition inner_app :: "('h, 'l, 'v) user \<Rightarrow> lifespan_msg list \<Rightarrow> ('h, 'l, 'v) app
    \<Rightarrow> lifespan_reply list \<times> bool \<times> py_exn option \<times> ('h, 'l, 'v) app" where
  "inner_app u ms a =
     (case ms of
        [] \<Rightarrow> ([], False, None, a)
      | m # ms' \<Rightarrow>
          if m \<noteq> Lifespan_startup_msg then ([Startup_unexpected], True, None, a)
          else case async_run_lifespan_startup u a of
                 (Some e, a1) \<Rightarrow> ([Startup_failed e], True, Some e, a1)
               | (None, a1) \<Rightarrow>
                   (case async_run_startup_handlers u a1 of
                      (Some e, a2) \<Rightarrow> ([Startup_failed e], True, Some e, a2)
                    | (None, a2) \<Rightarrow>
                        (case ms' of
                           [] \<Rightarrow> ([Startup_complete], False, None, a2)
                         | m' # _ \<Rightarrow>
                             if m' \<noteq> Lifespan_shutdown_msg then ([Startup_complete], True, None, a2)
                             else case inner_shutdown u a2 of (out, r) \<Rightarrow> (Startup_complete # out, r))))"

section \<open>Documentation routes and requests\<close>

text \<open>
  The helpers of the module \<^verbatim>\<open>fastapi.openapi.docs\<close> that the installer looks up: each flag says that
  the module imports and has the helper.
\<close>

record docs_module =
  has_swagger :: bool
  has_redoc :: bool
  has_oauth2_redirect :: bool

definition is_prior_dynamic :: "string \<Rightarrow> string \<Rightarrow> route \<Rightarrow> bool" where
  "is_prior_dynamic ep_name path_val r \<longleftrightarrow> rt_dynamic r \<and> rt_name r = ep_name \<and> rt_path r = path_val"

definition put_dynamic :: "string \<Rightarrow> string \<Rightarrow> route list \<Rightarrow> route list" where
  "put_dynamic ep_name path_val rs =
     \<lparr>rt_path = path_val, rt_name = ep_name, rt_dynamic = True\<rparr>
     # filter (\<lambda>r. \<not> is_prior_dynamic ep_name path_val r) rs"

definition install_docs :: "docs_module \<Rightarrow> ('h, 'l, 'v) app \<Rightarrow> route list" where
  "install_docs d a =
     (case openapi_url a of
        None \<Rightarrow> routes a
      | Some [] \<Rightarrow> routes a
      | Some url \<Rightarrow>
          (let rs1 = put_dynamic ''openapi'' url (routes a);
               rs2 = (case docs_url a of
                        Some p \<Rightarrow> if has_swagger d then put_dynamic ''swagger_ui'' p rs1 else rs1
                      | None \<Rightarrow> rs1);
               rs3 = (case redoc_url a of
                        Some p \<Rightarrow> if has_redoc d then put_dynamic ''redoc'' p rs2 else rs2
                      | None \<Rightarrow> rs2)
           in case oauth2_redirect_url a of
                Some p \<Rightarrow> if docs_url a \<noteq> None \<and> has_oauth2_redirect d
                          then put_dynamic ''swagger_ui_redirect'' p rs3 else rs3
              | None \<Rightarrow> rs3))"

definition install_in_process_dynamic_routes ::
    "('h, 'l, 'v) user \<Rightarrow> docs_module \<Rightarrow> ('h, 'l, 'v) app \<Rightarrow> py_exn option \<times> ('h, 'l, 'v) app" where
  "install_in_process_dynamic_routes u d a =
     (if dynamic_installed a then (None, a)
      else case (if collect_lifespans a \<noteq> []
                 then case run_lifespan_startup u a of
                        (Some e, a1) \<Rightarrow> (Some e, a1)
                      | (None, a1) \<Rightarrow> (None, a1\<lparr>exit_callbacks := exit_callbacks a1 @ [Lifespan_shutdown]\<rparr>)
                 else (None, a)) of
             (Some e, a1) \<Rightarrow> (Some e, a1)
           | (None, a1) \<Rightarrow>
               (case run_startup_handlers u a1 of
                  (Some e, a2) \<Rightarrow> (Some e, a2)
                | (None, a2) \<Rightarrow> (None, a2\<lparr>routes := install_docs d a2, dynamic_installed := True\<rparr>)))"

text \<open>The checks of \<open>__call__\<close> on an HTTP scope; the request is served exactly when they do not raise.\<close>

definition http_entry :: "('h, 'l, 'v) user \<Rightarrow> docs_module \<Rightarrow> ('h, 'l, 'v) app \<Rightarrow> py_exn option \<times> ('h, 'l, 'v) app" where
  "http_entry u d a =
     (case (if startup_state a = Failed then run_startup_handlers u a else (None, a)) of
        (Some e, a1) \<Rightarrow> (Some e, a1)
      | (None, a1) \<Rightarrow> if \<not> dynamic_installed a1 then install_in_process_dynamic_routes u d a1 else (None, a1))"

section \<open>Process entry point\<close>

text \<open>
  The single-process part of \<open>run\<close> up to the call of the Rust server: \<open>start_chain\<close> is the outcome
  of driving the startup message through the raw ASGI middleware, when there is any.
\<close>

definition run_single :: "('h, 'l, 'v) user \<Rightarrow> (('h, 'l, 'v) app \<Rightarrow> py_exn option \<times> ('h, 'l, 'v) app) option
    \<Rightarrow> ('h, 'l, 'v) app \<Rightarrow> py_exn option \<times> ('h, 'l, 'v) app" where
  "run_single u start_chain a =
     (case start_chain of
        Some start \<Rightarrow>
          (case start a of
             (Some e, a1) \<Rightarrow> (Some e, a1)
           | (None, a1) \<Rightarrow> (None, a1\<lparr>exit_callbacks := exit_callbacks a1 @ [Stop_mw_chain]\<rparr>))
      | None \<Rightarrow>
          (case (if collect_lifespans a \<noteq> []
                 then case run_lifespan_startup u a of
                        (Some e, a1) \<Rightarrow> (Some e, a1)
                      | (None, a1) \<Rightarrow> (None, a1\<lparr>exit_callbacks := exit_callbacks a1 @ [Lifespan_shutdown]\<rparr>)
                 else (None, a)) of
             (Some e, a1) \<Rightarrow> (Some e, a1)
           | (None, a1) \<Rightarrow>
               (case run_startup_handlers u a1 of
                  (Some e, a2) \<Rightarrow> (Some e, a2)
                | (None, a2) \<Rightarrow>
                    (None, if collect_shutdown_handlers a2 \<noteq> []
                           then a2\<lparr>exit_callbacks := exit_callbacks a2 @ [Shutdown_handlers]\<rparr> else a2))))"

definition resolve_worker_count :: "string option \<Rightarrow> nat option \<Rightarrow> bool \<Rightarrow> bool \<Rightarrow> int option \<Rightarrow> int" where
  "resolve_worker_count env cpu_count has_fork on_main workers =
     (let w1 = (case env of None \<Rightarrow> workers
                | Some s \<Rightarrow> (case py_int s of Inr n \<Rightarrow> Some n | Inl _ \<Rightarrow> workers));
          w2 = (case w1 of Some n \<Rightarrow> n
                | None \<Rightarrow> (case cpu_count of Some c \<Rightarrow> if c = 0 then 1 else int c | None \<Rightarrow> 1));
          w3 = max 1 w2
      in if w3 > 1 then (if \<not> has_fork then 1 else if \<not> on_main then 1 else w3) else w3)"

section \<open>Configuration\<close>

text \<open>The callbacks registered on an application are not changed by its life cycle.\<close>

definition same_config :: "('h, 'l, 'v) app \<Rightarrow> ('h, 'l, 'v) app \<Rightarrow> bool" where
  "same_config a b \<longleftrightarrow>
     collect_startup_handlers a = collect_startup_handlers b
     \<and> collect_shutdown_handlers a = collect_shutdown_handlers b
     \<and> collect_lifespans a = collect_lifespans b"

lemma collect_update [simp]:
  "collect_startup_handlers (a\<lparr>startup_state := s\<rparr>) = collect_startup_handlers a"
  "collect_startup_handlers (a\<lparr>startup_failure := f\<rparr>) = collect_startup_handlers a"
  "collect_startup_handlers (a\<lparr>lifespan_cms := c\<rparr>) = collect_startup_handlers a"
  "collect_startup_handlers (a\<lparr>app_state := m\<rparr>) = collect_startup_handlers a"
  "collect_startup_handlers (a\<lparr>state_attrs := m\<rparr>) = collect_startup_handlers a"
  "collect_startup_handlers (a\<lparr>dynamic_installed := b\<rparr>) = collect_startup_handlers a"
  "collect_startup_handlers (a\<lparr>routes := rs\<rparr>) = collect_startup_handlers a"
  "collect_startup_handlers (a\<lparr>exit_callbacks := x\<rparr>) = collect_startup_handlers a"
  "collect_startup_handlers (a\<lparr>log := l\<rparr>) = collect_startup_handlers a"
  "collect_shutdown_handlers (a\<lparr>startup_state := s\<rparr>) = collect_shutdown_handlers a"
  "collect_shutdown_handlers (a\<lparr>startup_failure := f\<rparr>) = collect_shutdown_handlers a"
  "collect_shutdown_handlers (a\<lparr>lifespan_cms := c\<rparr>) = collect_shutdown_handlers a"
  "collect_shutdown_handlers (a\<lparr>app_state := m\<rparr>) = collect_shutdown_handlers a"
  "collect_shutdown_handlers (a\<lparr>state_attrs := m\<rparr>) = collect_shutdown_handlers a"
  "collect_shutdown_handlers (a\<lparr>dynamic_installed := b\<rparr>) = collect_shutdown_handlers a"
  "collect_shutdown_handlers (a\<lparr>routes := rs\<rparr>) = collect_shutdown_handlers a"
  "collect_shutdown_handlers (a\<lparr>exit_callbacks := x\<rparr>) = collect_shutdown_handlers a"
  "collect_shutdown_handlers (a\<lparr>log := l\<rparr>) = collect_shutdown_handlers a"
  "collect_lifespans (a\<lparr>startup_state := s\<rparr>) = collect_lifespans a"
  "collect_lifespans (a\<lparr>startup_failure := f\<rparr>) = collect_lifespans a"
  "collect_lifespans (a\<lparr>lifespan_cms := c\<rparr>) = collect_lifespans a"
  "collect_lifespans (a\<lparr>app_state := m\<rparr>) = collect_lifespans a"
  "collect_lifespans (a\<lparr>state_attrs := m\<rparr>) = collect_lifespans a"
  "collect_lifespans (a\<lparr>dynamic_installed := b\<rparr>) = collect_lifespans a"
  "collect_lifespans (a\<lparr>routes := rs\<rparr>) = collect_lifespans a"
  "collect_lifespans (a\<lparr>exit_callbacks := x\<rparr>) = collect_lifespans a"
  "collect_lifespans (a\<lparr>log := l\<rparr>) = collect_lifespans a"
  by (simp_all add: collect_startup_handlers_def collect_shutdown_handlers_def collect_lifespans_def)

section \<open>What every registered callback gets\<close>

fun subrouters :: "('h, 'l) router \<Rightarrow> ('h, 'l) router list" where
  "subrouters (Router su sd lf inc) = Router su sd lf inc # concat (map subrouters inc)"

definition all_routers :: "('h, 'l, 'v) app \<Rightarrow> ('h, 'l) router list" where
  "all_routers a = subrouters (router a) @ concat (map subrouters (included_routers a))"

lemma concat_map_eq:
  assumes "\<And>x. x \<in> set xs \<Longrightarrow> f x = concat (map g (h x))"
  shows "concat (map f xs) = concat (map g (concat (map h xs)))"
  using assms by (induction xs) auto

lemma walk_startup_subrouters: "walk_startup r = concat (map r_on_startup (subrouters r))"
  by (induction r rule: walk_startup.induct) (simp add: concat_map_eq [of _ walk_startup r_on_startup subrouters])

lemma mset_walk_shutdown: "mset (walk_shutdown r) = mset (concat (map r_on_shutdown (subrouters r)))"
proof (induction r rule: walk_shutdown.induct)
  case (1 su sd lf inc)
  then have "mset (concat (map walk_shutdown inc)) = mset (concat (map r_on_shutdown (concat (map subrouters inc))))"
    by (induction inc) simp_all
  then show ?case by simp
qed

text \<open>
  C15. No registered handler is lost or run twice by the collection: startup is the application's
  handlers followed by those of every router of the tree in preorder, shutdown is a permutation of
  the shutdown handlers of the same routers that ends with the application's.
\<close>

theorem collected_handlers_complete:
  "collect_startup_handlers a = on_startup a @ concat (map r_on_startup (all_routers a))
   \<and> mset (collect_shutdown_handlers a) = mset (on_shutdown a) + mset (concat (map r_on_shutdown (all_routers a)))
   \<and> (\<exists>hs. collect_shutdown_handlers a = hs @ on_shutdown a)"
proof -
  have down: "mset (concat (map walk_shutdown rs)) = mset (concat (map r_on_shutdown (concat (map subrouters rs))))"
    for rs :: "('a, 'b) router list"
    by (induction rs) (simp_all add: mset_walk_shutdown)
  show ?thesis
    by (simp add: collect_startup_handlers_def collect_shutdown_handlers_def all_routers_def
        walk_startup_subrouters down mset_walk_shutdown
        concat_map_eq [of _ walk_startup r_on_startup subrouters, OF walk_startup_subrouters])
qed

section \<open>The coroutine variants agree with the blocking ones\<close>

lemma async_exit_loop_eq:
  "async_exit_loop u cs (case fe of [] \<Rightarrow> None | e # _ \<Rightarrow> Some e) l
     = (case exit_all u cs fe l of (fe', l') \<Rightarrow> (case fe' of [] \<Rightarrow> None | e # _ \<Rightarrow> Some e, l'))"
proof (induction cs arbitrary: fe l)
  case (Cons c cs)
  obtain r l' where r: "aexit u l c = (r, l')" by (cases "aexit u l c")
  show ?case
    using Cons.IH [of fe l'] Cons.IH [of "[the r]" l'] r
    by (cases r; cases fe) (simp_all split: prod.splits list.splits)
qed simp

lemma async_variants_eq:
  "async_run_startup_handlers u a = run_startup_handlers u a"
  "async_run_shutdown_handlers u a = run_shutdown_handlers u a"
  "async_run_lifespan_startup u a = run_lifespan_startup u a"
  "async_run_lifespan_shutdown u a = run_lifespan_shutdown u a"
proof -
  show "async_run_startup_handlers u a = run_startup_handlers u a"
    by (cases "startup_state a")
      (simp_all add: async_run_startup_handlers_def run_startup_handlers_def Let_def split: prod.splits option.splits)
  show "async_run_shutdown_handlers u a = run_shutdown_handlers u a"
    by (simp add: async_run_shutdown_handlers_def run_shutdown_handlers_def split: prod.splits option.splits)
  show "async_run_lifespan_startup u a = run_lifespan_startup u a"
    by (simp add: async_run_lifespan_startup_def run_lifespan_startup_def Let_def split: prod.splits sum.splits)
  show "async_run_lifespan_shutdown u a = run_lifespan_shutdown u a"
  proof (cases "lifespan_cms a")
    case (Some cms)
    have eq: "async_exit_loop u (rev cms) None (log a)
        = (case exit_all u (rev cms) [] (log a) of (fe, l) \<Rightarrow> (case fe of [] \<Rightarrow> None | e # _ \<Rightarrow> Some e, l))"
      using async_exit_loop_eq [of u "rev cms" "[]"] by simp
    obtain fe l where fe: "exit_all u (rev cms) [] (log a) = (fe, l)"
      by (cases "exit_all u (rev cms) [] (log a)")
    show ?thesis
    proof (cases "cms = []")
      case False
      then have "run_lifespan_shutdown u a
          = (case fe of [] \<Rightarrow> None | e # _ \<Rightarrow> Some e, a\<lparr>lifespan_cms := None, log := l\<rparr>)"
        using fe by (cases cms) (simp_all only: run_lifespan_shutdown_def Some option.case list.case prod.case simp_thms)
      moreover have "async_run_lifespan_shutdown u a
          = (case fe of [] \<Rightarrow> None | e # _ \<Rightarrow> Some e, a\<lparr>lifespan_cms := None, log := l\<rparr>)"
        using False fe eq
        by (simp only: async_run_lifespan_shutdown_def Some option.case Let_def prod.case if_False simp_thms)
      ultimately show ?thesis by simp
    qed (use Some in \<open>simp add: async_run_lifespan_shutdown_def run_lifespan_shutdown_def\<close>)
  qed (simp add: async_run_lifespan_shutdown_def run_lifespan_shutdown_def)
qed

lemma door_irrelevant:
  "asgi_startup u door a = asgi_startup u True a" "asgi_shutdown u door a = asgi_shutdown u True a"
  by (simp_all only: asgi_startup_def asgi_shutdown_def async_variants_eq if_cancel if_True)

section \<open>The lifespan protocol\<close>

lemma run_shutdown_ok: "run_shutdown_handlers u a = (None, a') \<Longrightarrow>
    startup_state a' = Not_started \<and> startup_failure a' = None \<and> \<not> dynamic_installed a'
    \<and> lifespan_cms a' = lifespan_cms a"
  by (auto simp: run_shutdown_handlers_def split: prod.splits option.splits)

lemma run_shutdown_cms: "run_shutdown_handlers u a = (r, a') \<Longrightarrow> lifespan_cms a' = lifespan_cms a"
  by (auto simp: run_shutdown_handlers_def split: prod.splits option.splits)

lemma run_lifespan_shutdown_cms: "run_lifespan_shutdown u a = (r, a') \<Longrightarrow> lifespan_cms a' \<in> {None, Some []}"
  by (auto simp: run_lifespan_shutdown_def split: prod.splits option.splits list.splits)

lemma asgi_shutdown_eq:
  "asgi_shutdown u door a =
     (case run_lifespan_shutdown u a of (Some e, a1) \<Rightarrow> (Some e, a1) | (None, a1) \<Rightarrow> run_shutdown_handlers u a1)"
proof -
  have "asgi_shutdown u True a =
     (case run_lifespan_shutdown u a of (Some e, a1) \<Rightarrow> (Some e, a1) | (None, a1) \<Rightarrow> run_shutdown_handlers u a1)"
    by (auto simp: asgi_shutdown_def run_lifespan_shutdown_def)
  then show ?thesis by (simp only: door_irrelevant(2) [of u door])
qed

lemma asgi_startup_eq:
  "asgi_startup u door a =
     (case run_lifespan_startup u a of (Some e, a1) \<Rightarrow> (Some e, a1) | (None, a1) \<Rightarrow> run_startup_handlers u a1)"
proof -
  have "asgi_startup u True a =
     (case run_lifespan_startup u a of (Some e, a1) \<Rightarrow> (Some e, a1) | (None, a1) \<Rightarrow> run_startup_handlers u a1)"
    by (simp add: asgi_startup_def run_lifespan_startup_def)
  then show ?thesis by (simp only: door_irrelevant(1) [of u door])
qed

lemma asgi_shutdown_cms:
  assumes "asgi_shutdown u door a = (r, a')"
  shows "lifespan_cms a' \<in> {None, Some []}"
proof -
  obtain q a1 where q: "run_lifespan_shutdown u a = (q, a1)" by (cases "run_lifespan_shutdown u a")
  with assms show ?thesis
    using run_lifespan_shutdown_cms [OF q] run_shutdown_cms [of u a1 r a']
    by (cases q) (simp_all add: asgi_shutdown_eq)
qed

lemma asgi_shutdown_ok: "asgi_shutdown u door a = (None, a') \<Longrightarrow>
    startup_state a' = Not_started \<and> startup_failure a' = None \<and> \<not> dynamic_installed a'"
  by (auto simp: asgi_shutdown_eq dest: run_shutdown_ok split: prod.splits option.splits)

definition fresh_app :: "('h, 'l, 'v) app \<Rightarrow> bool" where
  "fresh_app a \<longleftrightarrow> startup_state a = Not_started \<and> startup_failure a = None
     \<and> \<not> dynamic_installed a \<and> lifespan_cms a \<in> {None, Some []}"

text \<open>
  What the ASGI lifespan specification asks of the answers to a list of messages: startups are
  answered with \<open>startup.complete\<close> until one fails or a shutdown arrives, and one closing answer
  ends the conversation.  The last conjunct is what a reused application needs.
\<close>

definition lifespan_answers :: "lifespan_msg list \<Rightarrow> lifespan_reply list \<Rightarrow> bool \<Rightarrow> ('h, 'l, 'v) app \<Rightarrow> bool" where
  "lifespan_answers ms out returned a \<longleftrightarrow>
     (\<exists>n tail. out = replicate n Startup_complete @ tail
        \<and> n \<le> length (filter ((=) Lifespan_startup_msg) ms)
        \<and> (if returned
           then (\<exists>e. tail = [Startup_failed e] \<or> (tail = [Shutdown_complete] \<or> tail = [Shutdown_failed e]) \<and> fresh_app a)
           else tail = [] \<and> n = length (filter ((=) Lifespan_startup_msg) ms) \<and> Lifespan_shutdown_msg \<notin> set ms))"

lemma lifespan_answers_startup:
  assumes "lifespan_answers ms out returned a"
  shows "lifespan_answers (Lifespan_startup_msg # ms) (Startup_complete # out) returned a"
proof -
  from assms obtain n tail where nt: "out = replicate n Startup_complete @ tail"
      "n \<le> length (filter ((=) Lifespan_startup_msg) ms)"
      "if returned
       then (\<exists>e. tail = [Startup_failed e] \<or> (tail = [Shutdown_complete] \<or> tail = [Shutdown_failed e]) \<and> fresh_app a)
       else tail = [] \<and> n = length (filter ((=) Lifespan_startup_msg) ms) \<and> Lifespan_shutdown_msg \<notin> set ms"
    unfolding lifespan_answers_def by blast
  then show ?thesis
    unfolding lifespan_answers_def by (intro exI [of _ "Suc n"] exI [of _ tail]) simp
qed

lemma lifespan_answers_last:
  "lifespan_answers ms [Startup_failed e] True a"
  "fresh_app a \<Longrightarrow> lifespan_answers ms [Shutdown_complete] True a"
  "fresh_app a \<Longrightarrow> lifespan_answers ms [Shutdown_failed e] True a"
  by (simp_all add: lifespan_answers_def) (rule exI [of _ 0], simp)+

lemma lifespan_answers_other: "lifespan_answers ms out r a \<Longrightarrow> lifespan_answers (Other_msg # ms) out r a"
  unfolding lifespan_answers_def by (elim ex_forward) simp

lemma asgi_lifespan_door: "asgi_lifespan u door ms a = asgi_lifespan u True ms a"
proof (induction ms arbitrary: a)
  case (Cons m ms)
  then have "asgi_lifespan u door ms = asgi_lifespan u True ms" by (intro ext)
  then show ?case by (cases m) (simp_all add: door_irrelevant(1) [of u door] door_irrelevant(2) [of u door] split: prod.splits option.splits)
qed simp

lemma asgi_lifespan_answers:
  "asgi_lifespan u door ms a = (out, returned, a') \<Longrightarrow> lifespan_answers ms out returned a'"
proof (induction ms arbitrary: a out)
  case Nil
  then show ?case by (simp add: lifespan_answers_def)
next
  case (Cons m ms)
  show ?case
  proof (cases m)
    case Lifespan_startup_msg
    with Cons show ?thesis
      by (auto split: prod.splits option.splits intro: lifespan_answers_startup lifespan_answers_last)
  next
    case Lifespan_shutdown_msg
    obtain r a1 where r: "asgi_shutdown u door a = (r, a1)" by (cases "asgi_shutdown u door a")
    then have "r = None \<Longrightarrow> fresh_app a1" "fresh_app (reset_startup a1)"
      using asgi_shutdown_cms [OF r] asgi_shutdown_ok [of u door a a1]
      by (auto simp: fresh_app_def reset_startup_def)
    with r Cons.prems Lifespan_shutdown_msg show ?thesis
      by (cases r) (auto intro: lifespan_answers_last)
  next
    case Other_msg
    with Cons show ?thesis by (auto intro: lifespan_answers_other)
  qed
qed


section \<open>Entering and leaving lifespans\<close>

definition cm_of :: "('h, 'l, 'v) user \<Rightarrow> cm_phase \<Rightarrow> 'l \<Rightarrow> 'l cm" where
  "cm_of u p lf = Cm (cm_kind_of u lf) lf p"

text \<open>
  The exceptions the closing halves of a list of suspended managers raise, when each runs with the
  log of those before it, and the dictionaries their opening halves yield.
\<close>

fun exit_errors :: "('h, 'l, 'v) user \<Rightarrow> 'l list \<Rightarrow> ('h, 'l) ev list \<Rightarrow> py_exn list" where
  "exit_errors u [] l = []"
| "exit_errors u (lf # lfs) l =
     (case cm_second u l (cm_of u Suspended lf) of None \<Rightarrow> [] | Some e \<Rightarrow> [e])
     @ exit_errors u lfs (l @ [Exited lf])"

fun enter_dicts :: "('h, 'l, 'v) user \<Rightarrow> 'l list \<Rightarrow> ('h, 'l) ev list \<Rightarrow> 'v dict list py" where
  "enter_dicts u [] l = Inr []"
| "enter_dicts u (lf # lfs) l =
     (case cm_first u l (cm_of u Fresh lf) of
        Inl e \<Rightarrow> Inl e
      | Inr d \<Rightarrow> (case enter_dicts u lfs (l @ [Entered lf]) of Inl e \<Rightarrow> Inl e | Inr ds \<Rightarrow> Inr (d # ds)))"

definition no_plain :: "('h, 'l, 'v) user \<Rightarrow> 'l list \<Rightarrow> bool" where
  "no_plain u lfs \<longleftrightarrow> (\<forall>lf \<in> set lfs. cm_kind_of u lf \<noteq> Plain)"

lemma no_plain_simps [simp]:
  "no_plain u []" "no_plain u (lf # lfs) \<longleftrightarrow> cm_kind_of u lf \<noteq> Plain \<and> no_plain u lfs"
  "no_plain u (rev lfs) \<longleftrightarrow> no_plain u lfs"
  by (auto simp: no_plain_def)

lemma cm_of_sel [simp]: "cm_wrap (cm_of u p lf) = cm_kind_of u lf" "cm_src (cm_of u p lf) = lf" "cm_phase (cm_of u p lf) = p"
  by (simp_all add: cm_of_def)

lemma aexit_suspended:
  "cm_kind_of u lf \<noteq> Plain \<Longrightarrow> aexit u l (cm_of u Suspended lf) = (cm_second u l (cm_of u Suspended lf), l @ [Exited lf])"
  by (simp add: aexit_def exit_events_def)

lemma exit_all_suspended:
  "no_plain u lfs \<Longrightarrow> exit_all u (map (cm_of u Suspended) lfs) fe l
     = (if fe = [] then take 1 (exit_errors u lfs l) else fe, l @ map Exited lfs)"
proof (induction lfs arbitrary: fe l)
  case (Cons lf lfs)
  then show ?case
    by (cases "cm_second u l (cm_of u Suspended lf)") (auto simp: aexit_suspended)
qed simp

lemma wrap_all_ok:
  "fst (wrap_all u lfs l) = Inr cms \<Longrightarrow> wrap_all u lfs l = (Inr (map (cm_of u Fresh) lfs), l @ map Called lfs)"
proof (induction lfs arbitrary: l cms)
  case (Cons lf lfs)
  have call: "call_raises u l lf = None" using Cons.prems by (auto split: option.splits)
  obtain r l' where r: "wrap_all u lfs (l @ [Called lf]) = (r, l')" by (cases "wrap_all u lfs (l @ [Called lf])")
  with call Cons.prems obtain cms' where "r = Inr cms'" by (cases r) simp_all
  with Cons.IH [of "l @ [Called lf]" cms'] r call show ?case by (simp add: cm_of_def)
qed simp


lemma enter_all_fresh:
  "no_plain u lfs \<Longrightarrow> enter_dicts u lfs l = Inr ds \<Longrightarrow>
     enter_all u (map (cm_of u Fresh) lfs) m l
       = (Inr (foldl (++) m ds), map (cm_of u Suspended) lfs, l @ map Entered lfs)"
proof (induction lfs arbitrary: l m ds)
  case (Cons lf lfs)
  then obtain d ds' where "cm_first u l (cm_of u Fresh lf) = Inr d" "enter_dicts u lfs (l @ [Entered lf]) = Inr ds'"
      "ds = d # ds'"
    by (auto split: sum.splits)
  with Cons show ?case by (simp add: enter_events_def cm_of_def)
qed simp

lemma enter_all_raises:
  "no_plain u lfs \<Longrightarrow> enter_dicts u lfs l = Inl e \<Longrightarrow>
     \<exists>cs' l'. enter_all u (map (cm_of u Fresh) lfs) m l = (Inl e, cs', l')"
proof (induction lfs arbitrary: l m)
  case (Cons lf lfs)
  show ?case
  proof (cases "cm_first u l (cm_of u Fresh lf)")
    case (Inr d)
    with Cons.prems have "enter_dicts u lfs (l @ [Entered lf]) = Inl e" by (simp split: sum.splits)
    with Cons.IH [of "l @ [Entered lf]" "m ++ d"] Cons.prems(1) Inr show ?thesis
      by (auto simp: enter_events_def)
  qed (use Cons.prems in simp)
qed simp

lemma foldl_map_add_last:
  "foldl (++) m ds k = (case find (\<lambda>d. d k \<noteq> None) (rev ds) of Some d \<Rightarrow> d k | None \<Rightarrow> m k)"
  by (induction ds rule: rev_induct) (auto simp: map_add_def split: option.splits)

lemma run_lifespan_startup_ok:
  assumes "lifespan_cms a \<in> {None, Some []}" and "no_plain u (collect_lifespans a)"
    and "fst (wrap_all u (collect_lifespans a) (log a)) = Inr cms"
    and "enter_dicts u (collect_lifespans a) (log a @ map Called (collect_lifespans a)) = Inr ds"
  shows "run_lifespan_startup u a =
    (if collect_lifespans a = [] then (None, a)
     else (None, a\<lparr>lifespan_cms := Some (map (cm_of u Suspended) (collect_lifespans a)),
                   app_state := foldl (++) Map.empty ds,
                   state_attrs := state_attrs a ++ foldl (++) Map.empty ds,
                   log := log a @ map Called (collect_lifespans a) @ map Entered (collect_lifespans a)\<rparr>))"
  using assms wrap_all_ok [OF assms(3)] enter_all_fresh [OF assms(2,4)]
  by (auto simp: run_lifespan_startup_def)

lemma run_lifespan_shutdown_suspended:
  assumes "lifespan_cms a = Some (map (cm_of u Suspended) lfs)" and "no_plain u lfs" and "lfs \<noteq> []"
  shows "run_lifespan_shutdown u a =
    (case exit_errors u (rev lfs) (log a) of [] \<Rightarrow> None | e # _ \<Rightarrow> Some e,
     a\<lparr>lifespan_cms := None, log := log a @ map Exited (rev lfs)\<rparr>)"
proof -
  have "exit_all u (rev (map (cm_of u Suspended) lfs)) [] (log a)
      = (take 1 (exit_errors u (rev lfs) (log a)), log a @ map Exited (rev lfs))"
    using exit_all_suspended [of u "rev lfs" "[]" "log a"] assms(2) by (simp add: rev_map)
  with assms(1,3) show ?thesis
    by (cases lfs; cases "exit_errors u (rev lfs) (log a)") (auto simp: run_lifespan_shutdown_def simp del: rev.simps)
qed


text \<open>
  Concrete user code for the examples: the handler \<open>bad\<close> and the closing half of \<open>flaky\<close> raise,
  \<open>gen\<close> is a plain generator, and every other lifespan yields a dictionary.
\<close>

definition demo_user :: "(string, string, nat) user" where
  "demo_user = \<lparr>
     handler_raises = (\<lambda>l h. if h = ''bad'' then Some ValueError else None),
     call_raises = (\<lambda>l lf. None),
     cm_kind_of = (\<lambda>lf. if lf = ''gen'' then Sync_gen else Has_aenter),
     cm_enter = (\<lambda>l lf. Inr [''pool'' \<mapsto> length lf]),
     cm_exit = (\<lambda>l lf. if lf = ''flaky'' then Some KeyError else None),
     gen_next = (\<lambda>l lf. Yields Map.empty),
     exn_repr = (\<lambda>e. ''ValueError()'')\<rparr>"

definition demo_app :: "string list \<Rightarrow> string list \<Rightarrow> string option \<Rightarrow> (string, string) router list \<Rightarrow> (string, string, nat) app" where
  "demo_app su sd lf inc = \<lparr>
     on_startup = su, on_shutdown = sd, lifespan = lf, router = Router [] [] None [], included_routers = inc,
     startup_state = Not_started, startup_failure = None, lifespan_cms = None,
     app_state = Map.empty, state_attrs = Map.empty, dynamic_installed = False, routes = [],
     openapi_url = Some ''/openapi.json'', docs_url = None, redoc_url = None, oauth2_redirect_url = None,
     exit_callbacks = [], log = []\<rparr>"

lemmas demo_simps = demo_user_def demo_app_def collect_startup_handlers_def collect_shutdown_handlers_def
  collect_lifespans_def cm_first_def cm_second_def enter_events_def exit_events_def




section \<open>Startup runs once per cycle, and a failed startup refuses traffic\<close>

datatype app_event = Ev_startup | Ev_request | Ev_shutdown

definition app_step :: "('h, 'l, 'v) user \<Rightarrow> docs_module \<Rightarrow> app_event \<Rightarrow> ('h, 'l, 'v) app \<Rightarrow> py_exn option \<times> ('h, 'l, 'v) app" where
  "app_step u d e a =
     (case e of Ev_startup \<Rightarrow> asgi_startup u True a | Ev_request \<Rightarrow> http_entry u d a | Ev_shutdown \<Rightarrow> asgi_shutdown u True a)"

fun app_run :: "('h, 'l, 'v) user \<Rightarrow> docs_module \<Rightarrow> app_event list \<Rightarrow> ('h, 'l, 'v) app
    \<Rightarrow> py_exn option list \<times> ('h, 'l, 'v) app" where
  "app_run u d [] a = ([], a)"
| "app_run u d (e # es) a =
     (case app_step u d e a of (r, a1) \<Rightarrow> (case app_run u d es a1 of (rs, a2) \<Rightarrow> (r # rs, a2)))"

text \<open>The abstract life cycle: one bit, up or down, and the user code each event has to run.\<close>

fun cycle_log :: "'h list \<Rightarrow> 'h list \<Rightarrow> 'l list \<Rightarrow> bool \<Rightarrow> app_event list \<Rightarrow> ('h, 'l) ev list" where
  "cycle_log su sd lfs up [] = []"
| "cycle_log su sd lfs up (Ev_shutdown # es) =
     (if up then map Exited (rev lfs) else []) @ map Ran sd @ cycle_log su sd lfs False es"
| "cycle_log su sd lfs up (e # es) =
     (if up then [] else map Called lfs @ map Entered lfs @ map Ran su) @ cycle_log su sd lfs True es"

definition never_raises :: "('h, 'l, 'v) user \<Rightarrow> bool" where
  "never_raises u \<longleftrightarrow>
     (\<forall>l h. handler_raises u l h = None) \<and> (\<forall>l lf. call_raises u l lf = None)
     \<and> (\<forall>lf. cm_kind_of u lf \<noteq> Plain) \<and> (\<forall>l lf. \<exists>d. cm_first u l (cm_of u Fresh lf) = Inr d)
     \<and> (\<forall>l lf. cm_second u l (cm_of u Suspended lf) = None)"

definition cycle_inv :: "('h, 'l, 'v) user \<Rightarrow> bool \<Rightarrow> ('h, 'l, 'v) app \<Rightarrow> bool" where
  "cycle_inv u up a \<longleftrightarrow>
     startup_state a = (if up then Started else Not_started) \<and> (dynamic_installed a \<longrightarrow> up)
     \<and> (if up \<and> collect_lifespans a \<noteq> [] then lifespan_cms a = Some (map (cm_of u Suspended) (collect_lifespans a))
        else lifespan_cms a \<in> {None, Some []})"

lemma run_handlers_ok: "never_raises u \<Longrightarrow> run_handlers u hs l = (None, l @ map Ran hs)"
  by (induction hs arbitrary: l) (simp_all add: never_raises_def)

lemma enter_dicts_ok: "never_raises u \<Longrightarrow> \<exists>ds. enter_dicts u lfs l = Inr ds"
proof (induction lfs arbitrary: l)
  case (Cons lf lfs)
  then obtain d ds where "cm_first u l (cm_of u Fresh lf) = Inr d" "enter_dicts u lfs (l @ [Entered lf]) = Inr ds"
    unfolding never_raises_def by meson
  then show ?case by simp
qed simp

lemma exit_errors_ok: "never_raises u \<Longrightarrow> exit_errors u lfs l = []"
  by (induction lfs arbitrary: l) (simp_all add: never_raises_def)

lemma wrap_all_never: "never_raises u \<Longrightarrow> \<exists>cms. fst (wrap_all u lfs l) = Inr cms"
proof (induction lfs arbitrary: l)
  case (Cons lf lfs)
  then obtain cms where "fst (wrap_all u lfs (l @ [Called lf])) = Inr cms" by blast
  with Cons.prems show ?case by (cases "wrap_all u lfs (l @ [Called lf])") (simp add: never_raises_def)
qed simp

lemma no_plain_never: "never_raises u \<Longrightarrow> no_plain u lfs"
  by (simp add: never_raises_def no_plain_def)

lemma lifespan_startup_down:
  assumes "never_raises u" and "cycle_inv u False a"
  shows "\<exists>m m'. run_lifespan_startup u a =
    (None, a\<lparr>lifespan_cms := (if collect_lifespans a = [] then lifespan_cms a
                              else Some (map (cm_of u Suspended) (collect_lifespans a))),
             app_state := m, state_attrs := m',
             log := log a @ map Called (collect_lifespans a) @ map Entered (collect_lifespans a)\<rparr>)"
proof -
  obtain cms where "fst (wrap_all u (collect_lifespans a) (log a)) = Inr cms"
    using wrap_all_never [OF assms(1)] by blast
  moreover obtain ds where "enter_dicts u (collect_lifespans a) (log a @ map Called (collect_lifespans a)) = Inr ds"
    using enter_dicts_ok [OF assms(1)] by blast
  moreover have "lifespan_cms a \<in> {None, Some []}" using assms(2) by (simp add: cycle_inv_def)
  ultimately have eq: "run_lifespan_startup u a =
    (if collect_lifespans a = [] then (None, a)
     else (None, a\<lparr>lifespan_cms := Some (map (cm_of u Suspended) (collect_lifespans a)),
                   app_state := foldl (++) Map.empty ds,
                   state_attrs := state_attrs a ++ foldl (++) Map.empty ds,
                   log := log a @ map Called (collect_lifespans a) @ map Entered (collect_lifespans a)\<rparr>))"
    by (intro run_lifespan_startup_ok no_plain_never [OF assms(1)])
  show ?thesis
  proof (cases "collect_lifespans a = []")
    case True
    with eq show ?thesis
      by (intro exI [of _ "app_state a"] exI [of _ "state_attrs a"]) simp
  next
    case False
    with eq show ?thesis by (simp only: if_False) blast
  qed
qed

lemma lifespan_startup_up: "cycle_inv u True a \<Longrightarrow> run_lifespan_startup u a = (None, a)"
  by (cases "collect_lifespans a = []") (auto simp: cycle_inv_def run_lifespan_startup_def)

lemma startup_handlers_up: "cycle_inv u True a \<Longrightarrow> run_startup_handlers u a = (None, a)"
  by (simp add: cycle_inv_def run_startup_handlers_def)

lemma startup_handlers_down:
  "never_raises u \<Longrightarrow> startup_state a = Not_started \<Longrightarrow> run_startup_handlers u a
     = (None, a\<lparr>startup_state := Started, log := log a @ map Ran (collect_startup_handlers a)\<rparr>)"
  by (simp add: run_startup_handlers_def run_handlers_ok)

text \<open>One event from the state \<open>up\<close>: no exception, the prescribed user code, and the new state.\<close>

definition cycle_post :: "('h, 'l, 'v) user \<Rightarrow> bool \<Rightarrow> ('h, 'l) ev list \<Rightarrow> ('h, 'l, 'v) app \<Rightarrow> py_exn option \<times> ('h, 'l, 'v) app \<Rightarrow> bool" where
  "cycle_post u up evs a p \<longleftrightarrow>
     fst p = None \<and> cycle_inv u up (snd p) \<and> same_config (snd p) a \<and> log (snd p) = log a @ evs"

definition up_events :: "('h, 'l, 'v) app \<Rightarrow> bool \<Rightarrow> ('h, 'l) ev list" where
  "up_events a up = (if up then [] else
     map Called (collect_lifespans a) @ map Entered (collect_lifespans a) @ map Ran (collect_startup_handlers a))"

lemma cycle_up:
  assumes "never_raises u" and "cycle_inv u up a"
  shows "cycle_post u True (up_events a up) a (asgi_startup u True a)"
proof (cases up)
  case True
  with assms(2) show ?thesis
    by (simp add: cycle_post_def up_events_def asgi_startup_eq lifespan_startup_up startup_handlers_up same_config_def)
next
  case False
  with assms(2) have "cycle_inv u False a" by simp
  from lifespan_startup_down [OF assms(1) this] obtain m m' where "run_lifespan_startup u a =
    (None, a\<lparr>lifespan_cms := (if collect_lifespans a = [] then lifespan_cms a
                              else Some (map (cm_of u Suspended) (collect_lifespans a))),
             app_state := m, state_attrs := m',
             log := log a @ map Called (collect_lifespans a) @ map Entered (collect_lifespans a)\<rparr>)"
    by blast
  with False assms show ?thesis
    by (simp add: cycle_post_def up_events_def asgi_startup_eq startup_handlers_down cycle_inv_def same_config_def)
qed

lemma cycle_request:
  assumes "never_raises u" and "cycle_inv u up a"
  shows "cycle_post u True (up_events a up) a (http_entry u d a)"
proof (cases up)
  case True
  with assms(2) have "run_startup_handlers u (a\<lparr>exit_callbacks := x\<rparr>) = (None, a\<lparr>exit_callbacks := x\<rparr>)" for x
    by (intro startup_handlers_up) (simp add: cycle_inv_def split: if_splits)
  with True assms(2) show ?thesis
    by (auto simp: cycle_post_def up_events_def http_entry_def install_in_process_dynamic_routes_def
        lifespan_startup_up startup_handlers_up same_config_def cycle_inv_def)
next
  case False
  with assms(2) have "cycle_inv u False a" by simp
  from lifespan_startup_down [OF assms(1) this] obtain m m' where "run_lifespan_startup u a =
    (None, a\<lparr>lifespan_cms := (if collect_lifespans a = [] then lifespan_cms a
                              else Some (map (cm_of u Suspended) (collect_lifespans a))),
             app_state := m, state_attrs := m',
             log := log a @ map Called (collect_lifespans a) @ map Entered (collect_lifespans a)\<rparr>)"
    by blast
  with False assms show ?thesis
    by (simp add: cycle_post_def up_events_def http_entry_def install_in_process_dynamic_routes_def
        startup_handlers_down cycle_inv_def same_config_def)
qed

lemma cycle_down:
  assumes "never_raises u" and "cycle_inv u up a"
  shows "cycle_post u False ((if up then map Exited (rev (collect_lifespans a)) else []) @ map Ran (collect_shutdown_handlers a))
    a (asgi_shutdown u True a)"
proof (cases "up \<and> collect_lifespans a \<noteq> []")
  case True
  with assms have "run_lifespan_shutdown u a = (None, a\<lparr>lifespan_cms := None, log := log a @ map Exited (rev (collect_lifespans a))\<rparr>)"
    by (subst run_lifespan_shutdown_suspended [OF _ no_plain_never])
      (simp_all add: cycle_inv_def exit_errors_ok)
  with True assms(1) show ?thesis
    by (simp add: cycle_post_def asgi_shutdown_eq run_shutdown_handlers_def run_handlers_ok cycle_inv_def same_config_def)
next
  case False
  with assms(2) have "run_lifespan_shutdown u a = (None, a)"
    by (auto simp: cycle_inv_def run_lifespan_shutdown_def split: if_splits)
  with False assms show ?thesis
    by (auto simp: cycle_post_def asgi_shutdown_eq run_shutdown_handlers_def run_handlers_ok cycle_inv_def same_config_def)
qed

lemma cycle_run:
  assumes "never_raises u"
  shows "cycle_inv u up a \<Longrightarrow> app_run u d es a = (rs, a') \<Longrightarrow> set rs \<subseteq> {None}
    \<and> log a' = log a @ cycle_log (collect_startup_handlers a) (collect_shutdown_handlers a) (collect_lifespans a) up es"
proof (induction es arbitrary: up a rs)
  case (Cons e es)
  obtain r a1 where step: "app_step u d e a = (r, a1)" by (cases "app_step u d e a")
  obtain rs1 a2 where rest: "app_run u d es a1 = (rs1, a2)" by (cases "app_run u d es a1")
  have "\<exists>up' evs. cycle_post u up' evs a (r, a1)
    \<and> cycle_log (collect_startup_handlers a) (collect_shutdown_handlers a) (collect_lifespans a) up (e # es)
      = evs @ cycle_log (collect_startup_handlers a) (collect_shutdown_handlers a) (collect_lifespans a) up' es"
  proof (cases e)
    case Ev_startup
    with step cycle_up [OF assms Cons.prems(1)] show ?thesis
      by (intro exI [of _ True] exI [of _ "up_events a up"]) (simp add: app_step_def up_events_def)
  next
    case Ev_request
    with step cycle_request [OF assms Cons.prems(1), of d] show ?thesis
      by (intro exI [of _ True] exI [of _ "up_events a up"]) (simp add: app_step_def up_events_def)
  next
    case Ev_shutdown
    with step cycle_down [OF assms Cons.prems(1)] show ?thesis
      by (intro exI [of _ False]) (auto simp: app_step_def)
  qed
  then obtain up' evs where post: "cycle_post u up' evs a (r, a1)"
    and spec: "cycle_log (collect_startup_handlers a) (collect_shutdown_handlers a) (collect_lifespans a) up (e # es)
      = evs @ cycle_log (collect_startup_handlers a) (collect_shutdown_handlers a) (collect_lifespans a) up' es"
    by blast
  from Cons.IH [of up' a1 rs1] post rest step Cons.prems(2) show ?case
    unfolding spec by (auto simp: cycle_post_def same_config_def)
qed simp

text \<open>
  C9. However lifespan messages and requests are ordered, user code runs once per cycle: for user
  code that does not raise, no event raises, and the calls of user code are those of the abstract
  two-state life cycle.  The first startup or request of a cycle enters the lifespans in order and
  then runs the startup handlers, later ones run nothing, and a shutdown leaves the entered
  lifespans in reverse order and runs the shutdown handlers.
\<close>

theorem lifecycle_refines_cycle:
  assumes "never_raises u" and "fresh_app a" and "app_run u d es a = (rs, a')"
  shows "set rs \<subseteq> {None}
    \<and> log a' = log a @ cycle_log (collect_startup_handlers a) (collect_shutdown_handlers a) (collect_lifespans a) False es"
  using assms by (intro cycle_run) (simp_all add: fresh_app_def cycle_inv_def)

theorem lifecycle_refines_cycle_witness:
  "\<exists>rs a'. app_run (demo_user\<lparr>handler_raises := \<lambda>l h. None, cm_exit := \<lambda>l lf. None\<rparr>) \<lparr>has_swagger = True, has_redoc = True, has_oauth2_redirect = True\<rparr>
       [Ev_startup, Ev_request, Ev_shutdown, Ev_request, Ev_request] (demo_app [''a''] [''z''] (Some ''db'') []) = (rs, a')
     \<and> log a' = [Called ''db'', Entered ''db'', Ran ''a'', Exited ''db'', Ran ''z'', Called ''db'', Entered ''db'', Ran ''a'']"
proof -
  let ?u = "demo_user\<lparr>handler_raises := \<lambda>l h. None, cm_exit := \<lambda>l lf. None\<rparr>"
  let ?a = "demo_app [''a''] [''z''] (Some ''db'') []"
  let ?d = "\<lparr>has_swagger = True, has_redoc = True, has_oauth2_redirect = True\<rparr>"
  obtain rs a' where r: "app_run ?u ?d [Ev_startup, Ev_request, Ev_shutdown, Ev_request, Ev_request] ?a = (rs, a')"
    by (cases "app_run ?u ?d [Ev_startup, Ev_request, Ev_shutdown, Ev_request, Ev_request] ?a")
  have "never_raises ?u" by (simp add: never_raises_def demo_simps split: cm_kind.split)
  moreover have "fresh_app ?a" by (simp add: fresh_app_def demo_simps)
  ultimately have "log a' = log ?a @ cycle_log (collect_startup_handlers ?a) (collect_shutdown_handlers ?a) (collect_lifespans ?a) False
      [Ev_startup, Ev_request, Ev_shutdown, Ev_request, Ev_request]"
    using lifecycle_refines_cycle r by blast
  with r show ?thesis by (simp add: demo_simps)
qed

lemma run_handlers_append:
  "run_handlers u hs l = (None, l') \<Longrightarrow> run_handlers u (hs @ hs') l = run_handlers u hs' l'"
  by (induction hs arbitrary: l) (auto split: option.splits)

lemma run_lifespan_startup_frame:
  "run_lifespan_startup u a = (r, a1) \<Longrightarrow>
     same_config a1 a \<and> startup_state a1 = startup_state a \<and> dynamic_installed a1 = dynamic_installed a"
  by (auto simp: run_lifespan_startup_def same_config_def split: if_splits prod.splits sum.splits)

lemma http_entry_failed:
  "startup_state a = Failed \<Longrightarrow>
     http_entry u d a = (Some (RuntimeError (failed_message @ exn_repr u (startup_failure a))), a)"
  by (simp add: http_entry_def run_startup_handlers_def)

lemma app_run_failed:
  "startup_state a = Failed \<Longrightarrow> app_run u d (replicate n Ev_request) a
     = (replicate n (Some (RuntimeError (failed_message @ exn_repr u (startup_failure a)))), a)"
  by (induction n) (simp_all add: app_step_def http_entry_failed)

text \<open>
  C10. A startup handler that raises poisons the application: whether a lifespan message or the first
  request triggered the startup, the exception is reported, no later handler runs, and every
  request after it is refused with an error that carries the original one and runs no user code.
\<close>

theorem failed_startup_refuses_traffic:
  assumes "startup_state a = Not_started" and "\<not> dynamic_installed a"
    and "run_lifespan_startup u a = (None, a1)"
    and "collect_startup_handlers a = pre @ h # post"
    and "run_handlers u pre (log a1) = (None, l)" and "handler_raises u l h = Some e"
    and "ev \<in> {Ev_startup, Ev_request}"
  shows "\<exists>a'. app_run u d (ev # replicate n Ev_request) a
      = (Some e # replicate n (Some (RuntimeError (failed_message @ exn_repr u (Some e)))), a')
    \<and> log a' = l @ [Ran h]"
proof -
  have frame: "collect_startup_handlers a1 = pre @ h # post" "startup_state a1 = Not_started"
    using run_lifespan_startup_frame [OF assms(3)] assms(1,4) by (simp_all add: same_config_def)
  have run: "run_startup_handlers u (a1\<lparr>exit_callbacks := x\<rparr>)
      = (Some e, a1\<lparr>exit_callbacks := x, startup_state := Failed, startup_failure := Some e, log := l @ [Ran h]\<rparr>)" for x
    using frame assms(5,6) by (simp add: run_startup_handlers_def run_handlers_append)
  have "\<exists>a2. app_step u d ev a = (Some e, a2) \<and> startup_state a2 = Failed \<and> startup_failure a2 = Some e \<and> log a2 = l @ [Ran h]"
  proof (cases "ev = Ev_startup")
    case True
    with run [of "exit_callbacks a1"] assms(3) show ?thesis
      by (simp add: app_step_def asgi_startup_eq)
  next
    case False
    have "collect_lifespans a = [] \<Longrightarrow> a1 = a" using assms(3) by (auto simp: run_lifespan_startup_def split: if_splits)
    with False run run [of "exit_callbacks a1"] assms(1,2,3,7) show ?thesis
      by (auto simp: app_step_def http_entry_def install_in_process_dynamic_routes_def)
  qed
  then obtain a2 where "app_step u d ev a = (Some e, a2)" "startup_state a2 = Failed"
      "startup_failure a2 = Some e" "log a2 = l @ [Ran h]" by blast
  then show ?thesis by (simp add: app_run_failed)
qed

theorem failed_startup_refuses_traffic_witness:
  "\<exists>a'. app_run demo_user \<lparr>has_swagger = True, has_redoc = True, has_oauth2_redirect = True\<rparr>
        [Ev_request, Ev_request] (demo_app [''ok'', ''bad'', ''never''] [] None [])
      = ([Some ValueError, Some (RuntimeError (failed_message @ ''ValueError()''))], a')
    \<and> log a' = [Ran ''ok'', Ran ''bad'']"
proof -
  let ?a = "demo_app [''ok'', ''bad'', ''never''] [] None []"
  have "startup_state ?a = Not_started" "\<not> dynamic_installed ?a" "run_lifespan_startup demo_user ?a = (None, ?a)"
    "collect_startup_handlers ?a = [''ok''] @ ''bad'' # [''never'']"
    "run_handlers demo_user [''ok''] (log ?a) = (None, [Ran ''ok''])" "handler_raises demo_user [Ran ''ok''] ''bad'' = Some ValueError"
    by (simp_all add: run_lifespan_startup_def demo_simps)
  note facts = this
  have "exn_repr demo_user x = ''ValueError()''" for x by (simp add: demo_user_def)
  with failed_startup_refuses_traffic [OF facts, of Ev_request _ 1] show ?thesis by simp
qed

section \<open>Documentation routes\<close>

lemma put_dynamic_user: "filter (\<lambda>r. \<not> rt_dynamic r) (put_dynamic n p rs) = filter (\<lambda>r. \<not> rt_dynamic r) rs"
  by (auto simp: put_dynamic_def is_prior_dynamic_def intro: filter_cong)

definition removed :: "(string \<times> string) set \<Rightarrow> route list \<Rightarrow> route list" where
  "removed ks rs = filter (\<lambda>r. \<not> (rt_dynamic r \<and> (rt_name r, rt_path r) \<in> ks)) rs"

definition dyn_route :: "string \<times> string \<Rightarrow> route" where
  "dyn_route k = \<lparr>rt_path = snd k, rt_name = fst k, rt_dynamic = True\<rparr>"

lemma put_dynamic_eq: "put_dynamic n p rs = dyn_route (n, p) # removed {(n, p)} rs"
  by (simp add: put_dynamic_def removed_def dyn_route_def is_prior_dynamic_def)

lemma removed_simps [simp]:
  "removed ks (removed ks' rs) = removed (ks \<union> ks') rs"
  "removed ks (dyn_route k # rs) = (if k \<in> ks then removed ks rs else dyn_route k # removed ks rs)"
  "removed ks [] = []" "removed ks (rs @ rs') = removed ks rs @ removed ks rs'"
  by (auto simp: removed_def dyn_route_def intro: filter_cong)

fun put_all :: "(string \<times> string) list \<Rightarrow> route list \<Rightarrow> route list" where
  "put_all [] rs = rs"
| "put_all (k # ks) rs = put_all ks (put_dynamic (fst k) (snd k) rs)"

lemma put_all_eq: "distinct ks \<Longrightarrow> put_all ks rs = map dyn_route (rev ks) @ removed (set ks) rs"
proof (induction ks arbitrary: rs)
  case Nil
  then show ?case by (simp add: removed_def)
next
  case (Cons k ks)
  then show ?case by (cases k) (simp add: put_dynamic_eq)
qed

definition docs_keys :: "docs_module \<Rightarrow> ('h, 'l, 'v) app \<Rightarrow> (string \<times> string) list" where
  "docs_keys d a =
     (case openapi_url a of
        None \<Rightarrow> [] | Some [] \<Rightarrow> []
      | Some url \<Rightarrow>
          [(''openapi'', url)]
          @ (case docs_url a of Some p \<Rightarrow> if has_swagger d then [(''swagger_ui'', p)] else [] | None \<Rightarrow> [])
          @ (case redoc_url a of Some p \<Rightarrow> if has_redoc d then [(''redoc'', p)] else [] | None \<Rightarrow> [])
          @ (case oauth2_redirect_url a of
               Some p \<Rightarrow> if docs_url a \<noteq> None \<and> has_oauth2_redirect d then [(''swagger_ui_redirect'', p)] else []
             | None \<Rightarrow> []))"

lemma docs_keys_distinct: "distinct (docs_keys d a)"
  by (simp add: docs_keys_def split: option.split list.split)

lemma put_all_append: "put_all (ks @ ks') rs = put_all ks' (put_all ks rs)"
  by (induction ks arbitrary: rs) simp_all

lemma install_docs_eq: "install_docs d a = put_all (docs_keys d a) (routes a)"
  by (cases "openapi_url a"; cases "docs_url a"; cases "redoc_url a"; cases "oauth2_redirect_url a")
    (simp_all add: install_docs_def docs_keys_def Let_def put_all_append split: list.split)

lemma docs_keys_update [simp]: "docs_keys d (a\<lparr>routes := rs\<rparr>) = docs_keys d a"
  by (simp add: docs_keys_def cong: option.case_cong list.case_cong)

text \<open>
  C14. Installing the documentation routes is idempotent across life cycles: the routes are the
  enabled documentation routes, once each and in front, followed by the other routes in their
  order; installing again changes nothing, and no route of the user is ever dropped.
\<close>

theorem install_docs_idempotent:
  "install_docs d a = map dyn_route (rev (docs_keys d a)) @ removed (set (docs_keys d a)) (routes a)
   \<and> install_docs d (a\<lparr>routes := install_docs d a\<rparr>) = install_docs d a
   \<and> filter (\<lambda>r. \<not> rt_dynamic r) (install_docs d a) = filter (\<lambda>r. \<not> rt_dynamic r) (routes a)"
proof -
  have eq: "install_docs d b = map dyn_route (rev (docs_keys d b)) @ removed (set (docs_keys d b)) (routes b)"
    for b :: "('a, 'b, 'c) app"
    unfolding install_docs_eq by (rule put_all_eq [OF docs_keys_distinct])
  have gone: "set ks \<subseteq> K \<Longrightarrow> removed K (map dyn_route ks) = []" for ks K
    by (induction ks) simp_all
  have dyn: "filter (\<lambda>r. \<not> rt_dynamic r) (map dyn_route ks) = []" for ks
    by (induction ks) (simp_all add: dyn_route_def)
  show ?thesis
    by (simp add: eq gone dyn) (auto simp: removed_def intro: filter_cong)
qed

section \<open>Worker processes\<close>

lemma resolve_worker_count_bounds:
  "1 \<le> resolve_worker_count env cpus has_fork on_main w
   \<and> (1 < resolve_worker_count env cpus has_fork on_main w \<longrightarrow> has_fork \<and> on_main)"
  by (auto simp: resolve_worker_count_def Let_def)

lemma resolve_worker_count_env:
  "py_int s = Inr n \<Longrightarrow> 1 \<le> n \<Longrightarrow> resolve_worker_count (Some s) cpus True True w = n"
  by (simp add: resolve_worker_count_def)

section \<open>Divergences\<close>

text \<open>
  A lifespan that raises while it is entered does not poison the application the way a startup
  handler does: the managers are recorded before they are entered, so the next startup attempt
  takes them for entered, and the next request is served.
\<close>

lemma failed_lifespan_still_serves:
  assumes "run_lifespan_startup u a = (Some e, a1)" and "lifespan_cms a1 = Some (c # cs)"
    and "startup_state a = Not_started" and "\<not> dynamic_installed a"
    and "run_handlers u (collect_startup_handlers a) (log a1) = (None, l)"
  shows "\<exists>a2. http_entry u d a1 = (None, a2) \<and> startup_state a2 = Started"
proof -
  have "same_config a1 a" "startup_state a1 = Not_started" "\<not> dynamic_installed a1"
    using run_lifespan_startup_frame [OF assms(1)] assms(3,4) by simp_all
  moreover have "run_lifespan_startup u a1 = (None, a1)" using assms(2) by (simp add: run_lifespan_startup_def)
  moreover have "run_startup_handlers u (a1\<lparr>exit_callbacks := x\<rparr>)
      = (None, a1\<lparr>exit_callbacks := x, startup_state := Started, log := l\<rparr>)" for x
    using calculation assms(5) by (simp add: run_startup_handlers_def same_config_def)
  moreover from this [of "exit_callbacks a1"]
  have "run_startup_handlers u a1 = (None, a1\<lparr>startup_state := Started, log := l\<rparr>)" by simp
  ultimately show ?thesis
    by (simp add: http_entry_def install_in_process_dynamic_routes_def)
qed

text \<open>
  Shutdown handlers of one router, and of sibling routers, run in registration order, not in the
  reverse of the startup order; a nested router's lifespan is entered before those of the routers
  it includes, so the parent does not win a key collision; and the ASGI loop leaves lifespans
  before it runs the shutdown handlers while the middleware chain runs them the other way round.
\<close>

lemma shutdown_order_not_reversed:
  "collect_startup_handlers (demo_app [''a'', ''b''] [''a'', ''b''] None []) = [''a'', ''b'']
   \<and> collect_shutdown_handlers (demo_app [''a'', ''b''] [''a'', ''b''] None []) = [''a'', ''b'']"
  by (simp add: demo_simps)

lemma nested_child_lifespan_wins:
  "collect_lifespans (demo_app [] [] None [Router [] [] (Some ''parent'') [Router [] [] (Some ''child'') []]]) = [''parent'', ''child'']"
  by (simp add: demo_simps)

lemma shutdown_orders_differ:
  assumes "lifespan_cms a = Some (map (cm_of u Suspended) lfs)" and "lfs \<noteq> []" and "never_raises u"
  shows "log (snd (asgi_shutdown u True a)) = log a @ map Exited (rev lfs) @ map Ran (collect_shutdown_handlers a)"
    and "log (snd (snd (snd (inner_shutdown u a)))) = log a @ map Ran (collect_shutdown_handlers a) @ map Exited (rev lfs)"
  using assms run_lifespan_shutdown_suspended [of _ u lfs] exit_errors_ok [OF assms(3)] no_plain_never [OF assms(3)]
  by (simp_all add: asgi_shutdown_eq inner_shutdown_def async_variants_eq run_shutdown_handlers_def run_handlers_ok)

end
