(* ===== verification/Url_Path.thy ===== *)
theory Url_Path
  imports Resp
begin

text \<open>
  URL building and URL matching.  The first half is the placeholder substitution of the two
  \<open>url_path_for\<close> methods with the percent-encoding of \<^verbatim>\<open>urllib.parse.quote\<close> that it uses; the
  second half is the path pattern of the WebSocket route table (\<open>_ws_door_table\<close>) and the anchored,
  greedy, backtracking match of it.  The main results: a parameter value cannot add a path separator
  to a built URL, and a pattern matches exactly the paths that are renderings of it.
\<close>

section \<open>Percent-encoding\<close>

definition hex_digit :: "nat \<Rightarrow> char" where
  "hex_digit n = (if n < 10 then digit_char n else char_of (55 + n))"

definition hex_val :: "char \<Rightarrow> nat" where
  "hex_val c = (if is_digit c then digit_val c else of_char c - 55)"

text \<open>The characters \<open>quote\<close> never encodes, whatever \<open>safe\<close> is.\<close>

definition always_safe :: "char \<Rightarrow> bool" where
  "always_safe c \<longleftrightarrow>
     (let n = of_char c :: nat
      in 48 \<le> n \<and> n \<le> 57 \<or> 65 \<le> n \<and> n \<le> 90 \<or> 97 \<le> n \<and> n \<le> 122
         \<or> c \<in> {CHR ''_'', CHR ''.'', CHR ''-'', CHR ''~''})"

definition quote_byte :: "char \<Rightarrow> string" where
  "quote_byte c =
     (if always_safe c then [c]
      else [CHR ''%'', hex_digit (of_char c div 16), hex_digit (of_char c mod 16)])"

definition quote_bytes :: "bytes \<Rightarrow> string" where
  "quote_bytes bs = concat (map quote_byte bs)"

definition quote :: "string \<Rightarrow> string" where
  "quote s = quote_bytes (utf8 (map of_char s))"

section \<open>Placeholder substitution\<close>

text \<open>
  One scan of \<open>re.sub(r"\{([^}]+)\}", _sub, path)\<close>: a brace group is an opening brace, at least one
  character other than the closing brace, and the closing brace; an opening brace that starts no
  group is copied.  \<open>split_group\<close> returns the group's text and what follows it.
\<close>

definition split_group :: "string \<Rightarrow> (string \<times> string) option" where
  "split_group s =
     (let name = takeWhile (\<lambda>c. c \<noteq> CHR ''}'') s; rest = dropWhile (\<lambda>c. c \<noteq> CHR ''}'') s
      in if name \<noteq> [] \<and> rest \<noteq> [] then Some (name, tl rest) else None)"

definition before_colon :: "string \<Rightarrow> string" where
  "before_colon g = takeWhile (\<lambda>c. c \<noteq> CHR '':'') g"

definition fill_group :: "(string \<rightharpoonup> string) \<Rightarrow> string \<Rightarrow> string py" where
  "fill_group params g =
     (case params (before_colon g) of
        None \<Rightarrow> Inl KeyError
      | Some val \<Rightarrow> if find_sub '':path'' (''{'' @ g @ ''}'') \<noteq> None then Inr val else Inr (quote val))"

lemma length_tl_dropWhile: "dropWhile p s \<noteq> [] \<Longrightarrow> length (tl (dropWhile p s)) < length s"
  using length_dropWhile_le [of p s] by (cases "dropWhile p s") auto

lemma split_group_length [termination_simp]: "split_group s = Some (g, rest) \<Longrightarrow> length rest < length s"
  using length_tl_dropWhile [of "\<lambda>c. c \<noteq> CHR ''}''" s]
  by (auto simp: split_group_def Let_def simp del: length_tl split: if_splits)

fun fill_path :: "(string \<rightharpoonup> string) \<Rightarrow> string \<Rightarrow> string py" where
  "fill_path params [] = Inr []"
| "fill_path params (c # s) =
     (if c = CHR ''{'' then
        (case split_group s of
           None \<Rightarrow> (case fill_path params s of Inl e \<Rightarrow> Inl e | Inr t \<Rightarrow> Inr (c # t))
         | Some (g, rest) \<Rightarrow>
             (case fill_group params g of
                Inl e \<Rightarrow> Inl e
              | Inr v \<Rightarrow> (case fill_path params rest of Inl e \<Rightarrow> Inl e | Inr t \<Rightarrow> Inr (v @ t))))
      else (case fill_path params s of Inl e \<Rightarrow> Inl e | Inr t \<Rightarrow> Inr (c # t)))"

section \<open>Path patterns\<close>

datatype tok = Chr char | Seg string | Rest string

text \<open>
  \<open>_re.finditer(r"\{([^{}:]+)(?::([^{}]+))?\}", r_path)\<close> at an opening brace: the name, the optional
  converter and what follows.  The pieces between groups are escaped, so they match themselves.
\<close>

definition name_char :: "char \<Rightarrow> bool" where
  "name_char c \<longleftrightarrow> c \<noteq> CHR ''{'' \<and> c \<noteq> CHR ''}'' \<and> c \<noteq> CHR '':''"

definition conv_char :: "char \<Rightarrow> bool" where
  "conv_char c \<longleftrightarrow> c \<noteq> CHR ''{'' \<and> c \<noteq> CHR ''}''"

definition split_param :: "string \<Rightarrow> (string \<times> string option \<times> string) option" where
  "split_param s =
     (if takeWhile name_char s = [] then None
      else case dropWhile name_char s of
             [] \<Rightarrow> None
           | d # rest \<Rightarrow>
               if d = CHR ''}'' then Some (takeWhile name_char s, None, rest)
               else if d = CHR '':'' \<and> takeWhile conv_char rest \<noteq> []
                 \<and> dropWhile conv_char rest \<noteq> [] \<and> hd (dropWhile conv_char rest) = CHR ''}''
               then Some (takeWhile name_char s, Some (takeWhile conv_char rest), tl (dropWhile conv_char rest))
               else None)"

lemma split_param_length [termination_simp]:
  assumes "split_param s = Some (n, conv, rest)"
  shows "length rest < length s"
proof -
  from assms obtain d rest' where d: "dropWhile name_char s = d # rest'"
    by (auto simp: split_param_def split: if_splits list.splits)
  then have "length rest' < length s" using length_tl_dropWhile [of name_char s] by simp
  moreover have "rest = rest' \<or> length rest < length rest'"
    using assms d length_tl_dropWhile [of conv_char rest'] by (auto simp: split_param_def split: if_splits)
  ultimately show ?thesis by auto
qed

fun compile_pattern :: "string \<Rightarrow> tok list" where
  "compile_pattern [] = []"
| "compile_pattern (c # s) =
     (if c = CHR ''{'' then
        (case split_param s of
           None \<Rightarrow> Chr c # compile_pattern s
         | Some (n, conv, rest) \<Rightarrow>
             (if conv = Some ''path'' then Rest n else Seg n) # compile_pattern rest)
      else Chr c # compile_pattern s)"

text \<open>
  \<open>regex.match(path)\<close>: a group takes as many characters as it can and gives them back one by one;
  the end anchor also matches before one final newline.
\<close>

definition newline :: char where
  "newline = CHR 0x0A"

fun first_some :: "('a \<Rightarrow> 'b option) \<Rightarrow> 'a list \<Rightarrow> 'b option" where
  "first_some f [] = None"
| "first_some f (x # xs) = (case f x of Some y \<Rightarrow> Some y | None \<Rightarrow> first_some f xs)"

primrec match_toks :: "tok list \<Rightarrow> string \<Rightarrow> (string \<times> string) list option" where
  "match_toks [] = (\<lambda>s. if s = [] \<or> s = [newline] then Some [] else None)"
| "match_toks (t # ts) = (\<lambda>s.
     case t of
       Chr c \<Rightarrow> (case s of [] \<Rightarrow> None | x # xs \<Rightarrow> if x = c then match_toks ts xs else None)
     | Seg n \<Rightarrow>
         first_some (\<lambda>k. map_option ((#) (n, take k s)) (match_toks ts (drop k s)))
           (rev [1 ..< Suc (length (takeWhile (\<lambda>c. c \<noteq> CHR ''/'') s))])
     | Rest n \<Rightarrow>
         first_some (\<lambda>k. map_option ((#) (n, take k s)) (match_toks ts (drop k s)))
           (rev [1 ..< Suc (length (takeWhile (\<lambda>c. c \<noteq> newline) s))]))"

text \<open>The route table and the dispatch of \<open>_asgi_ws_door\<close>: the first matching entry, or a close.\<close>

definition door_table :: "(string \<times> 'e) list \<Rightarrow> (tok list \<times> 'e) list" where
  "door_table rds = map (\<lambda>(p, e). (compile_pattern p, e)) (filter (\<lambda>(p, e). p \<noteq> []) rds)"

datatype 'e ws_dispatch = Ws_close nat | Ws_endpoint 'e "(string \<times> string) list"

fun ws_door :: "(tok list \<times> 'e) list \<Rightarrow> string \<Rightarrow> 'e ws_dispatch" where
  "ws_door [] path = Ws_close 1000"
| "ws_door ((ts, e) # table) path =
     (case match_toks ts path of Some ps \<Rightarrow> Ws_endpoint e ps | None \<Rightarrow> ws_door table path)"

section \<open>Percent-encoding is reversible and harmless\<close>

fun pct_decode :: "string \<Rightarrow> bytes" where
  "pct_decode (p # h # l # s) =
     (if p = CHR ''%'' then char_of (16 * hex_val h + hex_val l) # pct_decode s
      else p # pct_decode (h # l # s))"
| "pct_decode s = s"

lemma hex_cases: "n < 16 \<Longrightarrow> n \<in> {0,1,2,3,4,5,6,7,8,9,10,11,12,13,14,15::nat}"
  by (auto simp: eval_nat_numeral less_Suc_eq)

lemma hex_digit_props: "n < 16 \<Longrightarrow> hex_val (hex_digit n) = n \<and> always_safe (hex_digit n)"
  using hex_cases [of n]
  by (auto simp: hex_digit_def hex_val_def digit_char_def is_digit_def digit_val_def always_safe_def Let_def)

lemma of_char_lt: "of_char (c :: char) < (256 :: nat)"
  using nat_of_char_less_256 [of c] by simp

lemma quote_byte_nibbles: "of_char (c :: char) div 16 < (16 :: nat)" "of_char c mod 16 < (16 :: nat)"
  using of_char_lt [of c] by (simp_all add: less_mult_imp_div_less)

lemma pct_decode_safe: "always_safe c \<Longrightarrow> pct_decode (c # s) = c # pct_decode s"
proof -
  assume "always_safe c"
  then have "c \<noteq> CHR ''%''" by (auto simp: always_safe_def Let_def)
  then show ?thesis by (cases s rule: list.exhaust; cases "tl s") auto
qed

lemma pct_decode_quote_bytes: "pct_decode (quote_bytes bs) = bs"
proof (induction bs)
  case (Cons b bs)
  show ?case
  proof (cases "always_safe b")
    case True
    with Cons show ?thesis by (simp add: quote_bytes_def quote_byte_def pct_decode_safe)
  next
    case False
    have "16 * (of_char b div 16) + of_char b mod 16 = (of_char b :: nat)" by simp
    with False Cons show ?thesis
      using hex_digit_props [OF quote_byte_nibbles(1) [of b]] hex_digit_props [OF quote_byte_nibbles(2) [of b]]
      by (simp add: quote_bytes_def quote_byte_def del: mult_div_mod_eq)
  qed
qed (simp add: quote_bytes_def)

lemma quote_chars: "c \<in> set (quote s) \<Longrightarrow> always_safe c \<or> c = CHR ''%''"
proof -
  have "c \<in> set (quote_byte b) \<Longrightarrow> always_safe c \<or> c = CHR ''%''" for b
    using hex_digit_props [OF quote_byte_nibbles(1) [of b]] hex_digit_props [OF quote_byte_nibbles(2) [of b]]
    by (auto simp: quote_byte_def split: if_splits)
  then show "c \<in> set (quote s) \<Longrightarrow> always_safe c \<or> c = CHR ''%''"
    by (auto simp: quote_def quote_bytes_def)
qed

section \<open>Built URLs\<close>

text \<open>The literal characters and the brace groups of a template, in order.\<close>

fun pieces :: "string \<Rightarrow> (char + string) list" where
  "pieces [] = []"
| "pieces (c # s) =
     (if c = CHR ''{'' then
        (case split_group s of None \<Rightarrow> Inl c # pieces s | Some (g, rest) \<Rightarrow> Inr g # pieces rest)
      else Inl c # pieces s)"

definition piece_params :: "(char + string) list \<Rightarrow> string list" where
  "piece_params ps = concat (map (\<lambda>p. case p of Inl c \<Rightarrow> [] | Inr g \<Rightarrow> [before_colon g]) ps)"

definition is_path_group :: "string \<Rightarrow> bool" where
  "is_path_group g \<longleftrightarrow> find_sub '':path'' (''{'' @ g @ ''}'') \<noteq> None"

definition piece_text :: "(string \<rightharpoonup> string) \<Rightarrow> char + string \<Rightarrow> string" where
  "piece_text params p =
     (case p of Inl c \<Rightarrow> [c]
      | Inr g \<Rightarrow> if is_path_group g then the (params (before_colon g)) else quote (the (params (before_colon g))))"

lemma piece_simps [simp]:
  "piece_text params (Inl c) = [c]"
  "piece_text params (Inr g) =
     (if is_path_group g then the (params (before_colon g)) else quote (the (params (before_colon g))))"
  "piece_params [] = []" "piece_params (Inl c # ps) = piece_params ps"
  "piece_params (Inr g # ps) = before_colon g # piece_params ps"
  by (simp_all add: piece_text_def piece_params_def)

lemma fill_group_eq:
  "fill_group params g =
     (case params (before_colon g) of None \<Rightarrow> Inl KeyError
      | Some v \<Rightarrow> if is_path_group g then Inr v else Inr (quote v))"
  by (simp add: fill_group_def is_path_group_def split: option.split)

lemma fill_path_pieces:
  "fill_path params path =
     (if set (piece_params (pieces path)) \<subseteq> dom params then Inr (concat (map (piece_text params) (pieces path)))
      else Inl KeyError)"
proof (induction params path rule: fill_path.induct)
  case (2 params c s)
  show ?case
  proof (cases "c = CHR ''{'' \<and> split_group s \<noteq> None")
    case True
    then obtain g rest where g: "split_group s = Some (g, rest)" by auto
    show ?thesis
      using True g 2(2) [OF _ g refl]
      by (cases "params (before_colon g)")
        (auto simp: fill_group_eq split: if_splits)
  next
    case False
    then show ?thesis
      using 2(1,3) by (cases "c = CHR ''{''"; cases "split_group s") (auto split: if_splits)
  qed
qed simp



section \<open>Matching is the inverse of rendering\<close>

text \<open>
  The path a pattern stands for once its groups have values: a segment value is not empty and has no
  separator, a \<open>path\<close> value is not empty and has no newline.
\<close>

fun render :: "tok list \<Rightarrow> (string \<times> string) list \<Rightarrow> string option" where
  "render [] [] = Some []"
| "render (Chr c # ts) ps = map_option ((#) c) (render ts ps)"
| "render (Seg n # ts) ((m, v) # ps) =
     (if m = n \<and> v \<noteq> [] \<and> CHR ''/'' \<notin> set v then map_option ((@) v) (render ts ps) else None)"
| "render (Rest n # ts) ((m, v) # ps) =
     (if m = n \<and> v \<noteq> [] \<and> newline \<notin> set v then map_option ((@) v) (render ts ps) else None)"
| "render _ _ = None"

definition ends :: "string \<Rightarrow> string \<Rightarrow> bool" where
  "ends t s \<longleftrightarrow> s = t \<or> s = t @ [newline]"

lemma ends_simps [simp]:
  "ends [] s \<longleftrightarrow> s = [] \<or> s = [newline]"
  "ends (c # t) s \<longleftrightarrow> (\<exists>s'. s = c # s' \<and> ends t s')"
  "ends (v @ t) (v @ s) \<longleftrightarrow> ends t s"
  by (auto simp: ends_def)

lemma first_some_Some: "first_some f xs = Some y \<Longrightarrow> \<exists>x \<in> set xs. f x = Some y"
  by (induction xs) (auto split: option.splits)

lemma first_some_None: "first_some f xs = None \<longleftrightarrow> (\<forall>x \<in> set xs. f x = None)"
  by (induction xs) (auto split: option.splits)

text \<open>The group cases: a match takes a prefix of allowed characters, and every such prefix is tried.\<close>

definition group_match :: "(char \<Rightarrow> bool) \<Rightarrow> string \<Rightarrow> (string \<Rightarrow> (string \<times> string) list option) \<Rightarrow> string \<Rightarrow> (string \<times> string) list option" where
  "group_match p n rest s =
     first_some (\<lambda>k. map_option ((#) (n, take k s)) (rest (drop k s))) (rev [1 ..< Suc (length (takeWhile p s))])"

lemma match_group:
  "match_toks (Seg n # ts) = group_match (\<lambda>c. c \<noteq> CHR ''/'') n (match_toks ts)"
  "match_toks (Rest n # ts) = group_match (\<lambda>c. c \<noteq> newline) n (match_toks ts)"
  by (simp_all add: group_match_def fun_eq_iff)

lemma take_takeWhile_all: "k \<le> length (takeWhile p s) \<Longrightarrow> c \<in> set (take k s) \<Longrightarrow> p c"
proof -
  assume "k \<le> length (takeWhile p s)" and c: "c \<in> set (take k s)"
  then have "take k s = take k (takeWhile p s)"
    by (metis take_append takeWhile_dropWhile_id diff_is_0_eq take_0 append_Nil2)
  with c show "p c" by (metis in_set_takeD set_takeWhileD)
qed

lemma group_match_sound:
  assumes "group_match p n rest s = Some ps"
  shows "\<exists>v s' qs. s = v @ s' \<and> v \<noteq> [] \<and> (\<forall>c \<in> set v. p c) \<and> rest s' = Some qs \<and> ps = (n, v) # qs"
proof -
  from assms obtain k qs where k: "1 \<le> k" "k \<le> length (takeWhile p s)" "rest (drop k s) = Some qs" "ps = (n, take k s) # qs"
    by (auto simp: group_match_def dest!: first_some_Some)
  have "length (takeWhile p s) \<le> length s" by (rule length_takeWhile_le)
  with k(1,2) have "take k s \<noteq> []" by auto
  moreover have "\<forall>c \<in> set (take k s). p c" using take_takeWhile_all [OF k(2)] by blast
  ultimately show ?thesis using k(3,4) by (intro exI [of _ "take k s"] exI [of _ "drop k s"]) simp
qed

lemma group_match_complete:
  assumes "v \<noteq> []" and "\<forall>c \<in> set v. p c" and "rest s' \<noteq> None"
  shows "group_match p n rest (v @ s') \<noteq> None"
proof -
  have "length v \<le> length (takeWhile p (v @ s'))" using assms(2) by (simp add: takeWhile_append2)
  moreover have "1 \<le> length v" using assms(1) by (cases v) simp_all
  ultimately have "length v \<in> set (rev [1 ..< Suc (length (takeWhile p (v @ s')))])" by auto
  then show ?thesis
    unfolding group_match_def first_some_None using assms(3) by (intro notI) (drule bspec, assumption, simp)
qed

lemma group_match_greedy:
  assumes "v \<noteq> []" and "takeWhile p (v @ s') = v" and "rest s' = Some qs"
  shows "group_match p n rest (v @ s') = Some ((n, v) # qs)"
proof -
  obtain k where "length v = Suc k" using assms(1) by (cases v) simp_all
  then have "rev [1 ..< Suc (length v)] = length v # rev [1 ..< length v]" by simp
  with assms(2,3) show ?thesis by (simp add: group_match_def)
qed

lemma match_sound: "match_toks ts s = Some ps \<Longrightarrow> \<exists>t. render ts ps = Some t \<and> ends t s"
proof (induction ts arbitrary: s ps)
  case (Cons tk ts)
  show ?case
  proof (cases tk)
    case (Chr c)
    with Cons.prems obtain s' where s': "s = c # s'" "match_toks ts s' = Some ps"
      by (auto split: list.splits if_splits)
    with Cons.IH [OF s'(2)] Chr show ?thesis by auto
  next
    case (Seg n)
    with Cons.prems obtain v s' qs where v: "s = v @ s'" "v \<noteq> []" "CHR ''/'' \<notin> set v" "match_toks ts s' = Some qs" "ps = (n, v) # qs"
      unfolding Seg match_group by (blast dest: group_match_sound)
    with Cons.IH [OF v(4)] Seg show ?thesis by auto
  next
    case (Rest n)
    with Cons.prems obtain v s' qs where v: "s = v @ s'" "v \<noteq> []" "newline \<notin> set v" "match_toks ts s' = Some qs" "ps = (n, v) # qs"
      unfolding Rest match_group by (blast dest: group_match_sound)
    with Cons.IH [OF v(4)] Rest show ?thesis by auto
  qed
qed (auto split: if_splits)

lemma match_complete: "render ts ps = Some t \<Longrightarrow> ends t s \<Longrightarrow> match_toks ts s \<noteq> None"
proof (induction ts ps arbitrary: t s rule: render.induct)
  case (3 n ts m v ps)
  then obtain t' s' where "render ts ps = Some t'" "v \<noteq> []" "CHR ''/'' \<notin> set v" "s = v @ s'" "ends t' s'"
    by (auto simp: ends_def split: if_splits)
  moreover from calculation 3 have "match_toks ts s' \<noteq> None" by (auto split: if_splits)
  ultimately show ?case
    using group_match_complete [of v "\<lambda>c. c \<noteq> CHR ''/''" "match_toks ts" s' n] by (auto simp: match_group simp del: match_toks.simps)
next
  case (4 n ts m v ps)
  then obtain t' s' where "render ts ps = Some t'" "v \<noteq> []" "newline \<notin> set v" "s = v @ s'" "ends t' s'"
    by (auto simp: ends_def split: if_splits)
  moreover from calculation 4 have "match_toks ts s' \<noteq> None" by (auto split: if_splits)
  ultimately show ?case
    using group_match_complete [of v "\<lambda>c. c \<noteq> newline" "match_toks ts" s' n] by (auto simp: match_group simp del: match_toks.simps)
qed auto

text \<open>A path is served by a pattern when it is a rendering of it, up to one final newline.\<close>

definition serves :: "string \<Rightarrow> string \<Rightarrow> bool" where
  "serves pattern path \<longleftrightarrow> (\<exists>ps t. render (compile_pattern pattern) ps = Some t \<and> ends t path)"

lemma serves_match: "serves pattern path \<longleftrightarrow> match_toks (compile_pattern pattern) path \<noteq> None"
  using match_sound match_complete by (fastforce simp: serves_def)

text \<open>
  C18. The WebSocket door dispatches to the first registered route whose pattern the path is a rendering
  of, with values that render back to the path; it closes with code 1000 exactly when there is none.
\<close>

theorem ws_door_first_match:
  "case ws_door (door_table rds) path of
     Ws_close code \<Rightarrow> code = 1000 \<and> (\<forall>(p, e) \<in> set rds. p \<noteq> [] \<longrightarrow> \<not> serves p path)
   | Ws_endpoint e ps \<Rightarrow>
       (\<exists>pre p post. rds = pre @ (p, e) # post \<and> p \<noteq> []
          \<and> (\<exists>t. render (compile_pattern p) ps = Some t \<and> ends t path)
          \<and> (\<forall>(q, e') \<in> set pre. q \<noteq> [] \<longrightarrow> \<not> serves q path))"
proof (induction rds)
  case (Cons rd rds)
  obtain p e where rd: "rd = (p, e)" by (cases rd)
  show ?case
  proof (cases "p \<noteq> [] \<and> serves p path")
    case True
    then obtain ps where ps: "match_toks (compile_pattern p) path = Some ps" by (auto simp: serves_match)
    with True rd have "ws_door (door_table (rd # rds)) path = Ws_endpoint e ps" by (simp add: door_table_def)
    moreover have "rd # rds = [] @ (p, e) # rds" using rd by simp
    ultimately show ?thesis using True match_sound [OF ps] by fastforce
  next
    case False
    then have step: "ws_door (door_table (rd # rds)) path = ws_door (door_table rds) path"
      using rd by (auto simp: door_table_def serves_match)
    show ?thesis
    proof (cases "ws_door (door_table rds) path")
      case (Ws_endpoint e' ps)
      with Cons.IH obtain pre q post where "rds = pre @ (q, e') # post" "q \<noteq> []"
          "\<exists>t. render (compile_pattern q) ps = Some t \<and> ends t path" "\<forall>(q, e') \<in> set pre. q \<noteq> [] \<longrightarrow> \<not> serves q path"
        by auto
      with step Ws_endpoint False rd show ?thesis by (auto intro!: exI [of _ "rd # pre"])
    qed (use Cons.IH step False rd in auto)
  qed
qed (simp add: door_table_def)

theorem ws_door_first_match_witness:
  "ws_door (door_table [(''/a'', 1 :: nat), (''/{r}'', 2), (''/b'', 3)]) ''/b'' = Ws_endpoint 2 [(''r'', ''b'')]
   \<and> \<not> serves ''/a'' ''/b''"
proof -
  have w: "ws_door (door_table [(''/a'', 1 :: nat), (''/{r}'', 2), (''/b'', 3)]) ''/b'' = Ws_endpoint 2 [(''r'', ''b'')]"
    by (simp add: door_table_def split_param_def name_char_def)
  with ws_door_first_match [of "[(''/a'', 1 :: nat), (''/{r}'', 2), (''/b'', 3)]" "''/b''"] show ?thesis
    by (auto simp: Cons_eq_append_conv)
qed

text \<open>Patterns in which every segment group ends at a separator or at the end of the path.\<close>

fun separated :: "tok list \<Rightarrow> bool" where
  "separated [] \<longleftrightarrow> True"
| "separated (Chr c # ts) \<longleftrightarrow> separated ts"
| "separated (Seg n # ts) \<longleftrightarrow> (ts = [] \<or> hd ts = Chr (CHR ''/'')) \<and> separated ts"
| "separated (Rest n # ts) \<longleftrightarrow> ts = []"

text \<open>
  C19. On a pattern whose groups are separated, matching is the inverse of building the path: the match
  of a rendering returns exactly the values it was rendered with.
\<close>

theorem match_render_roundtrip:
  "separated ts \<Longrightarrow> render ts ps = Some s \<Longrightarrow> match_toks ts s = Some ps"
proof (induction ts ps arbitrary: s rule: render.induct)
  case (3 n ts m v ps)
  then obtain t where t: "m = n" "v \<noteq> []" "CHR ''/'' \<notin> set v" "render ts ps = Some t" "s = v @ t"
    by (auto split: if_splits)
  have "t = [] \<or> hd t = CHR ''/''"
    using 3(2) t(4) by (cases ts; cases ps) auto
  then have "takeWhile (\<lambda>c. c \<noteq> CHR ''/'') (v @ t) = v"
    using t(3) by (cases t) (auto simp: takeWhile_append2 takeWhile_tail)
  from group_match_greedy [OF t(2) this, of "match_toks ts" ps n] 3 t show ?case
    by (simp add: match_group del: match_toks.simps)
next
  case (4 n ts m v ps)
  then obtain t where t: "m = n" "v \<noteq> []" "newline \<notin> set v" "render ts ps = Some t" "s = v @ t" "ts = []"
    by (auto split: if_splits)
  then have "ps = []" "t = []" by (cases ps; auto)+
  moreover have "takeWhile (\<lambda>c. c \<noteq> newline) v = v" using t(3) by (auto simp: takeWhile_eq_all_conv)
  ultimately show ?case
    using group_match_greedy [OF t(2), of "\<lambda>c. c \<noteq> newline" "[]" "match_toks []" "[]" n] t
    by (simp add: match_group del: match_toks.simps(2))
qed auto

theorem match_render_roundtrip_witness:
  "match_toks (compile_pattern ''/rooms/{room}/{rest:path}'') ''/rooms/7/a/b'' = Some [(''room'', ''7''), (''rest'', ''a/b'')]"
proof -
  have c: "compile_pattern ''/rooms/{room}/{rest:path}''
      = map Chr ''/rooms/'' @ [Seg ''room'', Chr (CHR ''/''), Rest ''rest'']"
    by (simp add: split_param_def name_char_def conv_char_def)
  show ?thesis
    unfolding c by (rule match_render_roundtrip) (simp_all add: newline_def)
qed

end
