(* ===== verification/Collect.thy ===== *)
theory Collect
  imports Url_Path "HOL-Library.List_Lexorder" "HOL-Library.Char_ord"
begin

text \<open>
  Flattening a tree of routers, included routers and mounted applications into the route list handed
  to the server (\<open>_collect_routes_from_router\<close>, \<open>_collect_all_routes\<close>, \<open>_build_asgi_mount_routes\<close>),
  the merging of dependencies and the operation-id cascade it uses, \<open>include_router\<close>, and the two
  \<open>url_path_for\<close> methods.  Dependencies, callbacks, response classes and operation-id functions are
  opaque and named by strings; \<open>gid_env\<close> is what calling an operation-id function gives.
\<close>

section \<open>Data\<close>

text \<open>A keyword that is \<open>None\<close>, FastAPI's \<open>Default(...)\<close> placeholder, or a value.\<close>

datatype 'a setting = Unset | Placeholder | Set 'a

fun unset_to_none :: "'a setting \<Rightarrow> 'a option" where
  "unset_to_none (Set v) = Some v"
| "unset_to_none _ = None"

fun or_else :: "'a option \<Rightarrow> 'a option \<Rightarrow> 'a option" where
  "or_else (Some v) _ = Some v"
| "or_else None w = w"

fun not_none :: "'a setting \<Rightarrow> 'a setting \<Rightarrow> 'a setting" where
  "not_none Unset w = w"
| "not_none v w = v"

datatype route_kind = Websocket | Passthrough | Custom_handler | Normal

record rinfo =
  r_path :: string
  r_name :: string
  r_methods :: "string list"
  r_tags :: "string list"
  r_deps :: "string list"
  r_responses :: "string \<rightharpoonup> string"
  r_response_class :: "string setting"
  r_deprecated :: bool
  r_operation_id :: "string option"
  r_in_schema :: bool
  r_callbacks :: "string list"
  r_gid :: "string setting"
  r_strict :: "bool setting"
  r_status :: "nat option"
  r_bypass :: bool
  r_customized :: bool
  r_kind :: route_kind

record rattrs =
  ra_prefix :: string
  ra_tags :: "string list"
  ra_deps :: "string list"
  ra_responses :: "string \<rightharpoonup> string"
  ra_deprecated :: "bool option"
  ra_drc :: "string setting"
  ra_gid :: "string setting"
  ra_callbacks :: "string list"
  ra_strict :: "bool setting"
  ra_customized :: bool
  ra_mounts :: "string list"

record imeta =
  i_prefix :: string
  i_tags :: "string list"
  i_deps :: "string list"
  i_responses :: "string \<rightharpoonup> string"
  i_deprecated :: "bool option"
  i_in_schema :: bool
  i_drc :: "string option"
  i_gid :: "string setting"
  i_callbacks :: "string list"

record aattrs =
  a_deps :: "string list"
  a_responses :: "string \<rightharpoonup> string"
  a_callbacks :: "string list"
  a_drc :: "string option"
  a_gid :: "string setting"
  a_strict :: bool
  a_openapi_url :: "string option"
  a_root_path :: string

datatype api_router = APIRouter rattrs "entry list" "incl list"
and entry = Marker | Pathless | Route rinfo | Mount string mounted
and incl = Include api_router imeta
and mounted = Mounted_app fapp | Mounted_router api_router | Mounted_asgi | Not_callable
and fapp = App aattrs api_router "incl list" "mnt list"
and mnt = Mount_at string mounted

primrec attrs_of :: "api_router \<Rightarrow> rattrs" where
  "attrs_of (APIRouter ra es incs) = ra"

primrec app_attrs_of :: "fapp \<Rightarrow> aattrs" where
  "app_attrs_of (App A r incs ms) = A"

text \<open>A route dictionary; the OpenAPI part is absent on WebSocket and on generated routes.\<close>

record rd_meta =
  m_status :: nat
  m_responses :: "string \<rightharpoonup> string"
  m_response_class :: "string option"
  m_deprecated :: bool
  m_operation_id :: "string option"
  m_in_schema :: bool
  m_callbacks :: "string list"
  m_lax :: bool

record rd =
  rd_path :: string
  rd_methods :: "string list"
  rd_name :: string
  rd_tags :: "string list"
  rd_websocket :: bool
  rd_deps :: "string list"
  rd_exclude :: bool
  rd_from_mount :: "string option"
  rd_meta :: "rd_meta option"
  rd_route :: "rinfo option"

text \<open>The keyword arguments a router is collected with.\<close>

record ctx =
  c_prefix :: string
  c_tags :: "string list"
  c_deps :: "string list"
  c_responses :: "string \<rightharpoonup> string"
  c_deprecated :: "bool option"
  c_in_schema :: bool
  c_drc :: "string option"
  c_gid :: "string setting"
  c_callbacks :: "string list"

record gid_env =
  g_one :: "string \<Rightarrow> rinfo \<Rightarrow> string option"
  g_two :: "string \<Rightarrow> rinfo \<Rightarrow> string \<Rightarrow> string"

section \<open>One route\<close>

definition slash :: "char \<Rightarrow> bool" where
  "slash c \<longleftrightarrow> c = CHR ''/''"

definition norm_path :: "string \<Rightarrow> string" where
  "norm_path p =
     (if p = ''/'' then p
      else (let q = ''/'' @ strip_by slash p
            in if p \<noteq> [] \<and> last p = CHR ''/'' then q @ ''/'' else q))"

definition get_all_dependencies_for_route :: "aattrs \<Rightarrow> rattrs \<Rightarrow> rinfo \<Rightarrow> string list \<Rightarrow> string list" where
  "get_all_dependencies_for_route A ra r include_deps =
     (if r_bypass r then [] else a_deps A @ include_deps @ ra_deps ra @ r_deps r)"

definition apply_generate_unique_id :: "gid_env \<Rightarrow> aattrs \<Rightarrow> rinfo \<Rightarrow> string setting \<Rightarrow> rattrs \<Rightarrow> string option" where
  "apply_generate_unique_id g A r include_fn ra =
     (case or_else (unset_to_none (r_gid r))
             (or_else (unset_to_none (ra_gid ra)) (or_else (unset_to_none include_fn) (unset_to_none (a_gid A)))) of
        None \<Rightarrow> None
      | Some fn \<Rightarrow>
          if \<not> r_in_schema r then None
          else case g_one g fn r of
                 Some oid \<Rightarrow> Some oid
               | None \<Rightarrow> Some (g_two g fn r (py_lower (case r_methods r of [] \<Rightarrow> ''GET'' | m # _ \<Rightarrow> m))))"

definition merged_responses :: "aattrs \<Rightarrow> ctx \<Rightarrow> rattrs \<Rightarrow> rinfo \<Rightarrow> (string \<rightharpoonup> string)" where
  "merged_responses A c ra r = a_responses A ++ c_responses c ++ ra_responses ra ++ r_responses r"

definition effective_deprecated :: "ctx \<Rightarrow> rattrs \<Rightarrow> rinfo \<Rightarrow> bool" where
  "effective_deprecated c ra r \<longleftrightarrow> r_deprecated r \<or> ra_deprecated ra = Some True \<or> c_deprecated c = Some True"

definition effective_operation_id :: "gid_env \<Rightarrow> aattrs \<Rightarrow> ctx \<Rightarrow> rattrs \<Rightarrow> rinfo \<Rightarrow> string option" where
  "effective_operation_id g A c ra r =
     or_else (case r_operation_id r of Some [] \<Rightarrow> None | oid \<Rightarrow> oid) (apply_generate_unique_id g A r (c_gid c) ra)"

definition effective_response_class :: "aattrs \<Rightarrow> ctx \<Rightarrow> rattrs \<Rightarrow> rinfo \<Rightarrow> string option" where
  "effective_response_class A c ra r =
     or_else (unset_to_none (r_response_class r)) (or_else (unset_to_none (ra_drc ra)) (or_else (c_drc c) (a_drc A)))"

definition effective_strict :: "aattrs \<Rightarrow> rattrs \<Rightarrow> rinfo \<Rightarrow> bool" where
  "effective_strict A ra r =
     (case unset_to_none (r_strict r) of
        Some b \<Rightarrow> b
      | None \<Rightarrow> (case unset_to_none (ra_strict ra) of Some b \<Rightarrow> b | None \<Rightarrow> a_strict A))"

definition status_or_200 :: "nat option \<Rightarrow> nat" where
  "status_or_200 s = (case s of Some n \<Rightarrow> if n = 0 then 200 else n | None \<Rightarrow> 200)"

text \<open>The OpenAPI part of the three kinds of HTTP route.\<close>

definition passthrough_meta :: "aattrs \<Rightarrow> ctx \<Rightarrow> rattrs \<Rightarrow> rinfo \<Rightarrow> rd_meta" where
  "passthrough_meta A c ra r = \<lparr>
     m_status = status_or_200 (r_status r),
     m_responses = merged_responses A c ra r,
     m_response_class = unset_to_none (r_response_class r),
     m_deprecated = effective_deprecated c ra r,
     m_operation_id = r_operation_id r,
     m_in_schema = (r_in_schema r \<and> c_in_schema c),
     m_callbacks = c_callbacks c @ ra_callbacks ra @ r_callbacks r,
     m_lax = False\<rparr>"

definition custom_meta :: "gid_env \<Rightarrow> aattrs \<Rightarrow> ctx \<Rightarrow> rattrs \<Rightarrow> rinfo \<Rightarrow> rd_meta" where
  "custom_meta g A c ra r = \<lparr>
     m_status = status_or_200 (r_status r),
     m_responses = merged_responses A c ra r,
     m_response_class = unset_to_none (r_response_class r),
     m_deprecated = effective_deprecated c ra r,
     m_operation_id = effective_operation_id g A c ra r,
     m_in_schema = (r_in_schema r \<and> c_in_schema c),
     m_callbacks = c_callbacks c @ ra_callbacks ra @ r_callbacks r,
     m_lax = False\<rparr>"

definition normal_meta :: "gid_env \<Rightarrow> aattrs \<Rightarrow> ctx \<Rightarrow> rattrs \<Rightarrow> rinfo \<Rightarrow> rd_meta" where
  "normal_meta g A c ra r = \<lparr>
     m_status = status_or_200 (r_status r),
     m_responses = merged_responses A c ra r,
     m_response_class = effective_response_class A c ra r,
     m_deprecated = effective_deprecated c ra r,
     m_operation_id = effective_operation_id g A c ra r,
     m_in_schema = (r_in_schema r \<and> c_in_schema c),
     m_callbacks = c_callbacks c @ ra_callbacks ra @ r_callbacks r,
     m_lax = (\<not> effective_strict A ra r)\<rparr>"

definition base_rd :: "ctx \<Rightarrow> rattrs \<Rightarrow> rinfo \<Rightarrow> rd" where
  "base_rd c ra r = \<lparr>
     rd_path = norm_path (c_prefix c @ ra_prefix ra @ r_path r),
     rd_methods = sort (r_methods r),
     rd_name = r_name r,
     rd_tags = c_tags c @ ra_tags ra @ r_tags r,
     rd_websocket = False,
     rd_deps = [],
     rd_exclude = r_customized r,
     rd_from_mount = None,
     rd_meta = None,
     rd_route = None\<rparr>"

definition websocket_rd :: "aattrs \<Rightarrow> ctx \<Rightarrow> rattrs \<Rightarrow> rinfo \<Rightarrow> rd" where
  "websocket_rd A c ra r = (base_rd c ra r)\<lparr>
     rd_methods := [''GET''], rd_websocket := True, rd_exclude := False,
     rd_deps := get_all_dependencies_for_route A ra r (c_deps c)\<rparr>"

definition passthrough_rd :: "aattrs \<Rightarrow> ctx \<Rightarrow> rattrs \<Rightarrow> rinfo \<Rightarrow> rd" where
  "passthrough_rd A c ra r = (base_rd c ra r)\<lparr>
     rd_methods := (if r_methods r = [] then [''GET''] else r_methods r),
     rd_meta := Some (passthrough_meta A c ra r)\<rparr>"

definition custom_rd :: "gid_env \<Rightarrow> aattrs \<Rightarrow> ctx \<Rightarrow> rattrs \<Rightarrow> rinfo \<Rightarrow> rd" where
  "custom_rd g A c ra r = (base_rd c ra r)\<lparr>rd_meta := Some (custom_meta g A c ra r)\<rparr>"

definition normal_rd :: "gid_env \<Rightarrow> aattrs \<Rightarrow> ctx \<Rightarrow> rattrs \<Rightarrow> rinfo \<Rightarrow> rd" where
  "normal_rd g A c ra r = (base_rd c ra r)\<lparr>
     rd_deps := get_all_dependencies_for_route A ra r (c_deps c),
     rd_meta := Some (normal_meta g A c ra r), rd_route := Some r\<rparr>"

definition route_rd :: "gid_env \<Rightarrow> aattrs \<Rightarrow> ctx \<Rightarrow> rattrs \<Rightarrow> rinfo \<Rightarrow> rd" where
  "route_rd g A c ra r =
     (case r_kind r of
        Websocket \<Rightarrow> websocket_rd A c ra r
      | Passthrough \<Rightarrow> passthrough_rd A c ra r
      | Custom_handler \<Rightarrow> custom_rd g A c ra r
      | Normal \<Rightarrow> normal_rd g A c ra r)"

lemmas rd_defs = route_rd_def websocket_rd_def passthrough_rd_def custom_rd_def normal_rd_def base_rd_def
  passthrough_meta_def custom_meta_def normal_meta_def

section \<open>Includes and mounts\<close>

definition child_ctx :: "ctx \<Rightarrow> rattrs \<Rightarrow> imeta \<Rightarrow> ctx" where
  "child_ctx c ra m = \<lparr>
     c_prefix = c_prefix c @ ra_prefix ra @ i_prefix m,
     c_tags = c_tags c @ ra_tags ra @ i_tags m,
     c_deps = c_deps c @ ra_deps ra @ i_deps m,
     c_responses = c_responses c ++ ra_responses ra ++ i_responses m,
     c_deprecated = or_else (i_deprecated m) (c_deprecated c),
     c_in_schema = (c_in_schema c \<and> i_in_schema m),
     c_drc = or_else (i_drc m) (or_else (unset_to_none (ra_drc ra)) (c_drc c)),
     c_gid = not_none (i_gid m) (not_none (ra_gid ra) (c_gid c)),
     c_callbacks = c_callbacks c @ ra_callbacks ra @ i_callbacks m\<rparr>"

text \<open>The metadata \<open>include_router\<close> stores: the included router's own flag fills an unset \<open>deprecated\<close>.\<close>

definition include_meta :: "rattrs \<Rightarrow> imeta \<Rightarrow> imeta" where
  "include_meta ra kwargs = kwargs\<lparr>i_deprecated := or_else (i_deprecated kwargs) (ra_deprecated ra)\<rparr>"

definition root_ctx :: "string list \<Rightarrow> ctx" where
  "root_ctx callbacks = \<lparr>
     c_prefix = [], c_tags = [], c_deps = [], c_responses = Map.empty, c_deprecated = None, c_in_schema = True,
     c_drc = None, c_gid = Unset, c_callbacks = callbacks\<rparr>"

definition include_ctx :: "string list \<Rightarrow> imeta \<Rightarrow> ctx" where
  "include_ctx callbacks m = \<lparr>
     c_prefix = i_prefix m, c_tags = i_tags m, c_deps = i_deps m, c_responses = i_responses m,
     c_deprecated = i_deprecated m, c_in_schema = i_in_schema m, c_drc = i_drc m, c_gid = i_gid m,
     c_callbacks = callbacks @ i_callbacks m\<rparr>"

definition remount :: "string \<Rightarrow> string \<Rightarrow> rd \<Rightarrow> rd" where
  "remount pref label r =
     (let p = pref @ (if rd_path r = ''/'' then [] else rd_path r)
      in r\<lparr>rd_path := if p = [] then ''/'' else p, rd_from_mount := Some label\<rparr>)"

definition exclude_all :: "bool \<Rightarrow> rd list \<Rightarrow> rd list" where
  "exclude_all b rs = (if b then map (\<lambda>r. r\<lparr>rd_exclude := True\<rparr>) rs else rs)"

definition http_methods :: "string list" where
  "http_methods = [''GET'', ''POST'', ''PUT'', ''PATCH'', ''DELETE'', ''HEAD'', ''OPTIONS'']"

definition asgi_mount_name :: "string \<Rightarrow> string" where
  "asgi_mount_name clean =
     (let base = map (\<lambda>c. if c = CHR ''/'' then CHR ''_'' else c) (strip_by slash clean)
      in ''__asgi_mount_'' @ (if base = [] then ''root'' else base) @ ''__'')"

fun add_variants :: "string \<Rightarrow> string \<Rightarrow> string list \<Rightarrow> rd list \<Rightarrow> rd list" where
  "add_variants clean name [] out = out"
| "add_variants clean name (p # ps) out =
     (if p \<in> set (map rd_path out) then add_variants clean name ps out
      else add_variants clean name ps
        (out @ map (\<lambda>mt. \<lparr>rd_path = p, rd_methods = [mt], rd_name = name, rd_tags = [], rd_websocket = False,
                          rd_deps = [], rd_exclude = False, rd_from_mount = Some clean, rd_meta = None, rd_route = None\<rparr>) http_methods))"

definition build_asgi_mount_routes :: "string \<Rightarrow> rd list" where
  "build_asgi_mount_routes mount_path =
     (let clean = rstrip_by slash mount_path; root = (if clean = [] then ''/'' else clean)
      in add_variants clean (asgi_mount_name clean)
           [root, if clean = [] then ''/'' else clean, clean @ ''/{__asgi_rest__:path}''] [])"

definition sub_openapi_rd :: "string \<Rightarrow> aattrs \<Rightarrow> rd list" where
  "sub_openapi_rd mount_path B =
     (case a_openapi_url B of
        None \<Rightarrow> []
      | Some [] \<Rightarrow> []
      | Some url \<Rightarrow>
          [\<lparr>rd_path = rstrip_by slash mount_path @ url, rd_methods = [''GET''], rd_name = ''openapi'', rd_tags = [],
            rd_websocket = False, rd_deps = [], rd_exclude = False, rd_from_mount = Some mount_path, rd_meta = None, rd_route = None\<rparr>])"

section \<open>The walk\<close>

text \<open>
  Each function returns the collected routes and whether the walk met an entry the server cannot
  dispatch (\<open>_door_needs_route_fallback\<close> of the application that collects).
\<close>

function collect_router :: "gid_env \<Rightarrow> aattrs \<Rightarrow> api_router \<Rightarrow> ctx \<Rightarrow> rd list \<times> bool"
  and collect_entries :: "gid_env \<Rightarrow> aattrs \<Rightarrow> rattrs \<Rightarrow> entry list \<Rightarrow> ctx \<Rightarrow> rd list \<times> bool"
  and collect_includes :: "gid_env \<Rightarrow> aattrs \<Rightarrow> rattrs \<Rightarrow> incl list \<Rightarrow> ctx \<Rightarrow> rd list \<times> bool"
  and collect_mounted :: "gid_env \<Rightarrow> aattrs \<Rightarrow> mounted \<Rightarrow> string \<Rightarrow> ctx \<Rightarrow> rd list \<times> bool"
  and collect_app :: "gid_env \<Rightarrow> fapp \<Rightarrow> rd list \<times> bool"
  and collect_top :: "gid_env \<Rightarrow> aattrs \<Rightarrow> incl list \<Rightarrow> rd list \<times> bool"
  and collect_mounts :: "gid_env \<Rightarrow> aattrs \<Rightarrow> mnt list \<Rightarrow> rd list \<times> bool"
  and collect_mount :: "gid_env \<Rightarrow> aattrs \<Rightarrow> mounted \<Rightarrow> string \<Rightarrow> rd list \<times> bool"
  where
  "collect_router g A (APIRouter ra es incs) c =
     (case collect_entries g A ra es c of (rs, f) \<Rightarrow>
      case collect_includes g A ra incs c of (rs', f') \<Rightarrow> (rs @ rs', f \<or> f'))"
| "collect_entries g A ra [] c = ([], False)"
| "collect_entries g A ra (Marker # es) c = collect_entries g A ra es c"
| "collect_entries g A ra (Pathless # es) c =
     (case collect_entries g A ra es c of (rs, f) \<Rightarrow> (rs, True))"
| "collect_entries g A ra (Route r # es) c =
     (case collect_entries g A ra es c of (rs, f) \<Rightarrow> (route_rd g A c ra r # rs, r_customized r \<or> f))"
| "collect_entries g A ra (Mount p md # es) c =
     (case collect_mounted g A md
             (let q = norm_path (c_prefix c @ ra_prefix ra @ p) in if q = ''/'' then q else rstrip_by slash q) c of
        (rs, f) \<Rightarrow> case collect_entries g A ra es c of (rs', f') \<Rightarrow> (rs @ rs', f \<or> f'))"
| "collect_includes g A ra [] c = ([], False)"
| "collect_includes g A ra (Include r m # is) c =
     (case collect_router g A r (child_ctx c ra m) of (rs, f) \<Rightarrow>
      case collect_includes g A ra is c of (rs', f') \<Rightarrow>
        (exclude_all (ra_customized (attrs_of r)) rs @ rs', ra_customized (attrs_of r) \<or> f \<or> f'))"
| "collect_mounted g A (Mounted_app a) mp c =
     (map (remount (if mp = ''/'' then [] else rstrip_by slash mp) mp) (fst (collect_app g a)), False)"
| "collect_mounted g A (Mounted_router r) mp c =
     collect_router g A r (c\<lparr>c_prefix := mp, c_tags := []\<rparr>)"
| "collect_mounted g A Mounted_asgi mp c = (build_asgi_mount_routes mp, False)"
| "collect_mounted g A Not_callable mp c = ([], False)"
| "collect_app g (App A r incs ms) =
     (case collect_router g A r (root_ctx (a_callbacks A)) of (rs, f) \<Rightarrow>
      case collect_top g A incs of (rs', f') \<Rightarrow>
      case collect_mounts g A ms of (rs'', f'') \<Rightarrow> (rs @ rs' @ rs'', f \<or> f' \<or> f''))"
| "collect_top g A [] = ([], False)"
| "collect_top g A (Include r m # is) =
     (case collect_router g A r (include_ctx (a_callbacks A) m) of (rs, f) \<Rightarrow>
      case collect_top g A is of (rs', f') \<Rightarrow>
        (exclude_all (ra_customized (attrs_of r)) rs @ rs', ra_customized (attrs_of r) \<or> f \<or> f'))"
| "collect_mounts g A [] = ([], False)"
| "collect_mounts g A (Mount_at mp md # ms) =
     (case collect_mount g A md mp of (rs, f) \<Rightarrow>
      case collect_mounts g A ms of (rs', f') \<Rightarrow> (rs @ rs', f \<or> f'))"
| "collect_mount g A (Mounted_app a) mp =
     (map (remount (rstrip_by slash mp) mp) (fst (collect_app g a)) @ sub_openapi_rd mp (app_attrs_of a), False)"
| "collect_mount g A (Mounted_router r) mp = collect_router g A r ((root_ctx [])\<lparr>c_prefix := mp\<rparr>)"
| "collect_mount g A Mounted_asgi mp = (build_asgi_mount_routes mp, False)"
| "collect_mount g A Not_callable mp = ([], False)"
  by pat_completeness auto

termination
  by size_change

section \<open>Include markers and operation ids\<close>

text \<open>
  \<open>_normalize_gen_ids\<close>, applied to every router that is included: it replaces unset keywords by
  FastAPI's placeholder in the whole subtree.
\<close>

definition default_setting :: "'a setting \<Rightarrow> 'a setting" where
  "default_setting v = (if v = Unset then Placeholder else v)"

definition fix_entry :: "entry \<Rightarrow> entry" where
  "fix_entry e =
     (case e of
        Route r \<Rightarrow> if r_kind r \<in> {Normal, Custom_handler} then Route (r\<lparr>r_gid := default_setting (r_gid r)\<rparr>) else e
      | _ \<Rightarrow> e)"

fun normalize_gen_ids :: "api_router \<Rightarrow> api_router"
  and normalize_includes :: "incl list \<Rightarrow> incl list" where
  "normalize_gen_ids (APIRouter ra es incs) =
     APIRouter (ra\<lparr>ra_gid := default_setting (ra_gid ra), ra_drc := default_setting (ra_drc ra),
                  ra_strict := default_setting (ra_strict ra)\<rparr>)
       (map fix_entry es) (normalize_includes incs)"
| "normalize_includes [] = []"
| "normalize_includes (Include r m # is) = Include (normalize_gen_ids r) m # normalize_includes is"

section \<open>OpenAPI routes\<close>

text \<open>What \<open>_openapi_real_routes\<close> rebuilds a documented route with.\<close>

record oa_route =
  oa_path :: string
  oa_methods :: "string list"
  oa_tags :: "string list"
  oa_deps :: "string list"
  oa_responses :: "string \<rightharpoonup> string"
  oa_deprecated :: bool
  oa_operation_id :: "string option"
  oa_in_schema :: bool

definition openapi_methods :: "string list" where
  "openapi_methods = [''GET'', ''POST'', ''PUT'', ''PATCH'', ''DELETE'', ''OPTIONS'', ''HEAD'', ''TRACE'']"

definition truthy_or :: "'a list \<Rightarrow> 'a list \<Rightarrow> 'a list" where
  "truthy_or xs ys = (if xs = [] then ys else xs)"

definition openapi_real_route :: "aattrs \<Rightarrow> rd \<Rightarrow> oa_route option" where
  "openapi_real_route A r =
     (if rd_websocket r then None
      else case rd_route r of
             None \<Rightarrow> None
           | Some x \<Rightarrow>
               (case rd_meta r of
                  None \<Rightarrow> None
                | Some m \<Rightarrow> Some \<lparr>
                    oa_path = rd_path r,
                    oa_methods = truthy_or (filter (\<lambda>mt. mt \<in> set openapi_methods) (rd_methods r)) (rd_methods r),
                    oa_tags = truthy_or (rd_tags r) (r_tags x),
                    oa_deps = truthy_or (rd_deps r) (r_deps x),
                    oa_responses = a_responses A ++ (if m_responses m = Map.empty then r_responses x else m_responses m),
                    oa_deprecated = (m_deprecated m \<or> r_deprecated x),
                    oa_operation_id = or_else (case m_operation_id m of Some [] \<Rightarrow> None | v \<Rightarrow> v) (r_operation_id x),
                    oa_in_schema = r_in_schema x\<rparr>))"

definition from_mounted :: "rd \<Rightarrow> bool" where
  "from_mounted r \<longleftrightarrow> (case rd_from_mount r of None \<Rightarrow> False | Some l \<Rightarrow> l \<noteq> [])"

definition openapi_routes :: "gid_env \<Rightarrow> fapp \<Rightarrow> oa_route list" where
  "openapi_routes g a = List.map_filter (openapi_real_route (app_attrs_of a))
     (filter (\<lambda>r. \<not> from_mounted r) (fst (collect_app g a)))"

text \<open>The servers of \<open>openapi()\<close>, by their URLs.\<close>

definition effective_servers :: "string \<Rightarrow> bool \<Rightarrow> string list \<Rightarrow> string list" where
  "effective_servers root_path in_servers servers =
     (if root_path \<noteq> [] \<and> in_servers
      then if servers = [] then [root_path]
           else if root_path \<notin> set servers then root_path # servers else servers
      else servers)"

section \<open>URL building\<close>

text \<open>
  \<open>res e\<close> is what the \<open>url_path_for\<close> of a route object that is not a FastAPI route returns for the
  wanted name and parameters, \<open>None\<close> when it has none or raises \<open>NoMatchFound\<close> or a \<open>LookupError\<close>.
\<close>

fun url_in_entries :: "(entry \<Rightarrow> string option) \<Rightarrow> (string \<rightharpoonup> string) \<Rightarrow> string \<Rightarrow> string \<Rightarrow> entry list \<Rightarrow> string py option" where
  "url_in_entries res params name pref [] = None"
| "url_in_entries res params name pref (e # es) =
     (case (case e of Route r \<Rightarrow> if r_name r = name then Some (fill_path params (pref @ r_path r)) else None | _ \<Rightarrow> None) of
        Some result \<Rightarrow> Some result
      | None \<Rightarrow>
          (case (case e of Route r \<Rightarrow> if r_kind r \<in> {Normal, Custom_handler} then None else res e | _ \<Rightarrow> res e) of
             Some u \<Rightarrow> Some (Inr (pref @ u))
           | None \<Rightarrow> url_in_entries res params name pref es))"

fun router_url_path_for :: "(entry \<Rightarrow> string option) \<Rightarrow> (string \<rightharpoonup> string) \<Rightarrow> string \<Rightarrow> api_router \<Rightarrow> string py"
  and url_in_includes :: "(entry \<Rightarrow> string option) \<Rightarrow> (string \<rightharpoonup> string) \<Rightarrow> string \<Rightarrow> string \<Rightarrow> incl list \<Rightarrow> string py" where
  "router_url_path_for res params name (APIRouter ra es incs) =
     (case url_in_entries res params name (ra_prefix ra) es of
        Some result \<Rightarrow> result
      | None \<Rightarrow> url_in_includes res params name (ra_prefix ra) incs)"
| "url_in_includes res params name pref [] = Inl LookupError"
| "url_in_includes res params name pref (Include r m # is) =
     (case router_url_path_for res params name r of
        Inr u \<Rightarrow> Inr (pref @ i_prefix m @ u)
      | Inl _ \<Rightarrow> url_in_includes res params name pref is)"

definition with_root :: "string \<Rightarrow> string \<Rightarrow> string" where
  "with_root root p = (if root = [] then p else rstrip_by slash root @ p)"

fun app_url_path_for :: "gid_env \<Rightarrow> (entry \<Rightarrow> string option) \<Rightarrow> (string \<rightharpoonup> string) \<Rightarrow> string \<Rightarrow> fapp \<Rightarrow> string py" where
  "app_url_path_for g res params name (App A (APIRouter ra es incs) is ms) =
     (case find (\<lambda>r. rd_name r = name) (fst (collect_app g (App A (APIRouter ra es incs) is ms))) of
        Some r \<Rightarrow> (case fill_path params (rd_path r) of Inl e \<Rightarrow> Inl e | Inr p \<Rightarrow> Inr (with_root (a_root_path A) p))
      | None \<Rightarrow> (case first_some res es of Some u \<Rightarrow> Inr (with_root (a_root_path A) u) | None \<Rightarrow> Inl LookupError))"

section \<open>The cascade, declaratively\<close>

text \<open>
  A route of a router tree together with the includes that lead to it: the chain of (router, include)
  pairs from the root, the attributes of the router that holds the route, and the route.
\<close>

type_synonym placed = "(rattrs \<times> imeta) list \<times> rattrs \<times> rinfo"

definition routes_of :: "entry list \<Rightarrow> rinfo list" where
  "routes_of es = concat (map (\<lambda>e. case e of Route r \<Rightarrow> [r] | _ \<Rightarrow> []) es)"

fun flat :: "(rattrs \<times> imeta) list \<Rightarrow> api_router \<Rightarrow> placed list"
  and flat_includes :: "(rattrs \<times> imeta) list \<Rightarrow> rattrs \<Rightarrow> incl list \<Rightarrow> placed list" where
  "flat ch (APIRouter ra es incs) = map (\<lambda>r. (ch, ra, r)) (routes_of es) @ flat_includes ch ra incs"
| "flat_includes ch ra [] = []"
| "flat_includes ch ra (Include r m # is) = flat (ch @ [(ra, m)]) r @ flat_includes ch ra is"

fun mount_free :: "api_router \<Rightarrow> bool"
  and mount_free_includes :: "incl list \<Rightarrow> bool" where
  "mount_free (APIRouter ra es incs) \<longleftrightarrow> (\<forall>p md. Mount p md \<notin> set es) \<and> mount_free_includes incs"
| "mount_free_includes [] \<longleftrightarrow> True"
| "mount_free_includes (Include r m # is) \<longleftrightarrow> mount_free r \<and> mount_free_includes is"

definition along :: "(rattrs \<Rightarrow> 'a list) \<Rightarrow> (imeta \<Rightarrow> 'a list) \<Rightarrow> (rattrs \<times> imeta) list \<Rightarrow> 'a list" where
  "along f g ch = concat (map (\<lambda>(ra, m). f ra @ g m) ch)"

definition first_set :: "'a option list \<Rightarrow> 'a option" where
  "first_set xs = foldr or_else xs None"

definition placed_spec :: "aattrs \<Rightarrow> string list \<Rightarrow> placed \<Rightarrow> rd \<Rightarrow> bool" where
  "placed_spec A cb pl r \<longleftrightarrow> (case pl of (ch, ra, x) \<Rightarrow>
     rd_path r = norm_path (along ra_prefix i_prefix ch @ ra_prefix ra @ r_path x)
     \<and> rd_name r = r_name x
     \<and> rd_tags r = along ra_tags i_tags ch @ ra_tags ra @ r_tags x
     \<and> (r_kind x \<in> {Websocket, Normal} \<and> \<not> r_bypass x \<longrightarrow>
          rd_deps r = a_deps A @ along ra_deps i_deps ch @ ra_deps ra @ r_deps x)
     \<and> (\<forall>m. rd_meta r = Some m \<longrightarrow>
          m_callbacks m = cb @ along ra_callbacks i_callbacks ch @ ra_callbacks ra @ r_callbacks x
          \<and> m_in_schema m = (r_in_schema x \<and> (\<forall>p \<in> set ch. i_in_schema (snd p)))
          \<and> m_responses m = foldl (++) (a_responses A)
               (along (\<lambda>ra. [ra_responses ra]) (\<lambda>m. [i_responses m]) ch @ [ra_responses ra, r_responses x])
          \<and> m_deprecated m = (r_deprecated x \<or> ra_deprecated ra = Some True
               \<or> first_set (map (i_deprecated \<circ> snd) (rev ch)) = Some True)
          \<and> (r_kind x = Normal \<longrightarrow> m_response_class m =
               first_set ([unset_to_none (r_response_class x), unset_to_none (ra_drc ra)]
                 @ concat (map (\<lambda>(ra, m). [i_drc m, unset_to_none (ra_drc ra)]) (rev ch)) @ [a_drc A]))))"

definition ctx_of :: "(rattrs \<times> imeta) list \<Rightarrow> ctx \<Rightarrow> ctx" where
  "ctx_of ch c0 = foldl (\<lambda>c (ra, m). child_ctx c ra m) c0 ch"

definition strip :: "rd \<Rightarrow> rd" where
  "strip r = r\<lparr>rd_exclude := False\<rparr>"

lemma ctx_of_simps [simp]: "ctx_of [] c0 = c0" "ctx_of (ch @ [(ra, m)]) c0 = child_ctx (ctx_of ch c0) ra m"
  by (simp_all add: ctx_of_def)

lemma along_simps [simp]:
  "along f g [] = []" "along f g (ch @ [(ra, m)]) = along f g ch @ f ra @ g m"
  by (simp_all add: along_def)

lemma first_set_simps [simp]:
  "first_set [] = None" "first_set (x # xs) = or_else x (first_set xs)"
  by (simp_all add: first_set_def)

lemma or_else_assoc [simp]: "or_else (or_else x y) z = or_else x (or_else y z)"
  by (cases x) simp_all

lemma or_else_None [simp]: "or_else x None = x"
  by (cases x) simp_all

lemma first_set_append [simp]: "first_set (xs @ ys) = or_else (first_set xs) (first_set ys)"
  by (induction xs) simp_all

lemma ctx_of_lists:
  "c_prefix (ctx_of ch c0) = c_prefix c0 @ along ra_prefix i_prefix ch"
  "c_tags (ctx_of ch c0) = c_tags c0 @ along ra_tags i_tags ch"
  "c_deps (ctx_of ch c0) = c_deps c0 @ along ra_deps i_deps ch"
  "c_callbacks (ctx_of ch c0) = c_callbacks c0 @ along ra_callbacks i_callbacks ch"
  by (induction ch rule: rev_induct; auto simp: ctx_of_def child_ctx_def along_def)+

lemma ctx_of_schema: "c_in_schema (ctx_of ch c0) \<longleftrightarrow> c_in_schema c0 \<and> (\<forall>p \<in> set ch. i_in_schema (snd p))"
proof (induction ch rule: rev_induct)
  case (snoc x xs)
  then show ?case by (cases x) (auto simp: child_ctx_def)
qed (simp add: ctx_of_def)

lemma ctx_of_responses:
  "c_responses (ctx_of ch c0) = foldl (++) (c_responses c0) (along (\<lambda>ra. [ra_responses ra]) (\<lambda>m. [i_responses m]) ch)"
  by (induction ch rule: rev_induct) (auto simp: ctx_of_def child_ctx_def along_def)

lemma ctx_of_deprecated:
  "c_deprecated (ctx_of ch c0) = or_else (first_set (map (i_deprecated \<circ> snd) (rev ch))) (c_deprecated c0)"
  by (induction ch rule: rev_induct) (auto simp: ctx_of_def child_ctx_def)

lemma ctx_of_drc:
  "c_drc (ctx_of ch c0) =
     or_else (first_set (concat (map (\<lambda>(ra, m). [i_drc m, unset_to_none (ra_drc ra)]) (rev ch)))) (c_drc c0)"
  by (induction ch rule: rev_induct) (auto simp: ctx_of_def child_ctx_def)

lemma foldl_map_add: "(m :: 'a \<rightharpoonup> 'b) ++ foldl (++) m' ds = foldl (++) (m ++ m') ds"
  by (induction ds rule: rev_induct) simp_all

lemma placed_spec_route: "placed_spec A cb (ch, ra, x) (route_rd g A (ctx_of ch (root_ctx cb)) ra x)"
  by (simp add: placed_spec_def rd_defs ctx_of_lists ctx_of_schema ctx_of_responses ctx_of_deprecated
      ctx_of_drc root_ctx_def get_all_dependencies_for_route_def merged_responses_def effective_deprecated_def
      effective_response_class_def foldl_map_add split: route_kind.split)

lemma placed_spec_strip: "placed_spec A cb pl (strip r) \<longleftrightarrow> placed_spec A cb pl r"
  by (simp add: placed_spec_def strip_def)

lemma strip_exclude_all: "map strip (exclude_all b rs) = map strip rs"
  by (simp add: exclude_all_def strip_def)

lemma collect_entries_flat:
  "\<forall>p md. Mount p md \<notin> set es \<Longrightarrow> fst (collect_entries g A ra es c) = map (route_rd g A c ra) (routes_of es)"
proof (induction es)
  case (Cons e es)
  then show ?case by (cases e) (auto simp: routes_of_def split: prod.splits)
qed (simp add: routes_of_def)

lemma collect_flat:
  "mount_free r \<Longrightarrow> map strip (fst (collect_router g A r (ctx_of ch c0)))
     = map (\<lambda>(ch, ra, x). strip (route_rd g A (ctx_of ch c0) ra x)) (flat ch r)"
  "mount_free_includes is \<Longrightarrow> map strip (fst (collect_includes g A ra is (ctx_of ch c0)))
     = map (\<lambda>(ch, ra, x). strip (route_rd g A (ctx_of ch c0) ra x)) (flat_includes ch ra is)"
proof (induction ch r and ch ra "is" rule: flat_flat_includes.induct)
  case (1 ch ra es incs)
  then show ?case
    using collect_entries_flat [of es g A ra "ctx_of ch c0"]
    by (cases "collect_entries g A ra es (ctx_of ch c0)"; cases "collect_includes g A ra incs (ctx_of ch c0)") auto
next
  case (3 ch ra r m "is")
  then show ?case
    by (cases "collect_router g A r (child_ctx (ctx_of ch c0) ra m)"; cases "collect_includes g A ra is (ctx_of ch c0)")
      (auto simp: strip_exclude_all)
qed simp

definition no_attrs :: rattrs where
  "no_attrs = \<lparr>ra_prefix = [], ra_tags = [], ra_deps = [], ra_responses = Map.empty, ra_deprecated = None,
     ra_drc = Unset, ra_gid = Unset, ra_callbacks = [], ra_strict = Unset, ra_customized = False, ra_mounts = []\<rparr>"

lemma include_ctx_child: "include_ctx cb m = child_ctx (root_ctx cb) no_attrs m"
  by (cases "i_gid m") (simp_all add: include_ctx_def child_ctx_def root_ctx_def no_attrs_def)

lemma collect_top_includes: "collect_top g A is = collect_includes g A no_attrs is (root_ctx (a_callbacks A))"
proof (induction "is")
  case (Cons i "is")
  then show ?case by (cases i) (simp add: include_ctx_child)
qed simp

text \<open>The routes of an application without mounts, with the chains that lead to them.\<close>

definition placed_routes :: "api_router \<Rightarrow> incl list \<Rightarrow> placed list" where
  "placed_routes r incs = flat [] r @ flat_includes [] no_attrs incs"

lemma collect_app_flat:
  assumes "mount_free r" and "mount_free_includes incs"
  shows "map strip (fst (collect_app g (App A r incs [])))
    = map (\<lambda>(ch, ra, x). strip (route_rd g A (ctx_of ch (root_ctx (a_callbacks A))) ra x)) (placed_routes r incs)"
  using collect_flat(1) [OF assms(1), of g A "[]" "root_ctx (a_callbacks A)"]
    collect_flat(2) [OF assms(2), of g A no_attrs "[]" "root_ctx (a_callbacks A)"]
  by (cases "collect_router g A r (root_ctx (a_callbacks A))"; cases "collect_includes g A no_attrs incs (root_ctx (a_callbacks A))")
    (simp add: placed_routes_def collect_top_includes)

lemma list_all2_strip:
  assumes "map strip rs = map (\<lambda>pl. strip (f pl)) pls" and "\<And>pl. pl \<in> set pls \<Longrightarrow> P pl (f pl)"
    and "\<And>pl r. P pl (strip r) \<longleftrightarrow> P pl r"
  shows "list_all2 P pls rs"
proof -
  have "list_all2 P pls (map strip rs)"
    unfolding assms(1) using assms(2,3) by (auto simp: list.rel_map intro!: list.rel_refl_strong)
  then show ?thesis by (simp add: list.rel_map assms(3))
qed

lemma collect_app_placed:
  assumes "mount_free r" and "mount_free_includes incs"
  shows "list_all2 (placed_spec A (a_callbacks A)) (placed_routes r incs) (fst (collect_app g (App A r incs [])))"
  by (rule list_all2_strip [OF collect_app_flat [OF assms, of g A, unfolded case_prod_beta]])
    (use placed_spec_route in \<open>auto simp: placed_spec_strip case_prod_beta\<close>)


text \<open>A small application for the examples: a router mounted under two includes.\<close>

definition ex_route :: "string \<Rightarrow> string \<Rightarrow> rinfo" where
  "ex_route p n = \<lparr>r_path = p, r_name = n, r_methods = [''GET''], r_tags = [], r_deps = [''route''], r_responses = Map.empty,
     r_response_class = Unset, r_deprecated = False, r_operation_id = None, r_in_schema = True, r_callbacks = [],
     r_gid = Unset, r_strict = Unset, r_status = None, r_bypass = False, r_customized = False, r_kind = Normal\<rparr>"

definition ex_meta :: "string \<Rightarrow> string list \<Rightarrow> imeta" where
  "ex_meta p ds = \<lparr>i_prefix = p, i_tags = [], i_deps = ds, i_responses = Map.empty, i_deprecated = None,
     i_in_schema = True, i_drc = None, i_gid = Unset, i_callbacks = []\<rparr>"

definition ex_attrs :: aattrs where
  "ex_attrs = \<lparr>a_deps = [''app''], a_responses = Map.empty, a_callbacks = [], a_drc = None, a_gid = Unset,
     a_strict = True, a_openapi_url = None, a_root_path = []\<rparr>"

definition ex_gid :: gid_env where
  "ex_gid = \<lparr>g_one = (\<lambda>f r. Some (f @ ''_'' @ r_name r)), g_two = (\<lambda>f r m. m)\<rparr>"

definition ex_child :: api_router where
  "ex_child = APIRouter (no_attrs\<lparr>ra_prefix := ''/users'', ra_deps := [''users'']\<rparr>) [Route (ex_route ''/{id}'' ''user'')] []"

definition ex_parent :: api_router where
  "ex_parent = APIRouter (no_attrs\<lparr>ra_prefix := ''/api''\<rparr>) [Route (ex_route ''/ping'' ''ping'')] [Include ex_child (ex_meta ''/v1'' [''v1''])]"

lemmas ex_defs = ex_route_def ex_meta_def ex_attrs_def ex_child_def ex_parent_def no_attrs_def

lemma ex_placed: "placed_routes (APIRouter no_attrs [] []) [Include ex_parent (ex_meta [] [''top''])]
    = [([(no_attrs, ex_meta [] [''top''])], no_attrs\<lparr>ra_prefix := ''/api''\<rparr>, ex_route ''/ping'' ''ping''),
       ([(no_attrs, ex_meta [] [''top'']), (no_attrs\<lparr>ra_prefix := ''/api''\<rparr>, ex_meta ''/v1'' [''v1''])],
        no_attrs\<lparr>ra_prefix := ''/users'', ra_deps := [''users'']\<rparr>, ex_route ''/{id}'' ''user'')]"
  by (simp add: placed_routes_def routes_of_def ex_parent_def ex_child_def)

lemma ex_paths: "norm_path ''/api/ping'' = ''/api/ping''" "norm_path ''/api/v1/users/{id}'' = ''/api/v1/users/{id}''"
  by (simp_all add: norm_path_def strip_by_def rstrip_by_def lstrip_by_def slash_def)


section \<open>OpenAPI\<close>

definition oa_spec :: "aattrs \<Rightarrow> placed \<Rightarrow> oa_route \<Rightarrow> bool" where
  "oa_spec A pl oa \<longleftrightarrow> (case pl of (ch, ra, x) \<Rightarrow>
     oa_path oa = norm_path (along ra_prefix i_prefix ch @ ra_prefix ra @ r_path x)
     \<and> oa_tags oa = along ra_tags i_tags ch @ ra_tags ra @ r_tags x
     \<and> (\<not> r_bypass x \<longrightarrow> oa_deps oa = a_deps A @ along ra_deps i_deps ch @ ra_deps ra @ r_deps x)
     \<and> oa_deprecated oa = (r_deprecated x \<or> ra_deprecated ra = Some True
          \<or> first_set (map (i_deprecated \<circ> snd) (rev ch)) = Some True)
     \<and> oa_in_schema oa = r_in_schema x)"

lemma openapi_strip: "openapi_real_route A (strip r) = openapi_real_route A r" "from_mounted (strip r) = from_mounted r"
  by (simp_all add: openapi_real_route_def strip_def from_mounted_def split: option.split)

lemma from_mounted_route_rd: "\<not> from_mounted (route_rd g A c ra x)"
  by (simp add: from_mounted_def rd_defs split: route_kind.split)

lemma truthy_or_append: "truthy_or (xs @ ys) ys = xs @ ys"
  by (simp add: truthy_or_def)

lemma openapi_route_rd:
  "case openapi_real_route A (route_rd g A (ctx_of ch (root_ctx cb)) ra x) of
     None \<Rightarrow> r_kind x \<noteq> Normal | Some oa \<Rightarrow> r_kind x = Normal \<and> oa_spec A (ch, ra, x) oa"
proof (cases "r_kind x = Normal")
  case True
  have "truthy_or (c @ (d @ e)) e = c @ d @ e" for c d e :: "string list" by (simp add: truthy_or_def)
  with True show ?thesis
    by (auto simp: openapi_real_route_def rd_defs oa_spec_def ctx_of_lists ctx_of_deprecated
        root_ctx_def effective_deprecated_def get_all_dependencies_for_route_def truthy_or_def)
qed (simp add: openapi_real_route_def rd_defs split: route_kind.split)

lemma map_filter_list_all2:
  "list_all2 (\<lambda>p r. case f r of None \<Rightarrow> \<not> Q p | Some oa \<Rightarrow> Q p \<and> P p oa) ps rs \<Longrightarrow>
     list_all2 P (filter Q ps) (List.map_filter f rs)"
  by (induction rule: list_all2_induct) (auto simp: map_filter_simps split: option.splits)



section \<open>Mounts\<close>

lemma rstrip_slash_Nil: "rstrip_by slash [] = []"
  by (simp add: rstrip_by_def)


definition isolated :: "mnt \<Rightarrow> bool" where
  "isolated m \<longleftrightarrow> (case m of Mount_at mp md \<Rightarrow>
     (case md of Mounted_app a \<Rightarrow> mp \<noteq> [] | Mounted_router r \<Rightarrow> False | _ \<Rightarrow> True))"

definition documented :: "aattrs \<Rightarrow> rd list \<Rightarrow> oa_route list" where
  "documented A rs = List.map_filter (openapi_real_route A) (filter (\<lambda>r. \<not> from_mounted r) rs)"

lemma documented_simps [simp]:
  "documented A [] = []" "documented A (rs @ rs') = documented A rs @ documented A rs'"
  by (simp_all add: documented_def map_filter_def)

lemma documented_none: "(\<And>r. r \<in> set rs \<Longrightarrow> from_mounted r \<or> rd_route r = None) \<Longrightarrow> documented A rs = []"
proof (induction rs)
  case (Cons r rs)
  have "from_mounted r \<or> openapi_real_route A r = None"
    using Cons.prems [of r] by (auto simp: openapi_real_route_def)
  moreover have "documented A rs = []" using Cons by simp
  ultimately show ?case by (auto simp: documented_def map_filter_simps)
qed simp

lemma asgi_mount_no_route: "r \<in> set (build_asgi_mount_routes mp) \<Longrightarrow> rd_route r = None"
  by (auto simp: build_asgi_mount_routes_def http_methods_def Let_def split: if_splits)

lemma isolated_mount: "isolated (Mount_at mp md) \<Longrightarrow> documented A (fst (collect_mount g B md mp)) = []"
proof (cases md)
  case (Mounted_app a)
  assume "isolated (Mount_at mp md)"
  with Mounted_app have "mp \<noteq> []" by (simp add: isolated_def)
  then have "documented A (map (remount (rstrip_by slash mp) mp) rs) = []" for rs
    by (intro documented_none) (auto simp: remount_def from_mounted_def Let_def)
  moreover have "documented A (sub_openapi_rd mp C) = []" for C
    by (intro documented_none) (auto simp: sub_openapi_rd_def split: option.splits list.splits)
  ultimately show ?thesis using Mounted_app by simp
qed (auto simp: isolated_def intro!: documented_none dest: asgi_mount_no_route)

lemma isolated_mounts: "list_all isolated ms \<Longrightarrow> documented A (fst (collect_mounts g B ms)) = []"
proof (induction ms)
  case (Cons m ms)
  obtain mp md where m: "m = Mount_at mp md" by (cases m)
  with Cons isolated_mount [of mp md A g B] show ?case
    by (cases "collect_mount g B md mp"; cases "collect_mounts g B ms") simp
qed simp

text \<open>
  A mounted application stays out of its parent's schema: mounting applications at non-empty paths,
  or arbitrary ASGI applications anywhere, does not change what the parent documents.
\<close>

theorem mounts_not_documented:
  assumes "list_all isolated ms"
  shows "openapi_routes g (App A r incs ms) = openapi_routes g (App A r incs [])"
proof -
  have "openapi_routes g a = documented (app_attrs_of a) (fst (collect_app g a))" for a
    by (simp add: openapi_routes_def documented_def)
  with isolated_mounts [OF assms, of A g A] show ?thesis
    by (cases "collect_router g A r (root_ctx (a_callbacks A))"; cases "collect_top g A incs"; cases "collect_mounts g A ms") simp
qed

theorem mounts_not_documented_witness:
  "openapi_routes ex_gid (App ex_attrs ex_child [] [Mount_at ''/sub'' (Mounted_app (App ex_attrs ex_parent [] [])), Mount_at ''/static'' Mounted_asgi])
     = openapi_routes ex_gid (App ex_attrs ex_child [] [])"
  by (rule mounts_not_documented) (simp add: isolated_def)

section \<open>The two URL builders agree\<close>

definition placed_path :: "placed \<Rightarrow> string" where
  "placed_path pl = (case pl of (ch, ra, x) \<Rightarrow> along ra_prefix i_prefix ch @ ra_prefix ra @ r_path x)"

definition placed_name :: "placed \<Rightarrow> string" where
  "placed_name pl = r_name (snd (snd pl))"

definition lookup :: "string \<Rightarrow> placed list \<Rightarrow> placed option" where
  "lookup name pls = find (\<lambda>pl. placed_name pl = name) pls"

text \<open>What the builders need of the routes with the wanted name: values for their placeholders, no
  placeholder in the prefixes of outer routers, and a path that is already normal.\<close>

definition buildable :: "(string \<rightharpoonup> string) \<Rightarrow> placed \<Rightarrow> bool" where
  "buildable params pl \<longleftrightarrow>
     set (piece_params (pieces (placed_path pl))) \<subseteq> dom params
     \<and> CHR ''{'' \<notin> set (along ra_prefix i_prefix (fst pl)) \<and> norm_path (placed_path pl) = placed_path pl"

lemma lookup_append: "lookup name (xs @ ys) = (case lookup name xs of None \<Rightarrow> lookup name ys | Some x \<Rightarrow> Some x)"
  by (induction xs) (simp_all add: lookup_def)

lemma lookup_Some: "lookup name pls = Some pl \<Longrightarrow> pl \<in> set pls \<and> placed_name pl = name"
  by (auto simp: lookup_def find_Some_iff)

lemma fill_path_append:
  "CHR ''{'' \<notin> set p \<Longrightarrow> fill_path params (p @ s) = map_sum id ((@) p) (fill_path params s)"
  by (cases "fill_path params s"; induction p) auto

lemma url_in_entries_find:
  "url_in_entries (\<lambda>_. None) params name pref es
     = map_option (\<lambda>r. fill_path params (pref @ r_path r)) (find (\<lambda>r. r_name r = name) (routes_of es))"
proof (induction es)
  case (Cons e es)
  then show ?case by (cases e) (auto simp: routes_of_def)
qed (simp add: routes_of_def)

definition url_result :: "(string \<rightharpoonup> string) \<Rightarrow> placed option \<Rightarrow> string py" where
  "url_result params o' = (case o' of None \<Rightarrow> Inl LookupError | Some pl \<Rightarrow> fill_path params (placed_path pl))"

lemma find_map: "find P (map f xs) = map_option f (find (P \<circ> f) xs)"
  by (induction xs) simp_all

lemma lookup_own: "lookup name (map (\<lambda>r. (ch, ra, r)) rs) = map_option (\<lambda>r. (ch, ra, r)) (find (\<lambda>r. r_name r = name) rs)"
  by (simp add: lookup_def find_map placed_name_def comp_def)

lemma buildable_fill:
  assumes "buildable params pl"
  shows "\<exists>u. fill_path params (placed_path pl) = Inr u"
  using assms by (simp add: buildable_def fill_path_pieces)

lemma router_url_lookup:
  "(\<And>pl. pl \<in> set (flat ch r) \<Longrightarrow> placed_name pl = name \<Longrightarrow> buildable params pl) \<Longrightarrow>
     map_sum id ((@) (along ra_prefix i_prefix ch)) (router_url_path_for (\<lambda>_. None) params name r)
       = url_result params (lookup name (flat ch r))"
  "(\<And>pl. pl \<in> set (flat_includes ch ra is) \<Longrightarrow> placed_name pl = name \<Longrightarrow> buildable params pl) \<Longrightarrow>
     map_sum id ((@) (along ra_prefix i_prefix ch)) (url_in_includes (\<lambda>_. None) params name (ra_prefix ra) is)
       = url_result params (lookup name (flat_includes ch ra is))"
proof (induction ch r and ch ra "is" rule: flat_flat_includes.induct)
  case (1 ch ra es incs)
  show ?case
  proof (cases "find (\<lambda>r. r_name r = name) (routes_of es)")
    case None
    then show ?thesis using 1 by (simp add: url_in_entries_find lookup_append lookup_own)
  next
    case (Some x)
    then have look: "lookup name (flat ch (APIRouter ra es incs)) = Some (ch, ra, x)"
      by (simp add: lookup_append lookup_own)
    then have "CHR ''{'' \<notin> set (along ra_prefix i_prefix ch)"
      using 1(2) [of "(ch, ra, x)"] lookup_Some [OF look] by (simp add: buildable_def)
    then show ?thesis
      using Some look by (simp add: url_in_entries_find url_result_def placed_path_def fill_path_append id_def)
  qed
next
  case (2 ch ra)
  then show ?case by (simp add: url_result_def lookup_def)
next
  case (3 ch ra r m "is")
  let ?P = "along ra_prefix i_prefix ch"
  have r: "map_sum id ((@) (?P @ ra_prefix ra @ i_prefix m)) (router_url_path_for (\<lambda>_. None) params name r)
      = url_result params (lookup name (flat (ch @ [(ra, m)]) r))"
  proof -
    have "map_sum id ((@) (along ra_prefix i_prefix (ch @ [(ra, m)]))) (router_url_path_for (\<lambda>_. None) params name r)
        = url_result params (lookup name (flat (ch @ [(ra, m)]) r))"
      by (rule 3(1)) (use 3(3) in simp)
    then show ?thesis by (simp only: along_simps)
  qed
  have rest: "map_sum id ((@) ?P) (url_in_includes (\<lambda>_. None) params name (ra_prefix ra) is)
      = url_result params (lookup name (flat_includes ch ra is))"
    by (rule 3(2)) (use 3(3) in simp)
  show ?case
  proof (cases "lookup name (flat (ch @ [(ra, m)]) r)")
    case None
    with r obtain e where "router_url_path_for (\<lambda>_. None) params name r = Inl e"
      by (cases "router_url_path_for (\<lambda>_. None) params name r") (simp_all add: url_result_def)
    with None rest show ?thesis by (simp add: lookup_append id_def)
  next
    case (Some pl)
    with 3(3) [of pl] lookup_Some [OF Some] have "buildable params pl" by simp
    then obtain u where u: "fill_path params (placed_path pl) = Inr u" using buildable_fill by blast
    with r Some obtain v where v: "router_url_path_for (\<lambda>_. None) params name r = Inr v"
      by (cases "router_url_path_for (\<lambda>_. None) params name r") (simp_all add: url_result_def)
    with r Some u have "u = ?P @ ra_prefix ra @ i_prefix m @ v" by (simp add: url_result_def)
    with Some v u show ?thesis by (simp add: lookup_append url_result_def id_def)
  qed
qed

lemma find_list_all2:
  assumes "list_all2 R xs ys" and "\<And>x y. R x y \<Longrightarrow> P x \<longleftrightarrow> Q y"
  shows "rel_option R (find P xs) (find Q ys)"
  using assms by (induction rule: list_all2_induct) auto



section \<open>Divergences\<close>

text \<open>
  The comment above the normalisation speaks of a double slash at a join point; only the ends of the
  joined path are normalised.
\<close>

lemma join_keeps_double_slash: "norm_path (''/api/'' @ ''/items'') = ''/api//items''"
  by (simp add: norm_path_def strip_by_def rstrip_by_def lstrip_by_def slash_def)

text \<open>
  An included router is normalised, so an unset operation-id function becomes a placeholder; the
  cascade to nested routers tests for \<open>None\<close> and takes the placeholder for a value, which hides the
  function given to the outer include.  A route of the router itself still sees it.
\<close>

lemma normalized_router_hides_include_function:
  fixes ra :: rattrs
  assumes "ra_gid ra = Unset" and "i_gid m = Unset" and "a_gid A = Unset"
    and "ra' = ra\<lparr>ra_gid := default_setting (ra_gid ra)\<rparr>"
    and "r_gid x = Unset" and "r_in_schema x" and "c_gid c = Set f" and "g_one g f x = Some oid"
  shows "apply_generate_unique_id g A x (c_gid (child_ctx c ra' m)) no_attrs = None"
    and "apply_generate_unique_id g A x (c_gid c) ra' = Some oid"
  using assms by (simp_all add: apply_generate_unique_id_def child_ctx_def default_setting_def no_attrs_def)

text \<open>
  Mounts registered on a router are stored and never collected; the flag of an include that hides a
  router from the schema does not reach the documented route; and the recursive URL lookup takes
  the \<open>KeyError\<close> of a missing parameter for an unknown name.
\<close>

lemma router_mounts_ignored:
  "collect_router g A (APIRouter (ra\<lparr>ra_mounts := ms\<rparr>) [] []) c = ([], False)"
  by simp

lemma hidden_include_still_documented:
  assumes "r_kind x = Normal"
  shows "map_option oa_in_schema (openapi_real_route A (route_rd g A (c\<lparr>c_in_schema := False\<rparr>) ra x)) = Some (r_in_schema x)"
  using assms by (simp add: openapi_real_route_def rd_defs)

lemma missing_parameter_reported_as_unknown_name:
  "router_url_path_for (\<lambda>_. None) Map.empty ''user'' ex_child = Inl KeyError
   \<and> router_url_path_for (\<lambda>_. None) Map.empty ''user'' ex_parent = Inl LookupError"
  by (simp add: ex_defs split_group_def fill_group_def before_colon_def)

end
