(* ===== verification/Web_Socket.thy ===== *)
theory Web_Socket
  imports Resp
begin

text \<open>
  The WebSocket object of \<open>websockets.py\<close>: its connection state, the handshake, the sending and
  receiving methods, the iterators and the parser of the engine's close errors.

  A \<open>WebSocket\<close> runs over one of two transports: the handle of the Rust engine (\<open>self._ws\<close>) or
  the pair of ASGI channels that the in-process door passes in.  The record \<open>ws\<close> holds the object's
  own fields together with the transport as the object sees it: the messages still to be received,
  the messages that reached the peer through \<open>send\<close>, and the calls made on the engine's handle.
  What the transport does is a parameter (the record \<open>ws_env\<close>): after any history it may accept a
  message or raise.  A method that waits for a message that has not come yet answers \<open>Wait\<close> and
  leaves the object as it was.

  Text frames are sequences of code points, close reasons are Latin-1 strings.
\<close>

section \<open>Data\<close>

datatype WebSocketState = CONNECTING | CONNECTED | DISCONNECTED | RESPONSE

datatype ws_exn = WebSocketDisconnect int string | Py py_exn

text \<open>
  Messages of the ASGI \<open>receive\<close> channel.  The \<open>text\<close> and \<open>bytes\<close> entries of a received frame may
  be missing, or present with the value \<open>None\<close>; a missing or \<open>None\<close> reason reads as the empty string.
\<close>

datatype in_msg =
    MConnect
  | MReceive "codepoints option option" "bytes option option"
  | MDisconnect "int option" "string option"
  | MOther string

datatype out_msg =
    MAccept "string option" "(bytes \<times> bytes) list"
  | MSendText codepoints
  | MSendBytes bytes
  | MClose int string

text \<open>Calls on the engine's handle.\<close>

datatype rust_call =
    RAccept "string option" "(bytes \<times> bytes) list option"
  | RReject int
  | RCloseWait int string
  | RClose int string
  | RSendText codepoints
  | RSendBytes bytes

record 'v ws_env =
  send_raises :: "out_msg list \<Rightarrow> out_msg \<Rightarrow> ws_exn option"
  call_raises :: "rust_call list \<Rightarrow> rust_call \<Rightarrow> ws_exn option"
  handle_state :: "rust_call list \<Rightarrow> WebSocketState option"
  handle_text :: "ws_exn + in_msg \<Rightarrow> ws_exn + codepoints option"
  handle_bytes :: "ws_exn + in_msg \<Rightarrow> ws_exn + bytes option"
  json_dumps :: "'v \<Rightarrow> ws_exn + codepoints"
  json_loads_text :: "codepoints option \<Rightarrow> ws_exn + 'v"
  json_loads_bytes :: "bytes option \<Rightarrow> ws_exn + 'v"

record ws =
  has_handle :: bool
  has_receive :: bool
  has_send :: bool
  app_state :: WebSocketState
  pending_close :: "(int \<times> string) option"
  asgi_closed :: bool
  last_close :: "(int \<times> string) option"
  inbox :: "(ws_exn + in_msg) list"
  sent :: "out_msg list"
  calls :: "rust_call list"

text \<open>What a method does: it returns a value, raises, or waits for the channel.\<close>

datatype 'a res = Ret 'a | Exn ws_exn | Wait

text \<open>
  The constructor: \<open>WebSocket(rust_ws)\<close> and \<open>WebSocket(scope, receive=\<dots>, send=\<dots>)\<close>.  In the
  second form the first argument is a dict and no handle is kept.
\<close>

definition ws_init :: "bool \<Rightarrow> bool \<Rightarrow> bool \<Rightarrow> (ws_exn + in_msg) list \<Rightarrow> ws" where
  "ws_init handle receive send msgs =
     \<lparr>has_handle = handle, has_receive = receive, has_send = send, app_state = CONNECTING,
      pending_close = None, asgi_closed = False, last_close = None,
      inbox = msgs, sent = [], calls = []\<rparr>"

definition is_asgi :: "ws \<Rightarrow> bool" where
  "is_asgi s \<longleftrightarrow> \<not> has_handle s \<and> has_send s"

definition application_state :: "'v ws_env \<Rightarrow> ws \<Rightarrow> WebSocketState" where
  "application_state env s =
     (if has_handle s
      then (case handle_state env (calls s) of Some st \<Rightarrow> st | None \<Rightarrow> app_state s)
      else app_state s)"

section \<open>The transport\<close>

text \<open>\<open>await self._send(m)\<close>: calling a \<open>None\<close> channel raises \<open>TypeError\<close>.\<close>

definition chan_send :: "'v ws_env \<Rightarrow> out_msg \<Rightarrow> ws \<Rightarrow> unit res \<times> ws" where
  "chan_send env m s =
     (if \<not> has_send s then (Exn (Py TypeError), s)
      else case send_raises env (sent s) m of
             Some e \<Rightarrow> (Exn e, s)
           | None \<Rightarrow> (Ret (), s\<lparr>sent := sent s @ [m]\<rparr>))"

text \<open>\<open>await self._receive()\<close>, for the channel and for the engine's \<open>receive_async\<close>.\<close>

definition next_item :: "ws \<Rightarrow> (ws_exn + in_msg) res \<times> ws" where
  "next_item s = (case inbox s of [] \<Rightarrow> (Wait, s) | m # ms \<Rightarrow> (Ret m, s\<lparr>inbox := ms\<rparr>))"

definition chan_recv :: "ws \<Rightarrow> in_msg res \<times> ws" where
  "chan_recv s =
     (if \<not> has_receive s then (Exn (Py TypeError), s)
      else case next_item s of
             (Ret (Inr m), t) \<Rightarrow> (Ret m, t)
           | (Ret (Inl e), t) \<Rightarrow> (Exn e, t)
           | (_, t) \<Rightarrow> (Wait, t))"

definition call_handle :: "'v ws_env \<Rightarrow> rust_call \<Rightarrow> ws \<Rightarrow> unit res \<times> ws" where
  "call_handle env c s =
     ((case call_raises env (calls s) c of Some e \<Rightarrow> Exn e | None \<Rightarrow> Ret ()),
      s\<lparr>calls := calls s @ [c]\<rparr>)"

section \<open>Closing\<close>

text \<open>
  \<open>_asgi_send_close\<close> marks the object closed before it sends and swallows what \<open>send\<close> raises;
  \<open>_asgi_queue_close\<close> leaves a close for the door, unless one was sent or queued before.
\<close>

definition asgi_send_close :: "'v ws_env \<Rightarrow> int \<Rightarrow> string \<Rightarrow> ws \<Rightarrow> ws" where
  "asgi_send_close env code reason s =
     (if asgi_closed s then s else snd (chan_send env (MClose code reason) (s\<lparr>asgi_closed := True\<rparr>)))"

definition asgi_queue_close :: "int \<Rightarrow> string \<Rightarrow> ws \<Rightarrow> ws" where
  "asgi_queue_close code reason s =
     (if asgi_closed s \<or> pending_close s \<noteq> None then s else s\<lparr>pending_close := Some (code, reason)\<rparr>)"

definition reject :: "'v ws_env \<Rightarrow> int \<Rightarrow> ws \<Rightarrow> ws" where
  "reject env status s =
     (let s = s\<lparr>app_state := DISCONNECTED\<rparr>
      in if has_handle s then snd (call_handle env (RReject status) s)
         else if is_asgi s then asgi_queue_close 1006 [] s
         else s)"

definition ws_close :: "'v ws_env \<Rightarrow> int \<Rightarrow> string option \<Rightarrow> ws \<Rightarrow> ws" where
  "ws_close env code reason s =
     (if app_state s = DISCONNECTED then s
      else
        let r = (case reason of None \<Rightarrow> [] | Some r \<Rightarrow> r);
            pre_accept = (app_state s = CONNECTING);
            s = s\<lparr>last_close := Some (code, r)\<rparr>
        in if pre_accept then
             (if is_asgi s then asgi_send_close env code r (s\<lparr>app_state := DISCONNECTED\<rparr>)
              else reject env 403 s)
           else
             let s = s\<lparr>app_state := DISCONNECTED\<rparr>
             in if has_handle s then
                  (case call_handle env (RCloseWait code r) s of
                     (Ret _, t) \<Rightarrow> t
                   | (_, t) \<Rightarrow> snd (call_handle env (RClose code r) t))
                else if has_send s then asgi_send_close env code r s
                else s)"

section \<open>The handshake\<close>

definition send_accept :: "'v ws_env \<Rightarrow> out_msg \<Rightarrow> ws \<Rightarrow> unit res \<times> ws" where
  "send_accept env m s =
     (case chan_send env m s of
        (Ret _, t) \<Rightarrow> (Ret (), t\<lparr>app_state := CONNECTED\<rparr>)
      | r \<Rightarrow> r)"

definition accept :: "'v ws_env \<Rightarrow> string option \<Rightarrow> (bytes \<times> bytes) list option \<Rightarrow> ws \<Rightarrow> unit res \<times> ws" where
  "accept env subprotocol headers s =
     (if app_state s \<noteq> CONNECTING then (Ret (), s)
      else if has_handle s then
        (case call_handle env (RAccept subprotocol
                (case headers of Some (h # hs) \<Rightarrow> Some (h # hs) | _ \<Rightarrow> None)) s of
           (Ret _, t) \<Rightarrow> (Ret (), t\<lparr>app_state := CONNECTED\<rparr>)
         | r \<Rightarrow> r)
      else if is_asgi s \<and> has_receive s then
        (case chan_recv s of
           (Ret MConnect, t) \<Rightarrow>
             send_accept env (MAccept subprotocol (case headers of None \<Rightarrow> [] | Some hs \<Rightarrow> hs)) t
         | (Ret _, t) \<Rightarrow> (Ret (), t\<lparr>app_state := DISCONNECTED\<rparr>)
         | (Exn e, t) \<Rightarrow> (Exn e, t)
         | (Wait, t) \<Rightarrow> (Wait, t))
      else (Ret (), s\<lparr>app_state := CONNECTED\<rparr>))"

section \<open>Sending\<close>

definition before_accept :: "string \<Rightarrow> ws_exn" where
  "before_accept meth =
     Py (RuntimeError (''Cannot call \"'' @ meth @ ''\" before \"accept\" or after a close.''))"

definition send_closed :: ws_exn where
  "send_closed =
     Py (RuntimeError ''Cannot call \"send\" once a close message has been sent or before accept.'')"

definition bad_mode :: ws_exn where
  "bad_mode = Py (RuntimeError ''The \"mode\" argument should be \"text\" or \"binary\".'')"

definition valid_send_json_mode :: "string \<Rightarrow> bool" where
  "valid_send_json_mode mode \<longleftrightarrow> mode = ''text'' \<or> mode = ''binary''"

text \<open>
  The \<open>send_*\<close> methods are plain functions that return an awaitable: with a handle the frame is
  queued at the call, on the ASGI channel the returned coroutine sends it when it is awaited.
\<close>

datatype awaitable = Immediate | Coro out_msg

definition hand_over :: "'v ws_env \<Rightarrow> rust_call \<Rightarrow> out_msg \<Rightarrow> ws \<Rightarrow> awaitable res \<times> ws" where
  "hand_over env c m s =
     (if has_handle s then
        (case call_handle env c s of
           (Ret _, t) \<Rightarrow> (Ret Immediate, t) | (Exn e, t) \<Rightarrow> (Exn e, t) | (Wait, t) \<Rightarrow> (Wait, t))
      else if has_send s then (Ret (Coro m), s)
      else (Exn (Py TypeError), s))"

definition send_text :: "'v ws_env \<Rightarrow> codepoints \<Rightarrow> ws \<Rightarrow> awaitable res \<times> ws" where
  "send_text env data s =
     (if app_state s \<noteq> CONNECTED then (Exn (before_accept ''send_text''), s)
      else hand_over env (RSendText data) (MSendText data) s)"

definition send_bytes :: "'v ws_env \<Rightarrow> bytes \<Rightarrow> ws \<Rightarrow> awaitable res \<times> ws" where
  "send_bytes env data s =
     (if app_state s \<noteq> CONNECTED then (Exn (before_accept ''send_bytes''), s)
      else hand_over env (RSendBytes data) (MSendBytes data) s)"

definition send_json :: "'v ws_env \<Rightarrow> 'v \<Rightarrow> string \<Rightarrow> ws \<Rightarrow> awaitable res \<times> ws" where
  "send_json env data mode s =
     (if \<not> valid_send_json_mode mode then (Exn bad_mode, s)
      else if app_state s \<noteq> CONNECTED then (Exn (before_accept ''send_json''), s)
      else case json_dumps env data of
             Inl e \<Rightarrow> (Exn e, s)
           | Inr text \<Rightarrow>
               (if mode = ''text'' then hand_over env (RSendText text) (MSendText text) s
                else case utf8_encode text of
                       Inl e \<Rightarrow> (Exn (Py e), s)
                     | Inr b \<Rightarrow> hand_over env (RSendBytes b) (MSendBytes b) s))"

definition await_send :: "'v ws_env \<Rightarrow> awaitable res \<times> ws \<Rightarrow> unit res \<times> ws" where
  "await_send env r =
     (case r of
        (Ret Immediate, s) \<Rightarrow> (Ret (), s)
      | (Ret (Coro m), s) \<Rightarrow> chan_send env m s
      | (Exn e, s) \<Rightarrow> (Exn e, s)
      | (Wait, s) \<Rightarrow> (Wait, s))"

text \<open>The messages that the low-level \<open>send\<close> understands; any other type is ignored.\<close>

datatype low_msg =
    LAccept "string option" "(bytes \<times> bytes) list option"
  | LSend "codepoints option" "bytes option"
  | LClose "int option" "string option"
  | LOther string

text \<open>\<open>self._ws.send_text\<close> with \<open>self._ws\<close> being \<open>None\<close> is an attribute error.\<close>

definition handle_method :: "'v ws_env \<Rightarrow> rust_call \<Rightarrow> ws \<Rightarrow> unit res \<times> ws" where
  "handle_method env c s =
     (if has_handle s then call_handle env c s else (Exn (Py AttributeError), s))"

definition ws_send :: "'v ws_env \<Rightarrow> low_msg \<Rightarrow> ws \<Rightarrow> unit res \<times> ws" where
  "ws_send env msg s =
     (case msg of
        LAccept sub hs \<Rightarrow> accept env sub hs s
      | LSend text data \<Rightarrow>
          (if app_state s \<noteq> CONNECTED then (Exn send_closed, s)
           else case text of
                  Some t \<Rightarrow> handle_method env (RSendText t) s
                | None \<Rightarrow>
                    (case data of
                       Some b \<Rightarrow> handle_method env (RSendBytes b) s
                     | None \<Rightarrow> (Ret (), s)))
      | LClose code reason \<Rightarrow>
          (Ret (), ws_close env (case code of None \<Rightarrow> 1000 | Some c \<Rightarrow> c) reason s)
      | LOther _ \<Rightarrow> (Ret (), s))"

section \<open>Receiving\<close>

text \<open>\<open>msg.get("text", "")\<close>: a missing entry reads as the empty text, an explicit \<open>None\<close> stays.\<close>

fun msg_text :: "in_msg \<Rightarrow> codepoints option" where
  "msg_text (MReceive (Some t) _) = t"
| "msg_text _ = Some []"

fun msg_bytes :: "in_msg \<Rightarrow> bytes option" where
  "msg_bytes (MReceive _ (Some b)) = b"
| "msg_bytes _ = Some []"

definition disconnect_exn :: "int option \<Rightarrow> string option \<Rightarrow> ws_exn" where
  "disconnect_exn code reason =
     WebSocketDisconnect (case code of None \<Rightarrow> 1000 | Some c \<Rightarrow> c) (case reason of None \<Rightarrow> [] | Some r \<Rightarrow> r)"

text \<open>\<open>str.partition(":")\<close>, without the separator.\<close>

fun partition_at :: "char \<Rightarrow> string \<Rightarrow> string \<times> string" where
  "partition_at c [] = ([], [])"
| "partition_at c (x # xs) =
     (if x = c then ([], xs) else case partition_at c xs of (a, b) \<Rightarrow> (x # a, b))"

text \<open>
  The close errors of the engine: \<open>WS_CLOSED:<code>:<reason>\<close>.  A message of any other form, or
  one whose code is no number, is a normal closure with the whole message as its reason.
\<close>

definition ws_closed_tag :: string where
  "ws_closed_tag = ''WS_CLOSED:''"

definition extract_close_info_from_error :: "string \<Rightarrow> int \<times> string" where
  "extract_close_info_from_error msg =
     (if prefix ws_closed_tag msg then
        (case partition_at CHR '':'' (drop (length ws_closed_tag) msg) of
           (code_str, reason) \<Rightarrow>
             (case py_int_str code_str of Inr code \<Rightarrow> (code, reason) | Inl _ \<Rightarrow> (1000, msg)))
      else (1000, msg))"

text \<open>
  \<open>receive\<close> returns the next message.  A \<open>RuntimeError\<close> of the engine becomes a disconnect message;
  \<open>str(e)\<close> is the message it carries.
\<close>

definition receive :: "ws \<Rightarrow> in_msg res \<times> ws" where
  "receive s =
     (if app_state s = DISCONNECTED
      then (Exn (Py (RuntimeError ''Cannot call \"receive\" once a disconnect has been received.'')), s)
      else if \<not> has_handle s then
        (case chan_recv s of
           (Ret (MDisconnect c r), t) \<Rightarrow> (Ret (MDisconnect c r), t\<lparr>app_state := DISCONNECTED\<rparr>)
         | r \<Rightarrow> r)
      else
        (case next_item s of
           (Ret (Inl (Py (RuntimeError e))), t) \<Rightarrow>
             (case extract_close_info_from_error e of
                (code, reason) \<Rightarrow>
                  (Ret (MDisconnect (Some code) (Some reason)), t\<lparr>app_state := DISCONNECTED\<rparr>))
         | (Ret (Inl e), t) \<Rightarrow> (Exn e, t)
         | (Ret (Inr (MDisconnect c r)), t) \<Rightarrow>
             (Ret (MDisconnect c r), t\<lparr>app_state := DISCONNECTED\<rparr>)
         | (Ret (Inr m), t) \<Rightarrow> (Ret m, t)
         | (_, t) \<Rightarrow> (Wait, t)))"

definition asgi_receive_part :: "(in_msg \<Rightarrow> 'a option) \<Rightarrow> ws \<Rightarrow> 'a option res \<times> ws" where
  "asgi_receive_part get s =
     (case chan_recv s of
        (Ret (MDisconnect c r), t) \<Rightarrow> (Exn (disconnect_exn c r), t\<lparr>app_state := DISCONNECTED\<rparr>)
      | (Ret m, t) \<Rightarrow> (Ret (get m), t)
      | (Exn e, t) \<Rightarrow> (Exn e, t)
      | (Wait, t) \<Rightarrow> (Wait, t))"

definition handle_receive_part :: "(ws_exn + in_msg \<Rightarrow> ws_exn + 'a option) \<Rightarrow> ws \<Rightarrow> 'a option res \<times> ws" where
  "handle_receive_part get s =
     (case next_item s of
        (Ret m, t) \<Rightarrow> (case get m of Inr v \<Rightarrow> (Ret v, t) | Inl e \<Rightarrow> (Exn e, t))
      | (_, t) \<Rightarrow> (Wait, t))"

definition already_disconnected :: ws_exn where
  "already_disconnected = WebSocketDisconnect 1000 ''already disconnected''"

definition receive_text :: "'v ws_env \<Rightarrow> ws \<Rightarrow> codepoints option res \<times> ws" where
  "receive_text env s =
     (if app_state s = DISCONNECTED then (Exn already_disconnected, s)
      else if \<not> has_handle s then asgi_receive_part msg_text s
      else handle_receive_part (handle_text env) s)"

definition receive_bytes :: "'v ws_env \<Rightarrow> ws \<Rightarrow> bytes option res \<times> ws" where
  "receive_bytes env s =
     (if app_state s = DISCONNECTED then (Exn already_disconnected, s)
      else if \<not> has_handle s then asgi_receive_part msg_bytes s
      else handle_receive_part (handle_bytes env) s)"

definition then_loads :: "('a \<Rightarrow> ws_exn + 'v) \<Rightarrow> 'a res \<times> ws \<Rightarrow> 'v res \<times> ws" where
  "then_loads loads r =
     (case r of
        (Ret x, s) \<Rightarrow> ((case loads x of Inr v \<Rightarrow> Ret v | Inl e \<Rightarrow> Exn e), s)
      | (Exn e, s) \<Rightarrow> (Exn e, s)
      | (Wait, s) \<Rightarrow> (Wait, s))"

definition receive_json :: "'v ws_env \<Rightarrow> string \<Rightarrow> ws \<Rightarrow> 'v res \<times> ws" where
  "receive_json env mode s =
     (if \<not> valid_send_json_mode mode then (Exn bad_mode, s)
      else if mode = ''text'' then then_loads (json_loads_text env) (receive_text env s)
      else then_loads (json_loads_bytes env) (receive_bytes env s))"

section \<open>Iterating\<close>

text \<open>
  The iterators call a receiving method until it raises.  \<open>RuntimeError\<close> and \<open>WebSocketDisconnect\<close>
  end the iteration, every other exception leaves it.  A run of the iterator over the messages that
  have arrived yields a list and ends in one of three ways; every turn that yields has consumed a
  message, which the bound of the loop expresses.
\<close>

datatype iter_end = Stopped | Escaped ws_exn | Waiting

fun ends_iteration :: "ws_exn \<Rightarrow> bool" where
  "ends_iteration (WebSocketDisconnect _ _) = True"
| "ends_iteration (Py (RuntimeError _)) = True"
| "ends_iteration (Py _) = False"

function iterate :: "(ws \<Rightarrow> 'a res \<times> ws) \<Rightarrow> ws \<Rightarrow> 'a list \<times> iter_end \<times> ws" where
  "iterate recv s =
     (case recv s of
        (Exn e, t) \<Rightarrow> ([], if ends_iteration e then Stopped else Escaped e, t)
      | (Wait, t) \<Rightarrow> ([], Waiting, t)
      | (Ret x, t) \<Rightarrow>
          (if length (inbox t) < length (inbox s)
           then case iterate recv t of (xs, fin, u) \<Rightarrow> (x # xs, fin, u)
           else ([x], Waiting, t)))"
  by pat_completeness auto
termination by (relation "measure (\<lambda>(recv, s). length (inbox s))") auto

declare iterate.simps [simp del]

definition iter_text :: "'v ws_env \<Rightarrow> ws \<Rightarrow> codepoints option list \<times> iter_end \<times> ws" where
  "iter_text env = iterate (receive_text env)"

definition iter_bytes :: "'v ws_env \<Rightarrow> ws \<Rightarrow> bytes option list \<times> iter_end \<times> ws" where
  "iter_bytes env = iterate (receive_bytes env)"

definition iter_json :: "'v ws_env \<Rightarrow> string \<Rightarrow> ws \<Rightarrow> 'v list \<times> iter_end \<times> ws" where
  "iter_json env mode = iterate (receive_json env mode)"

text \<open>\<open>__anext__\<close>: \<open>Ret None\<close> stands for \<open>StopAsyncIteration\<close>.\<close>

definition anext :: "'v ws_env \<Rightarrow> ws \<Rightarrow> codepoints option option res \<times> ws" where
  "anext env s =
     (case receive_text env s of
        (Ret x, t) \<Rightarrow> (Ret (Some x), t)
      | (Exn e, t) \<Rightarrow> ((if ends_iteration e then Ret None else Exn e), t)
      | (Wait, t) \<Rightarrow> (Wait, t))"

section \<open>Sessions\<close>

text \<open>
  A handler uses its WebSocket through these operations, one after the other.  \<open>OpQueueClose\<close> and
  \<open>OpReject\<close> are the two operations that the endpoint wrapper adds when a handler fails.
\<close>

datatype 'v ws_op =
    OpAccept "string option" "(bytes \<times> bytes) list option"
  | OpClose int "string option"
  | OpSend low_msg
  | OpSendText codepoints
  | OpSendBytes bytes
  | OpSendJson 'v string
  | OpReceive
  | OpReceiveText
  | OpReceiveBytes
  | OpReceiveJson string
  | OpReject int
  | OpQueueClose int string

fun apply_op :: "'v ws_env \<Rightarrow> 'v ws_op \<Rightarrow> ws \<Rightarrow> ws" where
  "apply_op env (OpAccept sub hs) s = snd (accept env sub hs s)"
| "apply_op env (OpClose code reason) s = ws_close env code reason s"
| "apply_op env (OpSend m) s = snd (ws_send env m s)"
| "apply_op env (OpSendText t) s = snd (await_send env (send_text env t s))"
| "apply_op env (OpSendBytes b) s = snd (await_send env (send_bytes env b s))"
| "apply_op env (OpSendJson v mode) s = snd (await_send env (send_json env v mode s))"
| "apply_op env OpReceive s = snd (receive s)"
| "apply_op env OpReceiveText s = snd (receive_text env s)"
| "apply_op env OpReceiveBytes s = snd (receive_bytes env s)"
| "apply_op env (OpReceiveJson mode) s = snd (receive_json env mode s)"
| "apply_op env (OpReject status) s = reject env status s"
| "apply_op env (OpQueueClose code reason) s = asgi_queue_close code reason s"

definition ws_step :: "'v ws_env \<Rightarrow> ws \<Rightarrow> 'v ws_op \<Rightarrow> ws \<Rightarrow> bool" where
  "ws_step env s op t \<longleftrightarrow> t = apply_op env op s"

text \<open>The tail of the in-process door: it sends the close that a synchronous path left behind.\<close>

definition flush_pending :: "'v ws_env \<Rightarrow> ws \<Rightarrow> ws" where
  "flush_pending env s =
     (case pending_close s of None \<Rightarrow> s | Some (code, reason) \<Rightarrow> asgi_send_close env code reason s)"

definition ws_session :: "'v ws_env \<Rightarrow> (ws_exn + in_msg) list \<Rightarrow> 'v ws_op list \<Rightarrow> ws" where
  "ws_session env msgs ops = flush_pending env (fold (apply_op env) ops (ws_init False True True msgs))"

text \<open>
  The conversation that ASGI lets an application have on a WebSocket: one \<open>accept\<close>, then frames,
  then at most one \<open>close\<close>; a \<open>close\<close> in place of \<open>accept\<close> refuses the handshake.
\<close>

datatype phase = Handshake | Open | Done

fun converse :: "phase \<Rightarrow> out_msg \<Rightarrow> phase option" where
  "converse Handshake (MAccept _ _) = Some Open"
| "converse Handshake (MClose _ _) = Some Done"
| "converse Open (MSendText _) = Some Open"
| "converse Open (MSendBytes _) = Some Open"
| "converse Open (MClose _ _) = Some Done"
| "converse _ _ = None"

fun conversation :: "phase \<Rightarrow> out_msg list \<Rightarrow> phase option" where
  "conversation p [] = Some p"
| "conversation p (m # ms) = (case converse p m of None \<Rightarrow> None | Some q \<Rightarrow> conversation q ms)"

lemma conversation_snoc:
  "conversation p (ms @ [m]) = (case conversation p ms of None \<Rightarrow> None | Some q \<Rightarrow> converse q m)"
  by (induction ms arbitrary: p) (auto split: option.splits)

text \<open>
  The invariant ties the object's state to the phase of the conversation.  A close whose \<open>send\<close>
  raised leaves the object closed in an unfinished conversation, in which it never sends again.
\<close>

definition ws_inv :: "ws \<Rightarrow> bool" where
  "ws_inv s \<longleftrightarrow>
     \<not> has_handle s \<and> has_send s \<and> has_receive s \<and>
     (case app_state s of
        CONNECTING \<Rightarrow> conversation Handshake (sent s) = Some Handshake \<and> \<not> asgi_closed s
      | CONNECTED \<Rightarrow> conversation Handshake (sent s) = Some Open \<and> \<not> asgi_closed s
      | DISCONNECTED \<Rightarrow>
          (case conversation Handshake (sent s) of
             None \<Rightarrow> False | Some p \<Rightarrow> p = Done \<longrightarrow> asgi_closed s)
      | RESPONSE \<Rightarrow> False)"


lemma ws_inv_connecting:
  "app_state s = CONNECTING \<Longrightarrow>
     ws_inv s \<longleftrightarrow> is_asgi s \<and> has_receive s \<and> conversation Handshake (sent s) = Some Handshake
       \<and> \<not> asgi_closed s"
  by (auto simp: ws_inv_def is_asgi_def)

lemma ws_inv_connected:
  "app_state s = CONNECTED \<Longrightarrow>
     ws_inv s \<longleftrightarrow> is_asgi s \<and> has_receive s \<and> conversation Handshake (sent s) = Some Open
       \<and> \<not> asgi_closed s"
  by (auto simp: ws_inv_def is_asgi_def)

lemma ws_inv_disconnected:
  "app_state s = DISCONNECTED \<Longrightarrow>
     ws_inv s \<longleftrightarrow> is_asgi s \<and> has_receive s \<and>
       (\<exists>p. conversation Handshake (sent s) = Some p \<and> (p = Done \<longrightarrow> asgi_closed s))"
  by (auto simp: ws_inv_def is_asgi_def split: option.splits)

lemmas ws_inv_iff = ws_inv_connecting ws_inv_connected ws_inv_disconnected

text \<open>Receiving only takes from the inbox, and may move the object to \<open>DISCONNECTED\<close>.\<close>

definition only_receives :: "ws \<Rightarrow> ws \<Rightarrow> bool" where
  "only_receives s t \<longleftrightarrow>
     (\<exists>msgs. t = s\<lparr>inbox := msgs\<rparr> \<or> t = s\<lparr>inbox := msgs, app_state := DISCONNECTED\<rparr>)"

lemma only_receives_refl [simp]: "only_receives s s"
  by (auto simp: only_receives_def intro: exI [of _ "inbox s"])

lemma only_receives_upd [simp]:
  "only_receives s (s\<lparr>inbox := msgs\<rparr>)"
  "only_receives s (s\<lparr>inbox := msgs, app_state := DISCONNECTED\<rparr>)"
  by (auto simp: only_receives_def)

lemma only_receives_disc:
  "only_receives s t \<Longrightarrow> only_receives s (t\<lparr>app_state := DISCONNECTED\<rparr>)"
  by (cases s) (auto simp: only_receives_def)

lemma next_item_only: "next_item s = (r, t) \<Longrightarrow> only_receives s t"
  by (auto simp: next_item_def split: list.splits)

lemma chan_recv_only: "chan_recv s = (r, t) \<Longrightarrow> only_receives s t"
  by (auto simp: chan_recv_def split: if_splits prod.splits res.splits sum.splits dest: next_item_only)

lemma only_receives_inv: "ws_inv s \<Longrightarrow> only_receives s t \<Longrightarrow> ws_inv t"
  by (auto simp: only_receives_def ws_inv_def split: WebSocketState.splits option.splits)

lemma receive_only: "only_receives s (snd (receive s))"
  by (auto simp: receive_def split: prod.splits res.splits sum.splits in_msg.splits ws_exn.splits
      py_exn.splits intro: only_receives_disc dest: next_item_only chan_recv_only)

lemma asgi_receive_part_only: "only_receives s (snd (asgi_receive_part get s))"
  by (auto simp: asgi_receive_part_def split: prod.splits res.splits in_msg.splits
      intro: only_receives_disc dest: chan_recv_only)

lemma handle_receive_part_only: "only_receives s (snd (handle_receive_part get s))"
  by (auto simp: handle_receive_part_def split: prod.splits res.splits sum.splits
      dest: next_item_only)

lemma receive_text_only: "only_receives s (snd (receive_text env s))"
  by (simp add: receive_text_def asgi_receive_part_only handle_receive_part_only)

lemma receive_bytes_only: "only_receives s (snd (receive_bytes env s))"
  by (simp add: receive_bytes_def asgi_receive_part_only handle_receive_part_only)

lemma snd_then_loads [simp]: "snd (then_loads loads r) = snd r"
  by (auto simp: then_loads_def split: prod.splits res.splits)

lemma receive_json_only: "only_receives s (snd (receive_json env mode s))"
  by (simp add: receive_json_def receive_text_only receive_bytes_only)

lemmas receives_only =
  receive_only receive_text_only receive_bytes_only receive_json_only

text \<open>Sending: the object's own fields stay, and what was sent grows by the message or not at all.\<close>

lemma chan_send_cases:
  obtains (sent) "chan_send env m s = (Ret (), s\<lparr>sent := sent s @ [m]\<rparr>)"
  | (failed) e where "chan_send env m s = (Exn e, s)"
  by (cases "has_send s"; cases "send_raises env (sent s) m") (auto simp: chan_send_def)

lemma frame_keeps_inv:
  assumes "ws_inv s" and "app_state s = CONNECTED" and "m = MSendText x \<or> m = MSendBytes y"
  shows "ws_inv (snd (chan_send env m s))"
  using assms
  by (cases rule: chan_send_cases [of env m s]) (auto simp: ws_inv_iff is_asgi_def conversation_snoc)

lemma hand_over_asgi: "is_asgi s \<Longrightarrow> hand_over env c m s = (Ret (Coro m), s)"
  by (simp add: hand_over_def is_asgi_def)

lemma ws_inv_asgi: "ws_inv s \<Longrightarrow> is_asgi s"
  by (simp add: ws_inv_def is_asgi_def)

lemma send_text_inv: "ws_inv s \<Longrightarrow> ws_inv (snd (await_send env (send_text env x s)))"
  by (auto simp: send_text_def await_send_def hand_over_asgi ws_inv_asgi intro: frame_keeps_inv)

lemma send_bytes_inv: "ws_inv s \<Longrightarrow> ws_inv (snd (await_send env (send_bytes env x s)))"
  by (auto simp: send_bytes_def await_send_def hand_over_asgi ws_inv_asgi intro: frame_keeps_inv)

lemma send_json_inv: "ws_inv s \<Longrightarrow> ws_inv (snd (await_send env (send_json env v mode s)))"
  by (auto simp: send_json_def await_send_def hand_over_asgi ws_inv_asgi
      split: sum.splits intro: frame_keeps_inv)

lemma asgi_send_close_inv:
  assumes "ws_inv s" and "app_state s = DISCONNECTED"
    and "\<not> asgi_closed s"
  shows "ws_inv (asgi_send_close env code reason s)"
proof -
  obtain p where p: "conversation Handshake (sent s) = Some p" "p \<noteq> Done"
    using assms by (auto simp: ws_inv_iff)
  then have "converse p (MClose code reason) = Some Done" by (cases p) auto
  with p assms show ?thesis
    by (cases rule: chan_send_cases [of env "MClose code reason" "s\<lparr>asgi_closed := True\<rparr>"])
      (auto simp: asgi_send_close_def ws_inv_iff is_asgi_def conversation_snoc)
qed

lemma asgi_queue_close_inv: "ws_inv s \<Longrightarrow> ws_inv (asgi_queue_close code reason s)"
  by (auto simp: asgi_queue_close_def ws_inv_def split: WebSocketState.splits option.splits)

lemma disconnect_inv: "ws_inv s \<Longrightarrow> ws_inv (s\<lparr>app_state := DISCONNECTED\<rparr>)"
  by (rule only_receives_inv [of s]) (auto simp: only_receives_disc)

lemma reject_inv: "ws_inv s \<Longrightarrow> ws_inv (reject env status s)"
  by (simp add: reject_def Let_def disconnect_inv asgi_queue_close_inv)
    (simp add: ws_inv_def)

lemma last_close_inv: "ws_inv (s\<lparr>last_close := x\<rparr>) = ws_inv s"
  by (auto simp: ws_inv_def split: WebSocketState.splits option.splits)

lemma ws_close_inv:
  assumes "ws_inv s"
  shows "ws_inv (ws_close env code reason s)"
proof (cases "app_state s = DISCONNECTED")
  case False
  define r where "r = (case reason of None \<Rightarrow> [] | Some r \<Rightarrow> r)"
  let ?t = "s\<lparr>last_close := Some (code, r), app_state := DISCONNECTED\<rparr>"
  have "\<not> asgi_closed s"
    using assms False by (cases "app_state s") (auto simp: ws_inv_def)
  moreover have "ws_inv ?t"
    using disconnect_inv [of "s\<lparr>last_close := Some (code, r)\<rparr>"] assms by (simp add: last_close_inv)
  ultimately have "ws_inv (asgi_send_close env code r ?t)"
    by (intro asgi_send_close_inv) simp_all
  moreover have "ws_close env code reason s = asgi_send_close env code r ?t"
    using ws_inv_asgi [OF assms] False by (auto simp: ws_close_def Let_def r_def is_asgi_def)
  ultimately show ?thesis by simp
qed (use assms in \<open>simp add: ws_close_def\<close>)

lemma accept_reply_inv:
  assumes "ws_inv t" and "app_state t = CONNECTING"
  shows "ws_inv (snd (send_accept env (MAccept sub h) t))"
  using assms
  by (cases rule: chan_send_cases [of env "MAccept sub h" t])
    (auto simp: send_accept_def ws_inv_iff is_asgi_def conversation_snoc)

lemma chan_recv_state: "chan_recv s = (r, t) \<Longrightarrow> app_state t = app_state s"
  by (auto simp: chan_recv_def next_item_def split: if_splits list.splits sum.splits)

lemma accept_inv:
  assumes "ws_inv s"
  shows "ws_inv (snd (accept env sub hs s))"
proof (cases "app_state s = CONNECTING")
  case True
  obtain r t where rt: "chan_recv s = (r, t)" by fastforce
  have t: "ws_inv t" and st: "app_state t = CONNECTING"
    using only_receives_inv [OF assms chan_recv_only [OF rt]] chan_recv_state [OF rt] True by auto
  have "accept env sub hs s =
     (case r of
        Ret MConnect \<Rightarrow> send_accept env (MAccept sub (case hs of None \<Rightarrow> [] | Some hs \<Rightarrow> hs)) t
      | Ret _ \<Rightarrow> (Ret (), t\<lparr>app_state := DISCONNECTED\<rparr>)
      | Exn e \<Rightarrow> (Exn e, t) | Wait \<Rightarrow> (Wait, t))"
    using assms True by (simp add: accept_def rt ws_inv_def is_asgi_def)
  then show ?thesis
    by (simp add: accept_reply_inv [OF t st] disconnect_inv [OF t] t split: res.split in_msg.split)
qed (use assms in \<open>simp add: accept_def\<close>)

lemma handle_method_asgi: "ws_inv s \<Longrightarrow> handle_method env c s = (Exn (Py AttributeError), s)"
  by (simp add: handle_method_def ws_inv_def)

lemma ws_send_inv: "ws_inv s \<Longrightarrow> ws_inv (snd (ws_send env m s))"
  by (cases m) (simp_all add: ws_send_def accept_inv ws_close_inv handle_method_asgi split: option.splits)

lemma apply_op_inv [step_inv]: "ws_inv s \<Longrightarrow> ws_inv (apply_op env op s)"
  by (cases op)
    (simp_all add: accept_inv ws_close_inv ws_send_inv send_text_inv send_bytes_inv send_json_inv
      reject_inv asgi_queue_close_inv only_receives_inv [OF _ receive_only]
      only_receives_inv [OF _ receive_text_only] only_receives_inv [OF _ receive_bytes_only]
      only_receives_inv [OF _ receive_json_only])

interpretation websocket: transition_system
  "\<lambda>s. \<exists>msgs. s = ws_init False True True msgs" "ws_step env" ws_inv for env :: "'v ws_env"
proof unfold_locales
  show "ws_inv s" if "\<exists>msgs. s = ws_init False True True msgs" for s
    using that by (auto simp: ws_inv_def ws_init_def)
  show "ws_inv t" if "ws_inv s" and "ws_step env s e t" for s e t
    using that by (simp add: ws_step_def step_inv)
qed

lemma run_ws_step: "run (ws_step env) s ops t \<longleftrightarrow> t = fold (apply_op env) ops s"
proof (induction ops arbitrary: s)
  case Nil
  show ?case by (auto intro: run_Nil)
next
  case (Cons op ops)
  have "run (ws_step env) s (op # ops) t \<longleftrightarrow> run (ws_step env) (apply_op env op s) ops t"
    by (auto simp: ws_step_def intro: run_Cons)
  with Cons show ?case by simp
qed

text \<open>A disconnected object stays disconnected and sends nothing any more.\<close>

lemma only_receives_keeps: "only_receives s t \<Longrightarrow> sent t = sent s \<and> asgi_closed t = asgi_closed s"
  by (auto simp: only_receives_def)

lemma disconnected_silent:
  assumes "ws_inv s" and "app_state s = DISCONNECTED"
  shows "sent (apply_op env op s) = sent s \<and> asgi_closed (apply_op env op s) = asgi_closed s"
  using assms
  by (cases op)
    (simp_all add: accept_def ws_close_def ws_send_def send_text_def send_bytes_def send_json_def
      await_send_def reject_def asgi_queue_close_def receives_only [THEN only_receives_keeps]
      ws_inv_def is_asgi_def Let_def split: low_msg.split)

lemma asgi_closed_disconnected: "ws_inv s \<Longrightarrow> asgi_closed s \<Longrightarrow> app_state s = DISCONNECTED"
  by (auto simp: ws_inv_def split: WebSocketState.splits)

text \<open>On a channel that never raises, a close that was marked as sent did reach the peer.\<close>

definition reliable :: "'v ws_env \<Rightarrow> bool" where
  "reliable env \<longleftrightarrow> (\<forall>h m. send_raises env h m = None)"

definition closed_done :: "ws \<Rightarrow> bool" where
  "closed_done s \<longleftrightarrow> (asgi_closed s \<longrightarrow> conversation Handshake (sent s) = Some Done)"

lemma asgi_send_close_done:
  assumes "reliable env" and "ws_inv s" and "closed_done s"
  shows "conversation Handshake (sent (asgi_send_close env code reason s)) = Some Done"
proof (cases "asgi_closed s")
  case False
  obtain p where p: "conversation Handshake (sent s) = Some p" "p \<noteq> Done"
    using assms(2) False by (auto simp: ws_inv_def split: WebSocketState.splits option.splits)
  then have "converse p (MClose code reason) = Some Done" by (cases p) auto
  with p False assms(1,2) show ?thesis
    by (simp add: asgi_send_close_def chan_send_def reliable_def conversation_snoc ws_inv_def)
qed (use assms in \<open>simp add: closed_done_def asgi_send_close_def\<close>)

lemma ws_close_done:
  assumes "reliable env" and "ws_inv s" and "closed_done s"
  shows "closed_done (ws_close env code reason s)"
proof (cases "app_state s = DISCONNECTED")
  case False
  define t where "t = s\<lparr>last_close := Some (code, case reason of None \<Rightarrow> [] | Some r \<Rightarrow> r),
      app_state := DISCONNECTED\<rparr>"
  have "ws_inv t" and "closed_done t"
    using assms(2,3) disconnect_inv [of "s\<lparr>last_close := _\<rparr>"]
    by (simp_all add: last_close_inv t_def closed_done_def)
  moreover have "\<exists>r. ws_close env code reason s = asgi_send_close env code r t"
    using ws_inv_asgi [OF assms(2)] False by (auto simp: ws_close_def Let_def is_asgi_def t_def)
  ultimately show ?thesis
    using asgi_send_close_done [OF assms(1)] by (auto simp: closed_done_def)
qed (use assms in \<open>simp add: ws_close_def\<close>)

lemma chan_send_closed [simp]: "asgi_closed (snd (chan_send env m s)) = asgi_closed s"
  by (auto simp: chan_send_def split: option.splits)

lemma chan_recv_closed: "chan_recv s = (r, t) \<Longrightarrow> asgi_closed t = asgi_closed s"
  using only_receives_keeps [OF chan_recv_only] by blast

lemma accept_closed: "asgi_closed (snd (accept env sub hs s)) = asgi_closed s"
proof -
  have reply: "asgi_closed (snd (send_accept env m t)) = asgi_closed t" for m t
    by (cases rule: chan_send_cases [of env m t]) (auto simp: send_accept_def)
  obtain r t where rt: "chan_recv s = (r, t)" by fastforce

  show ?thesis
    by (simp add: accept_def call_handle_def rt reply chan_recv_closed [OF rt]
        split: res.split in_msg.split option.split)
qed

lemma await_send_closed: "asgi_closed (snd (await_send env r)) = asgi_closed (snd r)"
  by (auto simp: await_send_def split: prod.splits res.splits awaitable.splits)

lemma hand_over_closed: "asgi_closed (snd (hand_over env c m s)) = asgi_closed s"
  by (auto simp: hand_over_def call_handle_def split: option.splits)

lemma closed_kept:
  assumes "\<forall>code reason. op \<noteq> OpClose code reason" and "\<forall>code reason. op \<noteq> OpSend (LClose code reason)"
  shows "asgi_closed (apply_op env op s) = asgi_closed s"
  using assms
  by (cases op)
    (simp_all add: accept_closed ws_send_def send_text_def send_bytes_def send_json_def
      await_send_closed hand_over_closed reject_def asgi_queue_close_def handle_method_def
      call_handle_def receives_only [THEN only_receives_keeps] Let_def
      split: low_msg.split option.split sum.split)

lemma apply_op_done:
  assumes "reliable env" and "ws_inv s" and "closed_done s"
  shows "closed_done (apply_op env op s)"
proof (cases "asgi_closed s")
  case True
  then show ?thesis
    using assms disconnected_silent [OF assms(2), of env op] asgi_closed_disconnected [OF assms(2)]
    by (simp add: closed_done_def)
next
  case False
  show ?thesis
  proof (cases "(\<exists>c r. op = OpClose c r) \<or> (\<exists>c r. op = OpSend (LClose c r))")
    case True
    then show ?thesis using ws_close_done [OF assms] by (auto simp: ws_send_def)
  next
    case other: False
    then have "asgi_closed (apply_op env op s) = asgi_closed s"
      by (intro closed_kept) auto
    with False show ?thesis by (simp add: closed_done_def)
  qed
qed

lemma fold_op_inv: "ws_inv s \<Longrightarrow> ws_inv (fold (apply_op env) ops s)"
  by (rule websocket.run_keeps [of env s ops]) (simp_all add: run_ws_step)

lemma fold_op_done:
  "reliable env \<Longrightarrow> ws_inv s \<Longrightarrow> closed_done s \<Longrightarrow> closed_done (fold (apply_op env) ops s)"
  by (induction ops arbitrary: s) (simp_all add: apply_op_done apply_op_inv)

lemma session_conversation:
  "\<exists>p. conversation Handshake (sent (ws_session env msgs ops)) = Some p \<and>
     (let s = fold (apply_op env) ops (ws_init False True True msgs)
      in reliable env \<and> (asgi_closed s \<or> pending_close s \<noteq> None) \<longrightarrow> p = Done)"
proof -
  define s where "s = fold (apply_op env) ops (ws_init False True True msgs)"
  have inv: "ws_inv s"
    unfolding s_def by (rule fold_op_inv) (simp add: ws_inv_def ws_init_def)
  have don: "closed_done s" if "reliable env"
    unfolding s_def using that
    by (rule fold_op_done) (simp_all add: ws_inv_def ws_init_def closed_done_def)
  obtain p where p: "conversation Handshake (sent s) = Some p" "p = Done \<longrightarrow> asgi_closed s"
    using inv by (auto simp: ws_inv_def split: WebSocketState.splits option.splits)
  have flush: "\<exists>q. conversation Handshake (sent (asgi_send_close env code reason s)) = Some q"
    for code reason
  proof (cases "asgi_closed s")
    case False
    with p have "converse p (MClose code reason) = Some Done" by (cases p) auto
    with p False show ?thesis
      by (cases rule: chan_send_cases [of env "MClose code reason" "s\<lparr>asgi_closed := True\<rparr>"])
        (auto simp: asgi_send_close_def conversation_snoc)
  qed (use p in \<open>simp add: asgi_send_close_def\<close>)
  show ?thesis
  proof (cases "pending_close s")
    case None
    with p don show ?thesis
      by (simp add: ws_session_def flush_pending_def closed_done_def flip: s_def)
  next
    case (Some cr)
    obtain code reason where cr: "cr = (code, reason)" by fastforce
    obtain q where "conversation Handshake (sent (asgi_send_close env code reason s)) = Some q"
      using flush by blast
    with Some cr don inv asgi_send_close_done [of env s code reason] show ?thesis
      by (simp add: ws_session_def flush_pending_def flip: s_def)
  qed
qed


definition demo_env :: "int ws_env" where
  "demo_env =
     \<lparr>send_raises = (\<lambda>h m. None), call_raises = (\<lambda>h c. None), handle_state = (\<lambda>h. None),
      handle_text = (\<lambda>x. Inl (Py TypeError)), handle_bytes = (\<lambda>x. Inl (Py TypeError)),
      json_dumps = (\<lambda>v. Inr [nat v]), json_loads_text = (\<lambda>t. Inr 0), json_loads_bytes = (\<lambda>b. Inr 0)\<rparr>"


section \<open>What the iterators yield\<close>

text \<open>
  The contract that the loop relies on: a receiving method that returns has consumed exactly one
  message.  The three methods that the iterators call provide it.
\<close>

locale message_source =
  fixes recv :: "ws \<Rightarrow> 'a res \<times> ws"
  assumes recv_consumes: "recv s = (Ret x, t) \<Longrightarrow> \<exists>m. inbox s = m # inbox t"
begin

lemma iterate_unfold:
  "iterate recv s =
     (case recv s of
        (Exn e, t) \<Rightarrow> ([], if ends_iteration e then Stopped else Escaped e, t)
      | (Wait, t) \<Rightarrow> ([], Waiting, t)
      | (Ret x, t) \<Rightarrow> (case iterate recv t of (xs, fin, u) \<Rightarrow> (x # xs, fin, u)))"
proof (cases "recv s")
  case (Pair r t)
  then show ?thesis
    using recv_consumes [of s _ t] by (subst iterate.simps) (auto split: res.split)
qed

lemma iterate_bound: "iterate recv s = (xs, fin, u) \<Longrightarrow> length xs \<le> length (inbox s)"
proof (induction "length (inbox s)" arbitrary: s xs fin u rule: less_induct)
  case less
  show ?case
  proof (cases "\<exists>x t. recv s = (Ret x, t)")
    case True
    then obtain x t where rt: "recv s = (Ret x, t)" by blast
    obtain ys f v where it: "iterate recv t = (ys, f, v)" by (cases "iterate recv t") auto
    obtain m where m: "inbox s = m # inbox t" using recv_consumes [OF rt] by blast
    then have "length ys \<le> length (inbox t)" by (intro less.hyps [OF _ it]) simp
    moreover have "xs = x # ys" using less.prems rt it by (simp add: iterate_unfold [of s])
    ultimately show ?thesis by (simp add: m)
  next
    case False
    with less.prems show ?thesis
      by (cases "recv s"; cases "fst (recv s)") (auto simp: iterate_unfold [of s])
  qed
qed

end

lemma next_item_consumes: "next_item s = (Ret x, t) \<Longrightarrow> inbox s = x # inbox t"
  by (auto simp: next_item_def split: list.splits)

lemma chan_recv_consumes: "chan_recv s = (Ret x, t) \<Longrightarrow> inbox s = Inr x # inbox t"
  by (auto simp: chan_recv_def split: if_splits prod.splits res.splits sum.splits
      dest: next_item_consumes)

lemma asgi_receive_part_consumes:
  "asgi_receive_part get s = (Ret x, t) \<Longrightarrow> \<exists>m. inbox s = m # inbox t"
  by (auto simp: asgi_receive_part_def split: prod.splits res.splits in_msg.splits
      dest: chan_recv_consumes)

lemma handle_receive_part_consumes:
  "handle_receive_part get s = (Ret x, t) \<Longrightarrow> \<exists>m. inbox s = m # inbox t"
  by (auto simp: handle_receive_part_def split: prod.splits res.splits sum.splits
      dest: next_item_consumes)

interpretation text_source: message_source "receive_text env" for env :: "'v ws_env"
  by unfold_locales
    (auto simp: receive_text_def split: if_splits
      dest: asgi_receive_part_consumes handle_receive_part_consumes)

interpretation bytes_source: message_source "receive_bytes env" for env :: "'v ws_env"
  by unfold_locales
    (auto simp: receive_bytes_def split: if_splits
      dest: asgi_receive_part_consumes handle_receive_part_consumes)

interpretation json_source: message_source "receive_json env mode" for env :: "'v ws_env" and mode
  by unfold_locales
    (auto simp: receive_json_def then_loads_def split: if_splits prod.splits res.splits sum.splits
      dest: text_source.recv_consumes bytes_source.recv_consumes)

fun is_disconnect :: "in_msg \<Rightarrow> bool" where
  "is_disconnect (MDisconnect _ _) = True"
| "is_disconnect _ = False"

text \<open>The in-process receiving methods, on a message and on an empty channel.\<close>

lemma asgi_receive_part_simps:
  assumes "has_receive s"
  shows "inbox s = Inr m # ms \<Longrightarrow> \<not> is_disconnect m \<Longrightarrow>
           asgi_receive_part get s = (Ret (get m), s\<lparr>inbox := ms\<rparr>)"
    and "inbox s = Inr (MDisconnect c r) # ms \<Longrightarrow>
           asgi_receive_part get s =
             (Exn (disconnect_exn c r), s\<lparr>inbox := ms, app_state := DISCONNECTED\<rparr>)"
    and "inbox s = [] \<Longrightarrow> asgi_receive_part get s = (Wait, s)"
  using assms
  by (auto simp: asgi_receive_part_def chan_recv_def next_item_def split: in_msg.split)

definition reads_channel :: "(ws \<Rightarrow> 'a option res \<times> ws) \<Rightarrow> (in_msg \<Rightarrow> 'a option) \<Rightarrow> bool" where
  "reads_channel recv get \<longleftrightarrow>
     (\<forall>s. \<not> has_handle s \<and> app_state s \<noteq> DISCONNECTED \<longrightarrow> recv s = asgi_receive_part get s)"

lemma reads_channelD:
  "reads_channel recv get \<Longrightarrow> \<not> has_handle s \<Longrightarrow> app_state s \<noteq> DISCONNECTED \<Longrightarrow>
     recv s = asgi_receive_part get s"
  by (simp add: reads_channel_def)

lemma iterate_asgi:
  assumes "message_source recv"
    and "reads_channel recv get"
    and "\<not> has_handle s" and "has_receive s" and "app_state s \<noteq> DISCONNECTED"
    and "\<forall>m \<in> set ms. \<not> is_disconnect m"
  shows "inbox s = map Inr ms @ Inr (MDisconnect c r) # rest \<Longrightarrow>
           iterate recv s = (map get ms, Stopped, s\<lparr>inbox := rest, app_state := DISCONNECTED\<rparr>)"
    and "inbox s = map Inr ms \<Longrightarrow> iterate recv s = (map get ms, Waiting, s\<lparr>inbox := []\<rparr>)"
  using assms(3-)
proof (induction ms arbitrary: s)
  case Nil
  { case 1
    then show ?case
      by (simp add: message_source.iterate_unfold [OF assms(1), of s] reads_channelD [OF assms(2)]
          asgi_receive_part_simps disconnect_exn_def)
  next
    case 2
    moreover from 2 have "s\<lparr>inbox := []\<rparr> = s" by (cases s) simp
    ultimately show ?case
      by (simp add: message_source.iterate_unfold [OF assms(1), of s] reads_channelD [OF assms(2)]
          asgi_receive_part_simps) }
next
  case (Cons m ms)
  { case 1
    have "iterate recv (s\<lparr>inbox := map Inr ms @ Inr (MDisconnect c r) # rest\<rparr>)
        = (map get ms, Stopped, s\<lparr>inbox := rest, app_state := DISCONNECTED\<rparr>)"
      using "1" Cons.IH(1) [of "s\<lparr>inbox := map Inr ms @ Inr (MDisconnect c r) # rest\<rparr>"] by simp
    with "1" show ?case
      by (simp add: message_source.iterate_unfold [OF assms(1), of s] reads_channelD [OF assms(2)]
          asgi_receive_part_simps)
  next
    case 2
    have "iterate recv (s\<lparr>inbox := map Inr ms\<rparr>) = (map get ms, Waiting, s\<lparr>inbox := []\<rparr>)"
      using "2" Cons.IH(2) [of "s\<lparr>inbox := map Inr ms\<rparr>"] by simp
    with "2" show ?case
      by (simp add: message_source.iterate_unfold [OF assms(1), of s] reads_channelD [OF assms(2)]
          asgi_receive_part_simps) }
qed

lemma receive_text_reads: "reads_channel (receive_text env) msg_text"
  by (simp add: reads_channel_def receive_text_def)

lemma receive_bytes_reads: "reads_channel (receive_bytes env) msg_bytes"
  by (simp add: reads_channel_def receive_bytes_def)



section \<open>Close errors of the engine\<close>

lemma partition_at_first:
  "c \<notin> set xs \<Longrightarrow> partition_at c (xs @ c # ys) = (xs, ys)"
  "c \<notin> set xs \<Longrightarrow> partition_at c xs = (xs, [])"
  by (induction xs) auto

text \<open>
  C25.  The close code and the reason that the engine packs into its error text are recovered
  exactly, for every code and for every reason, one with colons included; an error of any other
  shape is reported as a normal closure that carries the whole text.  A receiving handler sees the
  recovered pair as its disconnect message and the object is disconnected.
\<close>

theorem close_info_roundtrip:
  "extract_close_info_from_error (ws_closed_tag @ dec_int code @ '':'' @ reason) = (code, reason) \<and>
   extract_close_info_from_error (ws_closed_tag @ dec_int code) = (code, []) \<and>
   (\<not> prefix ws_closed_tag msg \<longrightarrow> extract_close_info_from_error msg = (1000, msg)) \<and>
   (has_handle s \<and> app_state s \<noteq> DISCONNECTED \<and>
    inbox s = Inl (Py (RuntimeError (ws_closed_tag @ dec_int code @ '':'' @ reason))) # rest \<longrightarrow>
      receive s = (Ret (MDisconnect (Some code) (Some reason)),
                   s\<lparr>inbox := rest, app_state := DISCONNECTED\<rparr>))"
proof -
  have "partition_at CHR '':'' (dec_int code @ CHR '':'' # reason) = (dec_int code, reason)"
    and "partition_at CHR '':'' (dec_int code) = (dec_int code, [])"
    using partition_at_first dec_int_no_colon by auto
  then have "extract_close_info_from_error (ws_closed_tag @ dec_int code @ '':'' @ reason) = (code, reason)"
    and "extract_close_info_from_error (ws_closed_tag @ dec_int code) = (code, [])"
    by (simp_all add: extract_close_info_from_error_def py_simps)
  then show ?thesis
    by (simp add: receive_def next_item_def) (simp add: extract_close_info_from_error_def)
qed

theorem close_info_roundtrip_witness:
  "extract_close_info_from_error (ws_closed_tag @ dec_int 4401 @ '':'' @ ''a:b'') = (4401, ''a:b'') \<and>
   extract_close_info_from_error ''reset by peer'' = (1000, ''reset by peer'') \<and>
   fst (receive (ws_init True False False
      [Inl (Py (RuntimeError (ws_closed_tag @ dec_int 4401 @ '':'' @ ''a:b'')))]))
   = Ret (MDisconnect (Some 4401) (Some ''a:b''))"
  using close_info_roundtrip [of 4401 "''a:b''" "''reset by peer''" "ws_init True False False
      [Inl (Py (RuntimeError (ws_closed_tag @ dec_int 4401 @ '':'' @ ''a:b'')))]" "[]"]
  by (simp add: ws_init_def ws_closed_tag_def)

section \<open>Observations on the methods\<close>

text \<open>
  The low-level \<open>send\<close> hands a \<open>websocket.send\<close> message to the engine's handle, also when there is
  none: on the in-process door it raises \<open>AttributeError\<close> where \<open>send_text\<close> sends.
\<close>

lemma low_level_send_fails_in_process:
  assumes "is_asgi s" and "app_state s = CONNECTED"
  shows "ws_send env (LSend (Some x) b) s = (Exn (Py AttributeError), s)"
    and "ws_send env (LSend None (Some y)) s = (Exn (Py AttributeError), s)"
    and "await_send env (send_text env x s) = chan_send env (MSendText x) s"
  using assms
  by (simp_all add: ws_send_def handle_method_def is_asgi_def send_text_def hand_over_def await_send_def)

text \<open>
  An unknown \<open>mode\<close> is an error of \<open>receive_json\<close>, and an iteration that ends at once and silently
  in \<open>iter_json\<close>.
\<close>

lemma iter_json_hides_bad_mode:
  assumes "\<not> valid_send_json_mode mode"
  shows "receive_json env mode s = (Exn bad_mode, s)" and "iter_json env mode s = ([], Stopped, s)"
  using assms
  by (simp_all add: iter_json_def json_source.iterate_unfold [of env mode s] receive_json_def bad_mode_def)

text \<open>
  The state is checked when \<open>send_text\<close> is called and not when its result is awaited: a frame whose
  awaitable is kept past a \<open>close\<close> goes out after the close frame.
\<close>

lemma deferred_send_after_close:
  assumes "is_asgi s" and "app_state s = CONNECTED" and "\<not> asgi_closed s" and "reliable env"
  shows "fst (send_text env x s) = Ret (Coro (MSendText x))"
    and "sent (snd (await_send env (Ret (Coro (MSendText x)), ws_close env code None s)))
           = sent s @ [MClose code [], MSendText x]"
  using assms
  by (simp_all add: send_text_def hand_over_def is_asgi_def ws_close_def Let_def asgi_send_close_def
      await_send_def chan_send_def reliable_def)

end
