(* ===== verification/Ws_Endpoint.thy ===== *)
theory Ws_Endpoint
  imports Web_Socket "HOL-Library.AList"
begin

text \<open>
  The pipeline around a WebSocket endpoint (\<open>_ws_support.py\<close>): the classification of the handler's
  parameters, the resolution of dependencies with their cache and their generators, the mapping of
  exceptions to close codes, the tear-down of generators, the bridge to WebSocket middleware, the
  dependency-scope check at decoration time, and the adapter for endpoint classes.

  Python functions are numbers; the record \<open>ws_user\<close> says what a function's signature is and what
  running it does.  User code sees the socket and everything that happened before (the log), and
  acts by a sequence of WebSocket operations and a result.  Type annotations that reach pydantic
  are elements of an arbitrary type, and \<open>validate\<close> is its \<open>TypeAdapter\<close>.
\<close>

section \<open>Signatures\<close>

record dep =
  dependency :: "nat option"
  use_cache :: bool
  dscope :: "string option"

text \<open>Argument values: the socket itself, \<open>None\<close>, a raw string, a validated or user value, a marker object.\<close>

datatype 'v pyarg = ASocket | ANoneVal | AText string | AVal 'v | ADepends dep

datatype mkind = KQuery | KHeader bool | KCookie | KOther string

text \<open>A marker without a default (\<open>...\<close> or \<open>PydanticUndefined\<close>) is required.\<close>

record 'v marker =
  mkind :: mkind
  malias :: "string option"
  mdefault :: "'v pyarg option"

datatype ('v, 'ty) ann =
    AEmpty
  | ANone
  | AWebSocket
  | AHTTPConnection
  | AName string
  | AStr
  | AType 'ty
  | AAnnotated "('v, 'ty) ann" "(dep + 'v marker) list"

datatype 'v pdefault = PEmpty | PDep dep | PMarker "'v marker" | PVal "'v pyarg"

datatype pkind = PositionalOnly | PositionalOrKeyword | VarPositional | KeywordOnly | VarKeyword

text \<open>\<open>hint\<close> is the entry that \<open>typing.get_type_hints\<close> has for the parameter, if any.\<close>

record ('v, 'ty) param =
  pname :: string
  raw_ann :: "('v, 'ty) ann"
  hint :: "('v, 'ty) ann option"
  pdefault :: "'v pdefault"
  pkind :: pkind

datatype fkind = FPlain | FCoroutine | FGen | FAsyncGen

record ('v, 'ty) fn =
  fname :: string
  fsig :: "('v, 'ty) param list option"
  fkind :: fkind

definition is_yield :: "('v, 'ty) fn \<Rightarrow> bool" where
  "is_yield f \<longleftrightarrow> fkind f = FGen \<or> fkind f = FAsyncGen"

definition resolved_ann :: "('v, 'ty) param \<Rightarrow> ('v, 'ty) ann" where
  "resolved_ann p = (case hint p of Some a \<Rightarrow> a | None \<Rightarrow> raw_ann p)"

fun first_dep :: "(dep + 'v marker) list \<Rightarrow> dep option" where
  "first_dep [] = None"
| "first_dep (Inl d # ms) = Some d"
| "first_dep (Inr _ # ms) = first_dep ms"

fun first_marker :: "(dep + 'v marker) list \<Rightarrow> 'v marker option" where
  "first_marker [] = None"
| "first_marker (Inr m # ms) = Some m"
| "first_marker (Inl _ # ms) = first_marker ms"

definition extract_depends :: "('v, 'ty) ann \<Rightarrow> 'v pdefault \<Rightarrow> dep option" where
  "extract_depends a d =
     (case d of
        PDep x \<Rightarrow> Some x
      | _ \<Rightarrow> (case a of AAnnotated _ ms \<Rightarrow> first_dep ms | _ \<Rightarrow> None))"

text \<open>A marker in the annotation takes precedence over one that is the default value.\<close>

definition extract_marker :: "('v, 'ty) ann \<Rightarrow> 'v pdefault \<Rightarrow> 'v marker option" where
  "extract_marker a d =
     (let by_default = (case d of PMarker m \<Rightarrow> Some m | _ \<Rightarrow> None)
      in case a of
           AAnnotated _ ms \<Rightarrow> (case first_marker ms of Some m \<Rightarrow> Some m | None \<Rightarrow> by_default)
         | _ \<Rightarrow> by_default)"

fun inner_type :: "('v, 'ty) ann \<Rightarrow> ('v, 'ty) ann" where
  "inner_type (AAnnotated a _) = a"
| "inner_type a = a"

definition is_websocket_annotation :: "('v, 'ty) param \<Rightarrow> bool" where
  "is_websocket_annotation p \<longleftrightarrow>
     resolved_ann p = AWebSocket \<or>
     raw_ann p = AName ''WebSocket'' \<or> raw_ann p = AName ''fastapi_turbo.websockets.WebSocket''"

text \<open>A dependency may ask for the connection as \<open>WebSocket\<close> or as its parent \<open>HTTPConnection\<close>.\<close>

definition is_connection_annotation :: "('v, 'ty) param \<Rightarrow> bool" where
  "is_connection_annotation p \<longleftrightarrow>
     is_websocket_annotation p \<or> resolved_ann p = AHTTPConnection \<or>
     raw_ann p = AName ''HTTPConnection'' \<or> raw_ann p = AName ''fastapi_turbo.requests.HTTPConnection''"

section \<open>Classifying the handler's parameters\<close>

datatype ('v, 'ty) spec =
    SDep string dep
  | SWs string
  | SPath string "('v, 'ty) ann"
  | SScalar string "'v marker" "('v, 'ty) ann"

text \<open>Without an annotated socket parameter the first plain positional one receives the socket.\<close>

definition takes_socket :: "('v, 'ty) param \<Rightarrow> bool" where
  "takes_socket p \<longleftrightarrow>
     (pkind p = PositionalOnly \<or> pkind p = PositionalOrKeyword) \<and>
     extract_depends (resolved_ann p) (pdefault p) = None \<and>
     extract_marker (resolved_ann p) (pdefault p) = None"

definition ws_fallback_name :: "('v, 'ty) param list \<Rightarrow> string option" where
  "ws_fallback_name ps =
     (if \<exists>p \<in> set ps. is_websocket_annotation p then None
      else map_option pname (find takes_socket ps))"

definition query_marker :: "'v pyarg option \<Rightarrow> 'v marker" where
  "query_marker d = \<lparr>mkind = KQuery, malias = None, mdefault = d\<rparr>"

text \<open>The default as an argument value; a marker object cannot occur here, it is classified before.\<close>

fun default_arg :: "'v pdefault \<Rightarrow> 'v pyarg option" where
  "default_arg PEmpty = None"
| "default_arg (PVal v) = Some v"
| "default_arg (PDep d) = Some (ADepends d)"
| "default_arg (PMarker m) = mdefault m"

definition classify :: "string set \<Rightarrow> string option \<Rightarrow> ('v, 'ty) param \<Rightarrow> ('v, 'ty) spec option" where
  "classify path_names fallback p =
     (case extract_depends (resolved_ann p) (pdefault p) of
        Some d \<Rightarrow> (if dependency d = None then None else Some (SDep (pname p) d))
      | None \<Rightarrow>
          if is_websocket_annotation p \<or> fallback = Some (pname p) then Some (SWs (pname p))
          else if pname p \<in> path_names then Some (SPath (pname p) (inner_type (resolved_ann p)))
          else
            case extract_marker (resolved_ann p) (pdefault p) of
              Some m \<Rightarrow> Some (SScalar (pname p) m (inner_type (resolved_ann p)))
            | None \<Rightarrow>
                if pkind p = VarPositional \<or> pkind p = VarKeyword then None
                else if resolved_ann p = AEmpty then
                  Some (SScalar (pname p)
                    (query_marker (case default_arg (pdefault p) of
                                     Some ANoneVal \<Rightarrow> None | d \<Rightarrow> d)) AStr)
                else Some (SScalar (pname p) (query_marker (default_arg (pdefault p))) (resolved_ann p)))"

definition param_spec :: "string set \<Rightarrow> ('v, 'ty) param list \<Rightarrow> ('v, 'ty) spec list" where
  "param_spec path_names ps = List.map_filter (classify path_names (ws_fallback_name ps)) ps"

section \<open>Connections and user code\<close>

text \<open>\<open>WebSocketException\<close> carries a code and a reason; \<open>UserExn\<close> is any exception class of the application.\<close>

datatype wexn =
    WebSocketException "int option" "string option"
  | WebSocketRequestValidationError string
  | WsRaised ws_exn
  | UserExn nat

type_synonym 'v kwargs = "(string \<times> 'v pyarg) list"

text \<open>
  What happened on a connection: dependency calls (by the declared function), generators that
  reached their \<open>yield\<close> and their tear-down (by the function that made them), the endpoint's calls,
  calls of exception handlers.
\<close>

datatype 'v ev =
    ECall nat "'v kwargs"
  | EYield nat
  | EEndpoint "'v kwargs"
  | EFinish nat
  | EHandler nat

text \<open>
  One connection: its socket, the generators waiting for tear-down with their scope, the dependency
  cache, the log, and the application's queue of captured exceptions (\<open>_ws_server_exceptions\<close>).
\<close>

record 'v conn =
  sock :: ws
  gens :: "(nat \<times> bool \<times> string) list"
  cache :: "nat \<rightharpoonup> 'v pyarg"
  elog :: "'v ev list"
  captured :: "wexn list"

type_synonym 'v asgi_app = "'v conn \<Rightarrow> (wexn + unit) \<times> 'v conn"

text \<open>A middleware factory of the application: it wraps the application it is given, or raises.\<close>

datatype 'v factory = Wraps "'v asgi_app \<Rightarrow> 'v asgi_app" | Fails wexn

record ('v, 'ty) ws_user =
  wenv :: "'v ws_env"
  funs :: "nat \<Rightarrow> ('v, 'ty) fn"
  overrides :: "(nat \<times> nat) list"
  query :: "string \<Rightarrow> string option"
  cookie :: "string \<Rightarrow> string option"
  header :: "string \<Rightarrow> string option"
  validate :: "('v, 'ty) ann \<Rightarrow> string \<Rightarrow> string + 'v"
  ucall :: "'v ev list \<Rightarrow> ws \<Rightarrow> nat \<Rightarrow> 'v kwargs \<Rightarrow> 'v ws_op list \<times> (wexn + 'v pyarg)"
  ufinish :: "'v ev list \<Rightarrow> ws \<Rightarrow> nat \<Rightarrow> 'v ws_op list \<times> wexn option"
  uhandler :: "'v ev list \<Rightarrow> ws \<Rightarrow> nat \<Rightarrow> wexn \<Rightarrow> 'v ws_op list \<times> wexn option"
  handlers :: "(nat \<times> nat) list"
  validation_key :: nat
  isinst :: "wexn \<Rightarrow> nat \<Rightarrow> bool option"
  factories :: "'v factory list"

definition act :: "('v, 'ty) ws_user \<Rightarrow> 'v ws_op list \<Rightarrow> 'v ev \<Rightarrow> 'v conn \<Rightarrow> 'v conn" where
  "act u ops e c = c\<lparr>sock := fold (apply_op (wenv u)) ops (sock c), elog := elog c @ [e]\<rparr>"

section \<open>Resolving dependencies\<close>

definition effective_dep_callable :: "('v, 'ty) ws_user \<Rightarrow> nat \<Rightarrow> nat" where
  "effective_dep_callable u f = (case map_of (overrides u) f of Some g \<Rightarrow> g | None \<Rightarrow> f)"

definition get_dep_scope :: "dep \<Rightarrow> string" where
  "get_dep_scope d =
     (case dscope d of
        Some s \<Rightarrow> (if s = ''function'' \<or> s = ''request'' then s else ''request'')
      | None \<Rightarrow> ''request'')"

definition resolve_ws_scalar_raw :: "('v, 'ty) ws_user \<Rightarrow> string \<Rightarrow> 'v marker \<Rightarrow> string option" where
  "resolve_ws_scalar_raw u p_name m =
     (let alias = (case malias m of Some (c # cs) \<Rightarrow> c # cs | _ \<Rightarrow> p_name)
      in case mkind m of
           KQuery \<Rightarrow> query u alias
         | KCookie \<Rightarrow> cookie u alias
         | KHeader convert \<Rightarrow>
             header u (if convert then map (\<lambda>c. if c = CHR ''_'' then CHR ''-'' else c) alias else alias)
         | KOther _ \<Rightarrow> None)"

definition validate_scalar :: "('v, 'ty) ws_user \<Rightarrow> string \<Rightarrow> ('v, 'ty) ann \<Rightarrow> wexn + 'v pyarg" where
  "validate_scalar u val a =
     (if a = AEmpty \<or> a = ANone then Inr (AText val)
      else case validate u a val of
             Inr v \<Rightarrow> Inr (AVal v)
           | Inl errors \<Rightarrow> Inl (WebSocketRequestValidationError errors))"

fun marker_class :: "mkind \<Rightarrow> string" where
  "marker_class KQuery = ''Query''"
| "marker_class (KHeader _) = ''Header''"
| "marker_class KCookie = ''Cookie''"
| "marker_class (KOther n) = n"

definition missing :: "string \<Rightarrow> string \<Rightarrow> wexn" where
  "missing what name =
     WebSocketException (Some 1008) (Some (''missing '' @ what @ '' '' @ [CHR 0x27] @ name @ [CHR 0x27]))"

text \<open>A Query, Header or Cookie parameter, of the handler or of a dependency.\<close>

definition scalar_value :: "('v, 'ty) ws_user \<Rightarrow> string \<Rightarrow> 'v marker \<Rightarrow> ('v, 'ty) ann \<Rightarrow> wexn + 'v pyarg" where
  "scalar_value u name m inner =
     (case resolve_ws_scalar_raw u name m of
        None \<Rightarrow>
          (case mdefault m of
             Some d \<Rightarrow> Inr d
           | None \<Rightarrow> Inl (missing (marker_class (mkind m)) name))
      | Some raw \<Rightarrow> validate_scalar u raw inner)"

text \<open>A parameter of a dependency without any marker is a query parameter.\<close>

definition plain_value :: "('v, 'ty) ws_user \<Rightarrow> ('v, 'ty) param \<Rightarrow> wexn + 'v pyarg" where
  "plain_value u p =
     (case query u (pname p) of
        None \<Rightarrow>
          (case default_arg (pdefault p) of
             Some d \<Rightarrow> Inr d
           | None \<Rightarrow> Inl (missing ''query parameter'' (pname p)))
      | Some raw \<Rightarrow> validate_scalar u raw (inner_type (resolved_ann p)))"

text \<open>A \<open>Depends\<close> without a function is no sub-dependency.\<close>

definition sub_dependency :: "('v, 'ty) param \<Rightarrow> dep option" where
  "sub_dependency p =
     (case extract_depends (resolved_ann p) (pdefault p) of
        Some d \<Rightarrow> (if dependency d = None then None else Some d)
      | None \<Rightarrow> None)"

type_synonym 'v resolver = "dep \<Rightarrow> 'v conn \<Rightarrow> (wexn + 'v pyarg) \<times> 'v conn"

definition resolve_param ::
  "('v, 'ty) ws_user \<Rightarrow> 'v resolver \<Rightarrow> ('v, 'ty) param \<Rightarrow> 'v conn \<Rightarrow> (wexn + 'v pyarg option) \<times> 'v conn"
where
  "resolve_param u resolve p c =
     (if is_connection_annotation p then (Inr (Some ASocket), c)
      else case sub_dependency p of
        Some d \<Rightarrow>
          (case resolve d c of
             (Inl e, c) \<Rightarrow> (Inl e, c) | (Inr v, c) \<Rightarrow> (Inr (Some v), c))
      | None \<Rightarrow>
          (case extract_marker (resolved_ann p) (pdefault p) of
             Some m \<Rightarrow> (map_sum id Some (scalar_value u (pname p) m (inner_type (resolved_ann p))), c)
           | None \<Rightarrow>
               if pkind p = VarPositional \<or> pkind p = VarKeyword then (Inr None, c)
               else (map_sum id Some (plain_value u p), c)))"

fun resolve_params ::
  "('v, 'ty) ws_user \<Rightarrow> 'v resolver \<Rightarrow> ('v, 'ty) param list \<Rightarrow> 'v conn \<Rightarrow> (wexn + 'v kwargs) \<times> 'v conn"
where
  "resolve_params u resolve [] c = (Inr [], c)"
| "resolve_params u resolve (p # ps) c =
     (case resolve_param u resolve p c of
        (Inl e, c) \<Rightarrow> (Inl e, c)
      | (Inr v, c) \<Rightarrow>
          (case resolve_params u resolve ps c of
             (Inl e, c) \<Rightarrow> (Inl e, c)
           | (Inr kw, c) \<Rightarrow> (Inr (case v of None \<Rightarrow> kw | Some x \<Rightarrow> (pname p, x) # kw), c)))"

text \<open>
  Running the dependency: a plain function or a coroutine is run to its result, a generator to its
  first \<open>yield\<close>, after which it waits for tear-down.
\<close>

definition run_dependency ::
  "('v, 'ty) ws_user \<Rightarrow> nat \<Rightarrow> string \<Rightarrow> nat \<Rightarrow> 'v kwargs \<Rightarrow> 'v conn \<Rightarrow> (wexn + 'v pyarg) \<times> 'v conn"
where
  "run_dependency u original sc f kw c =
     (case ucall u (elog c) (sock c) f kw of
        (ops, r) \<Rightarrow>
          let c = act u ops (ECall original kw) c
          in case r of
               Inl e \<Rightarrow> (Inl e, c)
             | Inr v \<Rightarrow>
                 (Inr v, if is_yield (funs u f)
                         then c\<lparr>gens := gens c @ [(f, fkind (funs u f) = FAsyncGen, sc)],
                                elog := elog c @ [EYield f]\<rparr>
                         else c))"

text \<open>
  The recursive resolver.  Python's recursion limit is the bound: a chain of dependencies deeper
  than it raises \<open>RecursionError\<close>.  Only a dependency with a function is ever passed.
\<close>

fun resolve_dep :: "('v, 'ty) ws_user \<Rightarrow> nat \<Rightarrow> 'v resolver" where
  "resolve_dep u 0 d c = (Inl (WsRaised (Py RecursionError)), c)"
| "resolve_dep u (Suc n) d c =
     (case dependency d of
        None \<Rightarrow> (Inr ANoneVal, c)
      | Some original \<Rightarrow>
          if use_cache d \<and> cache c original \<noteq> None then (Inr (the (cache c original)), c)
          else
            let f = effective_dep_callable u original
            in case (case fsig (funs u f) of
                       None \<Rightarrow> (Inr [], c)
                     | Some ps \<Rightarrow> resolve_params u (resolve_dep u n) ps c) of
                 (Inl e, c) \<Rightarrow> (Inl e, c)
               | (Inr kw, c) \<Rightarrow>
                   (case run_dependency u original (get_dep_scope d) f kw c of
                      (Inl e, c) \<Rightarrow> (Inl e, c)
                    | (Inr v, c) \<Rightarrow>
                        (Inr v, if use_cache d then c\<lparr>cache := (cache c)(original \<mapsto> v)\<rparr> else c)))"

section \<open>Building the handler's arguments\<close>

definition path_value :: "('v, 'ty) ws_user \<Rightarrow> (string \<times> string) list \<Rightarrow> string \<Rightarrow> ('v, 'ty) ann \<Rightarrow> wexn + 'v pyarg" where
  "path_value u path name meta =
     (case map_of path name of
        None \<Rightarrow> Inr ANoneVal
      | Some val \<Rightarrow> (if meta \<noteq> AEmpty \<and> meta \<noteq> AStr then validate_scalar u val meta else Inr (AText val)))"

fun spec_value ::
  "('v, 'ty) ws_user \<Rightarrow> nat \<Rightarrow> (string \<times> string) list \<Rightarrow> ('v, 'ty) spec \<Rightarrow> 'v conn
     \<Rightarrow> (wexn + string \<times> 'v pyarg) \<times> 'v conn"
where
  "spec_value u n path (SWs name) c = (Inr (name, ASocket), c)"
| "spec_value u n path (SPath name meta) c = (map_sum id (Pair name) (path_value u path name meta), c)"
| "spec_value u n path (SScalar name m inner) c = (map_sum id (Pair name) (scalar_value u name m inner), c)"
| "spec_value u n path (SDep name d) c =
     (case resolve_dep u n d c of (r, c) \<Rightarrow> (map_sum id (Pair name) r, c))"

fun build_specs ::
  "('v, 'ty) ws_user \<Rightarrow> nat \<Rightarrow> (string \<times> string) list \<Rightarrow> ('v, 'ty) spec list \<Rightarrow> 'v kwargs \<Rightarrow> 'v conn
     \<Rightarrow> (wexn + 'v kwargs) \<times> 'v conn"
where
  "build_specs u n path [] kw c = (Inr kw, c)"
| "build_specs u n path (sp # sps) kw c =
     (case spec_value u n path sp c of
        (Inl e, c) \<Rightarrow> (Inl e, c)
      | (Inr (name, v), c) \<Rightarrow> build_specs u n path sps (AList.update name v kw) c)"

text \<open>Application, router and route level dependencies run last, for their effects only.\<close>

fun run_extras :: "('v, 'ty) ws_user \<Rightarrow> nat \<Rightarrow> dep list \<Rightarrow> 'v conn \<Rightarrow> (wexn + unit) \<times> 'v conn" where
  "run_extras u n [] c = (Inr (), c)"
| "run_extras u n (d # ds) c =
     (if dependency d = None then run_extras u n ds c
      else case resolve_dep u n d c of
             (Inl e, c) \<Rightarrow> (Inl e, c)
           | (Inr _, c) \<Rightarrow> run_extras u n ds c)"

definition build_kwargs ::
  "('v, 'ty) ws_user \<Rightarrow> nat \<Rightarrow> (string \<times> string) list \<Rightarrow> ('v, 'ty) spec list \<Rightarrow> dep list \<Rightarrow> 'v conn
     \<Rightarrow> (wexn + 'v kwargs) \<times> 'v conn"
where
  "build_kwargs u n path specs extras c =
     (case build_specs u n path specs (map (map_prod id AText) path)
             (c\<lparr>gens := [], cache := Map.empty\<rparr>) of
        (Inl e, c) \<Rightarrow> (Inl e, c)
      | (Inr kw, c) \<Rightarrow>
          (case run_extras u n extras c of
             (Inl e, c) \<Rightarrow> (Inl e, c)
           | (Inr _, c) \<Rightarrow> (Inr kw, c)))"

section \<open>Tear-down and closing\<close>

text \<open>
  Generators are resumed in reverse order; what they raise is dropped.  With a scope filter the
  generators of the other scope stay, in their order.
\<close>

fun teardown_list ::
  "('v, 'ty) ws_user \<Rightarrow> string option \<Rightarrow> (nat \<times> bool \<times> string) list \<Rightarrow> 'v conn
     \<Rightarrow> (nat \<times> bool \<times> string) list \<times> 'v conn"
where
  "teardown_list u flt [] c = ([], c)"
| "teardown_list u flt ((f, a, sc) # gs) c =
     (if flt \<noteq> None \<and> flt \<noteq> Some sc
      then (case teardown_list u flt gs c of (rest, c) \<Rightarrow> ((f, a, sc) # rest, c))
      else teardown_list u flt gs (act u (fst (ufinish u (elog c) (sock c) f)) (EFinish f) c))"

definition teardown_generators :: "('v, 'ty) ws_user \<Rightarrow> string option \<Rightarrow> 'v conn \<Rightarrow> 'v conn" where
  "teardown_generators u flt c =
     (case teardown_list u flt (rev (gens c)) c of (rest, c) \<Rightarrow> c\<lparr>gens := rev rest\<rparr>)"

definition capture :: "wexn \<Rightarrow> 'v conn \<Rightarrow> 'v conn" where
  "capture e c = c\<lparr>captured := captured c @ [e]\<rparr>"

text \<open>
  How the wrapper ends a connection it gives up: in process it queues a close with the WebSocket
  code; with an engine handle it refuses the handshake with an HTTP status before \<open>accept\<close> and
  closes afterwards.
\<close>

definition give_up :: "('v, 'ty) ws_user \<Rightarrow> int \<Rightarrow> int \<Rightarrow> int \<Rightarrow> string \<Rightarrow> 'v conn \<Rightarrow> 'v conn" where
  "give_up u code status engine_code reason c =
     c\<lparr>sock :=
        (if \<not> has_handle (sock c) then asgi_queue_close code reason (sock c)
         else if application_state (wenv u) (sock c) = CONNECTING then reject (wenv u) status (sock c)
         else snd (call_handle (wenv u) (RClose engine_code reason) (sock c)))\<rparr>"

definition handle_ws_exc :: "('v, 'ty) ws_user \<Rightarrow> int option \<Rightarrow> string option \<Rightarrow> 'v conn \<Rightarrow> 'v conn" where
  "handle_ws_exc u code reason c =
     (let code = (case code of None \<Rightarrow> 1000 | Some x \<Rightarrow> x);
          reason = (case reason of None \<Rightarrow> [] | Some r \<Rightarrow> r)
      in give_up u code 403 code reason (capture (WsRaised (WebSocketDisconnect code reason)) c))"

section \<open>Running the handler\<close>

definition no_event_loop :: "string \<Rightarrow> bool" where
  "no_event_loop msg \<longleftrightarrow>
     find_sub ''no running event loop'' msg \<noteq> None \<or> find_sub ''no current event loop'' msg \<noteq> None"

definition call_endpoint :: "('v, 'ty) ws_user \<Rightarrow> nat \<Rightarrow> 'v kwargs \<Rightarrow> 'v conn \<Rightarrow> (wexn + unit) \<times> 'v conn" where
  "call_endpoint u ep kw c =
     (case ucall u (elog c) (sock c) ep kw of
        (ops, r) \<Rightarrow> (map_sum id (\<lambda>_. ()) r, act u ops (EEndpoint kw) c))"

text \<open>
  An asynchronous endpoint that finds no event loop is run a second time, on the worker loop.
\<close>

definition run_endpoint :: "('v, 'ty) ws_user \<Rightarrow> nat \<Rightarrow> 'v kwargs \<Rightarrow> 'v asgi_app" where
  "run_endpoint u ep kw c =
     (case call_endpoint u ep kw c of
        (Inl (WsRaised (Py (RuntimeError msg))), c') \<Rightarrow>
          (if fkind (funs u ep) = FCoroutine \<and> no_event_loop msg then call_endpoint u ep kw c'
           else (Inl (WsRaised (Py (RuntimeError msg))), c'))
      | r \<Rightarrow> r)"

text \<open>
  A \<open>WebSocketException\<close> from building the arguments is handled here and not seen by middleware.
  The generators become the connection's only when the arguments were built.
\<close>

definition run_handler_inner ::
  "('v, 'ty) ws_user \<Rightarrow> nat \<Rightarrow> nat \<Rightarrow> (string \<times> string) list \<Rightarrow> ('v, 'ty) spec list \<Rightarrow> dep list \<Rightarrow> 'v asgi_app"
where
  "run_handler_inner u n ep path specs extras c =
     (case build_kwargs u n path specs extras c of
        (Inl e, c') \<Rightarrow>
          (let c' = c'\<lparr>gens := gens c\<rparr>
           in case e of
                WebSocketException code reason \<Rightarrow> (Inr (), handle_ws_exc u code reason c')
              | _ \<Rightarrow> (Inl e, c'))
      | (Inr kw, c') \<Rightarrow> run_endpoint u ep kw c')"

text \<open>The bridge through which WebSocket middleware reaches the socket; it never raises.\<close>

definition bridge_send :: "('v, 'ty) ws_user \<Rightarrow> low_msg \<Rightarrow> 'v conn \<Rightarrow> 'v conn" where
  "bridge_send u m c =
     (case m of
        LClose code reason \<Rightarrow>
          (let code = (case code of None \<Rightarrow> 1000 | Some x \<Rightarrow> x);
               reason = (case reason of None \<Rightarrow> [] | Some r \<Rightarrow> r)
           in capture (WsRaised (WebSocketDisconnect code reason))
                (c\<lparr>sock := ws_close (wenv u) code (Some reason) (sock c)\<rparr>))
      | LAccept sub hs \<Rightarrow> c\<lparr>sock := snd (accept (wenv u) sub hs (sock c))\<rparr>
      | LSend (Some t) _ \<Rightarrow> c\<lparr>sock := snd (await_send (wenv u) (send_text (wenv u) t (sock c)))\<rparr>
      | LSend None (Some b) \<Rightarrow> c\<lparr>sock := snd (await_send (wenv u) (send_bytes (wenv u) b (sock c)))\<rparr>
      | _ \<Rightarrow> c)"

definition bridge_receive :: "'v conn \<Rightarrow> in_msg option \<times> 'v conn" where
  "bridge_receive c =
     (case receive (sock c) of
        (Ret m, s) \<Rightarrow> (Some m, c\<lparr>sock := s\<rparr>)
      | (Exn _, s) \<Rightarrow> (Some (MDisconnect (Some 1000) None), c\<lparr>sock := s\<rparr>)
      | (Wait, s) \<Rightarrow> (None, c\<lparr>sock := s\<rparr>))"

text \<open>The middleware chain: the first factory is the outermost, the last one is built first.\<close>

fun build_chain :: "'v factory list \<Rightarrow> 'v asgi_app \<Rightarrow> wexn + 'v asgi_app" where
  "build_chain [] app = Inr app"
| "build_chain (f # fs) app =
     (case build_chain fs app of
        Inl e \<Rightarrow> Inl e
      | Inr app \<Rightarrow> (case f of Wraps g \<Rightarrow> Inr (g app) | Fails e \<Rightarrow> Inl e))"

definition invoke_with_middleware ::
  "('v, 'ty) ws_user \<Rightarrow> nat \<Rightarrow> nat \<Rightarrow> (string \<times> string) list \<Rightarrow> ('v, 'ty) spec list \<Rightarrow> dep list \<Rightarrow> 'v asgi_app"
where
  "invoke_with_middleware u n ep path specs extras c =
     (case build_chain (factories u) (run_handler_inner u n ep path specs extras) of
        Inl e \<Rightarrow> (Inl e, c)
      | Inr app \<Rightarrow> app c)"

section \<open>The entry point\<close>

definition run_exc_handler :: "('v, 'ty) ws_user \<Rightarrow> nat \<Rightarrow> wexn \<Rightarrow> 'v conn \<Rightarrow> wexn option \<times> 'v conn" where
  "run_exc_handler u h e c =
     (case uhandler u (elog c) (sock c) h e of (ops, r) \<Rightarrow> (r, act u ops (EHandler h) c))"

text \<open>The first registered key that the exception is an instance of; keys that are no class are skipped.\<close>

definition find_handler :: "('v, 'ty) ws_user \<Rightarrow> wexn \<Rightarrow> nat option" where
  "find_handler u e = map_option snd (find (\<lambda>(k, h). isinst u e k = Some True) (handlers u))"

definition last_close_or_default :: "ws \<Rightarrow> int \<times> string" where
  "last_close_or_default s =
     (case last_close s of None \<Rightarrow> (1000, []) | Some (code, reason) \<Rightarrow> (if code = 0 then 1000 else code, reason))"

definition validation_failed :: "('v, 'ty) ws_user \<Rightarrow> wexn \<Rightarrow> 'v conn \<Rightarrow> 'v conn" where
  "validation_failed u e c =
     (let c = capture e c;
          c = (case map_of (handlers u) (validation_key u) of
                 Some h \<Rightarrow> snd (run_exc_handler u h e c)
               | None \<Rightarrow> c)
      in give_up u 1008 403 1008 ''validation error''
           (capture (WsRaised (WebSocketDisconnect 1008 ''validation error'')) c))"

definition unhandled :: "('v, 'ty) ws_user \<Rightarrow> wexn \<Rightarrow> 'v conn \<Rightarrow> 'v conn" where
  "unhandled u e c = give_up u 1011 500 1006 [] (capture e c)"

fun is_validation_error :: "wexn \<Rightarrow> bool" where
  "is_validation_error (WebSocketRequestValidationError _) = True"
| "is_validation_error _ = False"

definition handle_error :: "('v, 'ty) ws_user \<Rightarrow> wexn \<Rightarrow> 'v conn \<Rightarrow> 'v conn" where
  "handle_error u e c =
     (if is_validation_error e \<and> handlers u \<noteq> [] then validation_failed u e c
      else case find_handler u e of
             Some h \<Rightarrow>
               (case run_exc_handler u h e c of
                  (None, c) \<Rightarrow>
                    (case last_close_or_default (sock c) of
                       (code, reason) \<Rightarrow> capture (WsRaised (WebSocketDisconnect code reason)) c)
                | (Some _, c) \<Rightarrow> unhandled u e c)
           | None \<Rightarrow> unhandled u e c)"

definition ws_entry ::
  "('v, 'ty) ws_user \<Rightarrow> nat \<Rightarrow> nat \<Rightarrow> (string \<times> string) list \<Rightarrow> ('v, 'ty) spec list \<Rightarrow> dep list \<Rightarrow> 'v conn \<Rightarrow> 'v conn"
where
  "ws_entry u n ep path specs extras c =
     (case invoke_with_middleware u n ep path specs extras (c\<lparr>gens := []\<rparr>) of
        (Inr _, c) \<Rightarrow> teardown_generators u None c
      | (Inl (WebSocketException code reason), c) \<Rightarrow>
          teardown_generators u None (handle_ws_exc u code reason c)
      | (Inl e, c) \<Rightarrow> teardown_generators u None (handle_error u e c))"

definition new_conn :: "(ws_exn + in_msg) list \<Rightarrow> 'v conn" where
  "new_conn msgs =
     \<lparr>sock = ws_init False True True msgs, gens = [], cache = Map.empty, elog = [], captured = []\<rparr>"

text \<open>The in-process door for a matched route: run the wrapped endpoint, then send a queued close.\<close>

definition serve_ws ::
  "('v, 'ty) ws_user \<Rightarrow> nat \<Rightarrow> nat \<Rightarrow> (string \<times> string) list \<Rightarrow> ('v, 'ty) spec list \<Rightarrow> dep list
     \<Rightarrow> (ws_exn + in_msg) list \<Rightarrow> 'v conn"
where
  "serve_ws u n ep path specs extras msgs =
     (let c = ws_entry u n ep path specs extras (new_conn msgs)
      in c\<lparr>sock := flush_pending (wenv u) (sock c)\<rparr>)"

section \<open>The socket changes through its operations only\<close>

definition via :: "('v, 'ty) ws_user \<Rightarrow> ws \<Rightarrow> ws \<Rightarrow> bool" where
  "via u s t \<longleftrightarrow> (\<exists>ops. t = fold (apply_op (wenv u)) ops s)"

lemma via_refl [simp, intro]: "via u s s"
  unfolding via_def by (rule exI [of _ "[]"]) simp

lemma via_trans [trans]: "via u r s \<Longrightarrow> via u s t \<Longrightarrow> via u r t"
proof -
  assume "via u r s" and "via u s t"
  then obtain xs ys where "s = fold (apply_op (wenv u)) xs r" and "t = fold (apply_op (wenv u)) ys s"
    by (auto simp: via_def)
  then have "t = fold (apply_op (wenv u)) (xs @ ys) r" by simp
  then show ?thesis unfolding via_def by blast
qed

lemma via_op: "t = apply_op (wenv u) op s \<Longrightarrow> via u s t"
  unfolding via_def by (rule exI [of _ "[op]"]) simp

lemma via_act [simp]: "via u (sock c) (sock (act u ops e c))"
  by (auto simp: via_def act_def)

lemma apply_op_handle: "has_handle (apply_op env op s) = has_handle s"
proof -
  have send: "has_handle (snd (chan_send env m s)) = has_handle s" for m s
    by (auto simp: chan_send_def split: option.splits)
  have close: "has_handle (asgi_send_close env x y s) = has_handle s" for x y s
    by (simp add: asgi_send_close_def send)
  have rej: "has_handle (reject env x s) = has_handle s" for x s
    by (simp add: reject_def Let_def call_handle_def asgi_queue_close_def)
  have cls: "has_handle (ws_close env x y s) = has_handle s" for x y
    by (simp add: ws_close_def Let_def rej close call_handle_def split: option.splits)
  have recv: "has_handle t = has_handle s" if "only_receives s t" for t
    using that by (auto simp: only_receives_def)
  have acc: "has_handle (snd (accept env x y s)) = has_handle s" for x y
  proof -
    obtain r t where rt: "chan_recv s = (r, t)" by fastforce
    have "has_handle (snd (send_accept env m t)) = has_handle s" for m
      using recv [OF chan_recv_only [OF rt]]
      by (cases rule: chan_send_cases [of env m t]) (auto simp: send_accept_def)
    then show ?thesis
      using recv [OF chan_recv_only [OF rt]]
      by (simp add: accept_def rt call_handle_def split: res.split in_msg.split option.split)
  qed
  have awt: "has_handle (snd (await_send env r)) = has_handle (snd r)" for r
    by (auto simp: await_send_def send split: prod.splits res.splits awaitable.splits)
  have over: "has_handle (snd (hand_over env x y s)) = has_handle s" for x y
    by (auto simp: hand_over_def call_handle_def split: option.splits)
  show ?thesis
    by (cases op)
      (simp_all add: acc cls rej awt over ws_send_def send_text_def send_bytes_def send_json_def
        handle_method_def call_handle_def asgi_queue_close_def recv [OF receive_only]
        recv [OF receive_text_only] recv [OF receive_bytes_only] recv [OF receive_json_only]
        split: low_msg.split option.split sum.split)
qed

lemma via_handle: "via u s t \<Longrightarrow> has_handle t = has_handle s"
proof -
  have "has_handle (fold (apply_op (wenv u)) ops s) = has_handle s" for ops
    by (induction ops arbitrary: s) (simp_all add: apply_op_handle)
  then show "via u s t \<Longrightarrow> has_handle t = has_handle s" by (auto simp: via_def)
qed

text \<open>
  A relation between the connection before and after: a preorder that contains the two elementary
  changes of the resolver, running a dependency and writing the cache, contains the whole
  resolution.  The properties of the resolver are instances of this rule.
\<close>

locale conn_preorder =
  fixes u :: "('v, 'ty) ws_user" and R :: "'v conn \<Rightarrow> 'v conn \<Rightarrow> bool"
  assumes R_refl: "R c c"
    and R_trans: "R a b \<Longrightarrow> R b c \<Longrightarrow> R a c"
    and R_run: "run_dependency u orig sc f kw c = (r, c') \<Longrightarrow> R c c'"
    and R_cache: "R c (c\<lparr>cache := (cache c)(f \<mapsto> v)\<rparr>)"
begin

lemma resolve_param_R:
  assumes "\<And>d c r c'. resolve d c = (r, c') \<Longrightarrow> R c c'" and "resolve_param u resolve p c = (r, c')"
  shows "R c c'"
  using assms(2)
  by (auto simp: resolve_param_def R_refl split: if_splits option.splits prod.splits sum.splits
      dest: assms(1))

lemma resolve_params_R:
  assumes "\<And>d c r c'. resolve d c = (r, c') \<Longrightarrow> R c c'"
  shows "resolve_params u resolve ps c = (r, c') \<Longrightarrow> R c c'"
proof (induction ps arbitrary: c r c')
  case (Cons p ps)
  obtain r1 c1 where 1: "resolve_param u resolve p c = (r1, c1)" by fastforce
  obtain r2 c2 where 2: "resolve_params u resolve ps c1 = (r2, c2)" by fastforce
  have "R c c1" and "R c1 c2"
    using resolve_param_R [OF assms 1] Cons.IH [OF 2] by simp_all
  moreover have "c' = c1 \<or> c' = c2"
    using Cons.prems by (auto simp: 1 2 split: sum.splits)
  ultimately show ?case using R_trans by blast
qed (simp add: R_refl)

lemma resolve_dep_R: "resolve_dep u n d c = (r, c') \<Longrightarrow> R c c'"
proof (induction n arbitrary: d c r c')
  case (Suc n)
  show ?case
  proof (cases "dependency d = None \<or> use_cache d \<and> cache c (the (dependency d)) \<noteq> None")
    case True
    with Suc.prems have "c' = c" by (auto split: option.splits)
    then show ?thesis by (simp add: R_refl)
  next
    case False
    then obtain f where f: "dependency d = Some f" by auto
    define g where "g = effective_dep_callable u f"
    obtain r1 c1 where 1: "(case fsig (funs u g) of
        None \<Rightarrow> (Inr [], c) | Some ps \<Rightarrow> resolve_params u (resolve_dep u n) ps c) = (r1, c1)"
      by fastforce
    have R1: "R c c1"
      using 1 resolve_params_R [OF Suc.IH] by (auto simp: R_refl split: option.splits)
    show ?thesis
    proof (cases r1)
      case (Inl e)
      with Suc.prems False R1 show ?thesis by (auto simp: f 1 Let_def simp flip: g_def)
    next
      case (Inr kw)
      obtain r2 c2 where 2: "run_dependency u f (get_dep_scope d) g kw c1 = (r2, c2)" by fastforce
      have "c' = c2 \<or> (\<exists>v. c' = c2\<lparr>cache := (cache c2)(f \<mapsto> v)\<rparr>)"
        using Suc.prems False Inr
        by (auto simp: f 1 2 Let_def simp flip: g_def split: sum.splits if_splits)
      then show ?thesis
        using R1 R_run [OF 2] R_cache R_trans by blast
    qed
  qed
qed (simp add: R_refl)

lemma spec_value_R: "spec_value u n path sp c = (r, c') \<Longrightarrow> R c c'"
  by (cases sp) (auto simp: R_refl split: prod.splits dest: resolve_dep_R)

lemma build_specs_R: "build_specs u n path sps kw c = (r, c') \<Longrightarrow> R c c'"
proof (induction sps arbitrary: kw c)
  case (Cons sp sps)
  obtain r1 c1 where 1: "spec_value u n path sp c = (r1, c1)" by fastforce
  have "R c c1" by (rule spec_value_R [OF 1])
  moreover have "R c1 c' \<or> c' = c1"
    using Cons by (auto simp: 1 split: sum.splits prod.splits)
  ultimately show ?case using R_trans by blast
qed (simp add: R_refl)

lemma run_extras_R: "run_extras u n ds c = (r, c') \<Longrightarrow> R c c'"
proof (induction ds arbitrary: c)
  case (Cons d ds)
  obtain r1 c1 where 1: "resolve_dep u n d c = (r1, c1)" by fastforce
  have "R c c1" by (rule resolve_dep_R [OF 1])
  then show ?case
    using Cons R_trans by (auto simp: 1 split: sum.splits if_splits)
qed (simp add: R_refl)

lemma build_kwargs_R:
  assumes "build_kwargs u n path specs extras c = (r, c')"
  shows "R (c\<lparr>gens := [], cache := Map.empty\<rparr>) c'"
proof -
  let ?c0 = "c\<lparr>gens := [], cache := Map.empty\<rparr>"
  obtain r1 c1 where 1: "build_specs u n path specs (map (map_prod id AText) path) ?c0 = (r1, c1)"
    by fastforce
  obtain r2 c2 where 2: "run_extras u n extras c1 = (r2, c2)" by fastforce
  have "R ?c0 c1" and "R c1 c2" by (rule build_specs_R [OF 1]) (rule run_extras_R [OF 2])
  moreover have "c' = c1 \<or> c' = c2"
    using assms by (auto simp: build_kwargs_def 1 2 split: sum.splits)
  ultimately show ?thesis using R_trans by blast
qed

end

lemma run_dependency_sock:
  "run_dependency u orig sc f kw c = (r, c') \<Longrightarrow>
     sock c' = sock (act u (fst (ucall u (elog c) (sock c) f kw)) (ECall orig kw) c)"
  by (auto simp: run_dependency_def Let_def split: prod.splits sum.splits if_splits)

interpretation sock_via: conn_preorder u "\<lambda>c c'. via u (sock c) (sock c')" for u :: "('v, 'ty) ws_user"
  by unfold_locales (auto intro: via_trans simp: run_dependency_sock)

lemma sock_updates [simp]:
  "sock (capture e c) = sock c" "gens (capture e c) = gens c" "elog (capture e c) = elog c"
  "gens (act u ops ev c) = gens c" "elog (act u ops ev c) = elog c @ [ev]" "cache (act u ops ev c) = cache c"
  by (simp_all add: capture_def act_def)

lemma give_up_queues:
  "\<not> has_handle (sock c) \<Longrightarrow>
     give_up u code status engine_code reason c = c\<lparr>sock := asgi_queue_close code reason (sock c)\<rparr>"
  by (simp add: give_up_def)

lemma queue_via: "via u s (asgi_queue_close code reason s)"
  by (rule via_op [of _ _ "OpQueueClose code reason"]) simp

lemma give_up_via:
  "\<not> has_handle (sock c) \<Longrightarrow> via u (sock c) (sock (give_up u code status engine_code reason c))"
  by (simp add: give_up_queues queue_via)

lemma handle_ws_exc_via: "\<not> has_handle (sock c) \<Longrightarrow> via u (sock c) (sock (handle_ws_exc u code reason c))"
  using give_up_via [of "capture e c" for e] by (simp add: handle_ws_exc_def Let_def)

lemma teardown_list_via: "via u (sock c) (sock (snd (teardown_list u flt gs c)))"
proof (induction gs arbitrary: c)
  case (Cons g gs)
  obtain f a sc where g: "g = (f, a, sc)" by (cases g)
  show ?case
    using Cons.IH [of c]
      via_trans [OF via_act Cons.IH [of "act u (fst (ufinish u (elog c) (sock c) f)) (EFinish f) c"]]
    by (simp add: g case_prod_unfold)
qed simp

lemma teardown_via: "via u (sock c) (sock (teardown_generators u flt c))"
  using teardown_list_via [of u c flt "rev (gens c)"]
  by (simp add: teardown_generators_def case_prod_unfold)

lemma call_endpoint_via: "call_endpoint u ep kw c = (r, c') \<Longrightarrow> via u (sock c) (sock c')"
  by (auto simp: call_endpoint_def split: prod.splits)

lemma run_endpoint_cases:
  assumes "run_endpoint u ep kw c = (r, c')"
  obtains "call_endpoint u ep kw c = (r, c')"
  | r1 c1 where "call_endpoint u ep kw c = (r1, c1)" "call_endpoint u ep kw c1 = (r, c')"
  using assms
  by (auto simp: run_endpoint_def split: prod.splits sum.splits wexn.splits ws_exn.splits
      py_exn.splits if_splits)

lemma run_endpoint_via: "run_endpoint u ep kw c = (r, c') \<Longrightarrow> via u (sock c) (sock c')"
  by (erule run_endpoint_cases) (blast intro: call_endpoint_via via_trans)+

text \<open>An application that touches the socket through its operations only.\<close>

definition through_ops :: "('v, 'ty) ws_user \<Rightarrow> 'v asgi_app \<Rightarrow> bool" where
  "through_ops u app \<longleftrightarrow> (\<forall>c. \<not> has_handle (sock c) \<longrightarrow> via u (sock c) (sock (snd (app c))))"

definition polite_factories :: "('v, 'ty) ws_user \<Rightarrow> bool" where
  "polite_factories u \<longleftrightarrow>
     (\<forall>g. Wraps g \<in> set (factories u) \<longrightarrow> (\<forall>app. through_ops u app \<longrightarrow> through_ops u (g app)))"

lemma run_handler_inner_via: "through_ops u (run_handler_inner u n ep path specs extras)"
proof (unfold through_ops_def, intro allI impI)
  fix c :: "'a conn" assume c: "\<not> has_handle (sock c)"
  obtain r c1 where 1: "build_kwargs u n path specs extras c = (r, c1)" by fastforce
  have v: "via u (sock c) (sock c1)"
    using sock_via.build_kwargs_R [OF 1] by simp
  show "via u (sock c) (sock (snd (run_handler_inner u n ep path specs extras c)))"
  proof (cases r)
    case (Inr kw)
    obtain r2 c2 where 2: "run_endpoint u ep kw c1 = (r2, c2)" by fastforce
    show ?thesis
      using via_trans [OF v run_endpoint_via [OF 2]] by (simp add: run_handler_inner_def 1 Inr 2)
  next
    case (Inl e)
    have "\<not> has_handle (sock (c1\<lparr>gens := gens c\<rparr>))" using via_handle [OF v] c by simp
    from via_trans [OF v] handle_ws_exc_via [OF this] v show ?thesis
      by (cases e) (auto simp: run_handler_inner_def 1 Inl Let_def)
  qed
qed

lemma build_chain_via:
  "through_ops u app \<Longrightarrow> (\<And>g. Wraps g \<in> set fs \<Longrightarrow> \<forall>app. through_ops u app \<longrightarrow> through_ops u (g app)) \<Longrightarrow>
     build_chain fs app = Inr app' \<Longrightarrow> through_ops u app'"
  by (induction fs arbitrary: app') (auto split: sum.splits factory.splits)

lemma invoke_via:
  assumes "polite_factories u" and "\<not> has_handle (sock c)"
    and "invoke_with_middleware u n ep path specs extras c = (r, c')"
  shows "via u (sock c) (sock c')"
proof (cases "build_chain (factories u) (run_handler_inner u n ep path specs extras)")
  case (Inr app)
  then have "through_ops u app"
    using build_chain_via [OF run_handler_inner_via _ Inr] assms(1) by (auto simp: polite_factories_def)
  moreover have "snd (app c) = c'" using assms(3) Inr by (simp add: invoke_with_middleware_def)
  ultimately show ?thesis using assms(2) by (auto simp: through_ops_def)
qed (use assms(3) in \<open>simp add: invoke_with_middleware_def\<close>)

lemma run_exc_handler_via: "run_exc_handler u h e c = (r, c') \<Longrightarrow> via u (sock c) (sock c')"
  by (auto simp: run_exc_handler_def split: prod.splits)

lemma unhandled_via: "\<not> has_handle (sock c) \<Longrightarrow> via u (sock c) (sock (unhandled u e c))"
  using give_up_via [of "capture e c"] by (simp add: unhandled_def)

lemma validation_failed_via:
  assumes "\<not> has_handle (sock c)"
  shows "via u (sock c) (sock (validation_failed u e c))"
proof -
  define c1 where "c1 = (case map_of (handlers u) (validation_key u) of
     Some h \<Rightarrow> snd (run_exc_handler u h e (capture e c)) | None \<Rightarrow> capture e c)"
  have v: "via u (sock c) (sock c1)"
  proof (cases "map_of (handlers u) (validation_key u)")
    case (Some h)
    then show ?thesis
      using run_exc_handler_via [of u h e "capture e c" _ c1]
      by (cases "run_exc_handler u h e (capture e c)") (simp add: c1_def)
  qed (simp add: c1_def)
  have "\<not> has_handle (sock (capture x c1))" for x using via_handle [OF v] assms by simp
  from via_trans [OF v] give_up_via [OF this, of u] show ?thesis
    by (simp add: validation_failed_def Let_def flip: c1_def)
qed

lemma handle_error_via:
  assumes c: "\<not> has_handle (sock c)"
  shows "via u (sock c) (sock (handle_error u e c))"
proof (cases "is_validation_error e \<and> handlers u \<noteq> []")
  case False
  show ?thesis
  proof (cases "find_handler u e")
    case (Some h)
    obtain r c1 where 1: "run_exc_handler u h e c = (r, c1)" by fastforce
    have v: "via u (sock c) (sock c1)" by (rule run_exc_handler_via [OF 1])
    then have "\<not> has_handle (sock c1)" using via_handle [OF v] c by simp
    from via_trans [OF v unhandled_via [OF this]] v False Some 1 show ?thesis
      by (auto simp: handle_error_def split: option.split prod.split)
  qed (use False unhandled_via [OF c, of u e] in \<open>auto simp: handle_error_def\<close>)
qed (use validation_failed_via [OF c, of u e] in \<open>simp add: handle_error_def\<close>)

text \<open>What the wrapper does with the outcome of the handler, before the tear-down.\<close>

definition settle :: "('v, 'ty) ws_user \<Rightarrow> wexn + unit \<Rightarrow> 'v conn \<Rightarrow> 'v conn" where
  "settle u r c =
     (case r of
        Inr _ \<Rightarrow> c
      | Inl (WebSocketException code reason) \<Rightarrow> handle_ws_exc u code reason c
      | Inl e \<Rightarrow> handle_error u e c)"

lemma ws_entry_settle:
  "ws_entry u n ep path specs extras c =
     (case invoke_with_middleware u n ep path specs extras (c\<lparr>gens := []\<rparr>) of
        (r, c) \<Rightarrow> teardown_generators u None (settle u r c))"
  by (simp add: ws_entry_def settle_def split: prod.split sum.split wexn.split)

lemma settle_via: "\<not> has_handle (sock c) \<Longrightarrow> via u (sock c) (sock (settle u r c))"
  by (simp add: settle_def handle_ws_exc_via handle_error_via split: sum.split wexn.split)

lemma serve_ws_session:
  assumes "polite_factories u"
    and "invoke_with_middleware u n ep path specs extras (new_conn msgs) = (r, c)"
  obtains ops ops' where "sock (settle u r c) = fold (apply_op (wenv u)) ops (ws_init False True True msgs)"
    and "sock (teardown_generators u None (settle u r c)) = fold (apply_op (wenv u)) ops' (sock (settle u r c))"
    and "sock (serve_ws u n ep path specs extras msgs) = ws_session (wenv u) msgs (ops @ ops')"
proof -
  let ?s0 = "ws_init False True True msgs"
  have s0: "sock (new_conn msgs) = ?s0" and h0: "\<not> has_handle ?s0"
    and g0: "new_conn msgs\<lparr>gens := []\<rparr> = (new_conn msgs :: 'a conn)"
    by (simp_all add: new_conn_def ws_init_def)
  have v: "via u ?s0 (sock c)"
    using invoke_via [OF assms(1) _ assms(2)] h0 by (simp add: s0)
  then have "\<not> has_handle (sock c)" using via_handle [OF v] h0 by simp
  from via_trans [OF v settle_via [OF this]]
  obtain ops where ops: "sock (settle u r c) = fold (apply_op (wenv u)) ops ?s0"
    by (auto simp: via_def)
  obtain ops' where ops': "sock (teardown_generators u None (settle u r c))
      = fold (apply_op (wenv u)) ops' (sock (settle u r c))"
    using teardown_via [of u "settle u r c" None] by (auto simp: via_def)
  have "sock (serve_ws u n ep path specs extras msgs) = ws_session (wenv u) msgs (ops @ ops')"
    by (simp add: serve_ws_def Let_def ws_entry_settle g0 assms(2) ops' ws_session_def flip: ops)
  with ops ops' show thesis by (rule that)
qed

text \<open>A close that was sent or queued is never taken back.\<close>

lemma pending_kept:
  assumes "pending_close s \<noteq> None"
  shows "pending_close (apply_op env op s) = pending_close s"
proof -
  have send: "pending_close (snd (chan_send env m s)) = pending_close s" for m s
    by (auto simp: chan_send_def split: option.splits)
  have close: "pending_close (asgi_send_close env x y s) = pending_close s" for x y s
    by (simp add: asgi_send_close_def send)
  have rej: "pending_close (reject env x t) = pending_close s" if "pending_close t = pending_close s" for x t
    using assms that by (simp add: reject_def Let_def call_handle_def asgi_queue_close_def)
  have cls: "pending_close (ws_close env x y s) = pending_close s" for x y
    by (simp add: ws_close_def Let_def rej close call_handle_def split: option.splits)
  have recv: "pending_close t = pending_close s" if "only_receives s t" for t
    using that by (auto simp: only_receives_def)
  have acc: "pending_close (snd (accept env x y s)) = pending_close s" for x y
  proof -
    obtain r t where rt: "chan_recv s = (r, t)" by fastforce
    have "pending_close (snd (send_accept env m t)) = pending_close s" for m
      using recv [OF chan_recv_only [OF rt]]
      by (cases rule: chan_send_cases [of env m t]) (auto simp: send_accept_def)
    then show ?thesis
      using recv [OF chan_recv_only [OF rt]]
      by (simp add: accept_def rt call_handle_def split: res.split in_msg.split option.split)
  qed
  have awt: "pending_close (snd (await_send env r)) = pending_close (snd r)" for r
    by (auto simp: await_send_def send split: prod.splits res.splits awaitable.splits)
  have over: "pending_close (snd (hand_over env x y s)) = pending_close s" for x y
    by (auto simp: hand_over_def call_handle_def split: option.splits)
  show ?thesis
    using assms
    by (cases op)
      (simp_all add: acc cls rej awt over ws_send_def send_text_def send_bytes_def send_json_def
        handle_method_def call_handle_def asgi_queue_close_def recv [OF receive_only]
        recv [OF receive_text_only] recv [OF receive_bytes_only] recv [OF receive_json_only]
        split: low_msg.split option.split sum.split)
qed

definition ending :: "ws \<Rightarrow> bool" where
  "ending s \<longleftrightarrow> asgi_closed s \<or> pending_close s \<noteq> None"

lemma fold_ending:
  assumes "ws_inv s" and "ending s"
  shows "ending (fold (apply_op env) ops s)"
proof -
  have "ending (apply_op env op s)" if "ws_inv s" "ending s" for op s
    using that disconnected_silent [OF that(1), of env op] asgi_closed_disconnected [OF that(1)]
      pending_kept [of s env op]
    by (auto simp: ending_def)
  with assms show ?thesis
    by (induction ops arbitrary: s) (simp_all add: apply_op_inv)
qed

lemma queue_ending: "ending (asgi_queue_close code reason s)"
  by (auto simp: ending_def asgi_queue_close_def)

lemma run_exc_handler_gens: "gens (snd (run_exc_handler u h e c)) = gens c"
  by (simp add: run_exc_handler_def split: prod.split)

lemma give_up_gens [simp]: "gens (give_up u x y z r c) = gens c"
  by (simp add: give_up_def)

lemma settle_gens [simp]: "gens (settle u r c) = gens c"
  using run_exc_handler_gens [of u]
  by (auto simp: settle_def handle_ws_exc_def handle_error_def validation_failed_def unhandled_def Let_def
      split: sum.split wexn.split option.split prod.split) (metis snd_conv)+

lemma via_send: "via u (ws_init False True True msgs) s \<Longrightarrow> has_send s"
proof -
  assume "via u (ws_init False True True msgs) s"
  then obtain ops where "s = fold (apply_op (wenv u)) ops (ws_init False True True msgs)"
    by (auto simp: via_def)
  moreover have "ws_inv (fold (apply_op (wenv u)) ops (ws_init False True True msgs))"
    by (rule fold_op_inv) (simp add: ws_inv_def ws_init_def)
  ultimately show ?thesis by (simp add: ws_inv_def)
qed

text \<open>The close that the wrapper decides on for a failure.\<close>

fun failure_close :: "('v, 'ty) ws_user \<Rightarrow> wexn \<Rightarrow> int \<times> string" where
  "failure_close u (WebSocketException code reason) =
     (case code of None \<Rightarrow> 1000 | Some x \<Rightarrow> x, case reason of None \<Rightarrow> [] | Some r \<Rightarrow> r)"
| "failure_close u e =
     (if is_validation_error e \<and> handlers u \<noteq> [] then (1008, ''validation error'') else (1011, []))"

text \<open>A failure that the application left to the wrapper: no handler of the application answers for it.\<close>

definition left_to_wrapper :: "('v, 'ty) ws_user \<Rightarrow> wexn \<Rightarrow> bool" where
  "left_to_wrapper u e \<longleftrightarrow>
     (case e of
        WebSocketException _ _ \<Rightarrow> True
      | _ \<Rightarrow> is_validation_error e \<and> handlers u \<noteq> [] \<or> find_handler u e = None)"

lemma settle_queues:
  assumes "left_to_wrapper u e" and h: "\<not> has_handle (sock c)"
  obtains s where "via u (sock c) s"
    and "sock (settle u (Inl e) c) = asgi_queue_close (fst (failure_close u e)) (snd (failure_close u e)) s"
    and "is_validation_error e \<longrightarrow> map_of (handlers u) (validation_key u) = None \<Longrightarrow> s = sock c"
proof (cases e)
  case (WebSocketException code reason)
  show thesis
    by (rule that [of "sock c"])
      (use h in \<open>simp_all add: WebSocketException settle_def handle_ws_exc_def Let_def give_up_queues\<close>)
next
  case (WebSocketRequestValidationError errs)
  show thesis
  proof (cases "handlers u = []")
    case True
    show thesis
      by (rule that [of "sock c"])
        (use h True in \<open>simp_all add: WebSocketRequestValidationError settle_def handle_error_def
          find_handler_def unhandled_def give_up_queues\<close>)
  next
    case False
    define c1 where "c1 = (case map_of (handlers u) (validation_key u) of
      Some h \<Rightarrow> snd (run_exc_handler u h e (capture e c)) | None \<Rightarrow> capture e c)"
    have v: "via u (sock c) (sock c1)"
      using run_exc_handler_via [of u _ e "capture e c" _ c1]
      by (auto simp: c1_def split: option.splits)
        (metis run_exc_handler_via prod.collapse sock_updates(1))
    have q: "\<not> has_handle (sock (capture x c1))" for x using via_handle [OF v] h by simp
    have "settle u (Inl e) c = give_up u 1008 403 1008 ''validation error''
        (capture (WsRaised (WebSocketDisconnect 1008 ''validation error'')) c1)"
      using False by (simp add: WebSocketRequestValidationError settle_def handle_error_def
          validation_failed_def Let_def c1_def [unfolded WebSocketRequestValidationError])
    then have "sock (settle u (Inl e) c)
        = asgi_queue_close (fst (failure_close u e)) (snd (failure_close u e)) (sock c1)"
      using False q by (simp add: WebSocketRequestValidationError give_up_queues)
    moreover have "is_validation_error e \<longrightarrow> map_of (handlers u) (validation_key u) = None \<Longrightarrow> sock c1 = sock c"
      by (simp add: c1_def WebSocketRequestValidationError)
    ultimately show thesis by (rule that [OF v])
  qed
qed (rule that [of "sock c"]; use assms in \<open>simp add: settle_def handle_error_def left_to_wrapper_def
      unhandled_def give_up_queues\<close>)+


text \<open>
  A small application: an endpoint (function 0) with a socket, a generator dependency (function 1)
  and a dependency (function 2) that uses the same generator; the endpoint accepts and fails.
\<close>

definition demo_dep :: "nat \<Rightarrow> dep" where
  "demo_dep f = \<lparr>dependency = Some f, use_cache = True, dscope = None\<rparr>"

definition demo_param :: "string \<Rightarrow> int pdefault \<Rightarrow> (int, nat) param" where
  "demo_param name d = \<lparr>pname = name, raw_ann = AEmpty, hint = None, pdefault = d, pkind = PositionalOrKeyword\<rparr>"

definition demo_fn :: "nat \<Rightarrow> (int, nat) fn" where
  "demo_fn k =
     (if k = 0 then
        \<lparr>fname = ''endpoint'',
         fsig = Some [demo_param ''websocket'' PEmpty, demo_param ''db'' (PDep (demo_dep 1)),
                      demo_param ''user'' (PDep (demo_dep 2))], fkind = FCoroutine\<rparr>
      else if k = 1 then \<lparr>fname = ''get_db'', fsig = Some [], fkind = FGen\<rparr>
      else \<lparr>fname = ''get_user'', fsig = Some [demo_param ''db'' (PDep (demo_dep 1))], fkind = FPlain\<rparr>)"

definition demo_ws_user :: "(int, nat) ws_user" where
  "demo_ws_user =
     \<lparr>wenv = demo_env, funs = demo_fn, overrides = [], query = (\<lambda>_. None), cookie = (\<lambda>_. None),
      header = (\<lambda>_. None), validate = (\<lambda>_ _. Inl ''invalid''),
      ucall = (\<lambda>h s f kw. if f = 0 then ([OpAccept None None], Inl (UserExn 7)) else ([], Inr (AVal (int f)))),
      ufinish = (\<lambda>h s f. ([], None)), uhandler = (\<lambda>h s f e. ([], None)),
      handlers = [], validation_key = 0, isinst = (\<lambda>e k. None), factories = []\<rparr>"

definition demo_specs :: "(int, nat) spec list" where
  "demo_specs = param_spec {} (the (fsig (demo_fn 0)))"


section \<open>Every dependency runs once\<close>

fun calls_of :: "nat \<Rightarrow> 'v ev list \<Rightarrow> nat" where
  "calls_of f [] = 0"
| "calls_of f (ECall g kw # es) = (if g = f then Suc (calls_of f es) else calls_of f es)"
| "calls_of f (e # es) = calls_of f es"

lemma calls_of_append [simp]: "calls_of f (es @ fs) = calls_of f es + calls_of f fs"
  by (induction f es rule: calls_of.induct) auto

text \<open>
  A rank of the functions that decreases from a function to the dependencies of what runs in its
  place: the dependencies, after the overrides, have no cycle.
\<close>

definition dep_ranked :: "('v, 'ty) ws_user \<Rightarrow> (nat \<Rightarrow> nat) \<Rightarrow> bool" where
  "dep_ranked u rank \<longleftrightarrow>
     (\<forall>f ps p d g. fsig (funs u (effective_dep_callable u f)) = Some ps \<longrightarrow> p \<in> set ps \<longrightarrow>
        sub_dependency p = Some d \<longrightarrow> dependency d = Some g \<longrightarrow> rank g < rank f)"

definition all_cached :: "('v, 'ty) ws_user \<Rightarrow> bool" where
  "all_cached u \<longleftrightarrow>
     (\<forall>f ps p d. fsig (funs u f) = Some ps \<longrightarrow> p \<in> set ps \<longrightarrow> sub_dependency p = Some d \<longrightarrow> use_cache d)"

definition below :: "(nat \<Rightarrow> nat) \<Rightarrow> nat \<Rightarrow> dep \<Rightarrow> bool" where
  "below rank n d \<longleftrightarrow> (\<forall>f. dependency d = Some f \<longrightarrow> rank f < n)"

lemma resolve_params_cong:
  assumes "\<And>p d c. p \<in> set ps \<Longrightarrow> sub_dependency p = Some d \<Longrightarrow> resolve d c = resolve' d c"
  shows "resolve_params u resolve ps c = resolve_params u resolve' ps c"
  using assms
proof (induction ps arbitrary: c)
  case (Cons p ps)
  have "resolve_param u resolve p c = resolve_param u resolve' p c"
    using Cons.prems [of p] by (cases "sub_dependency p") (simp_all add: resolve_param_def)
  moreover have "resolve_params u resolve ps c = resolve_params u resolve' ps c" for c
    by (rule Cons.IH) (rule Cons.prems, simp_all)
  ultimately show ?case by (simp split: prod.split sum.split)
qed simp

lemma resolve_dep_fuel:
  assumes "dep_ranked u rank"
  shows "below rank n d \<Longrightarrow> below rank m d \<Longrightarrow> dependency d \<noteq> None \<Longrightarrow>
    resolve_dep u n d c = resolve_dep u m d c"
proof (induction n arbitrary: m d c)
  case (Suc n)
  from Suc.prems obtain f m' where f: "dependency d = Some f" and m: "m = Suc m'"
    by (cases m) (auto simp: below_def)
  have "resolve_params u (resolve_dep u n) ps c = resolve_params u (resolve_dep u m') ps c"
    if "fsig (funs u (effective_dep_callable u f)) = Some ps" for ps
  proof (rule resolve_params_cong)
    fix p d' c assume p: "p \<in> set ps" "sub_dependency p = Some d'"
    have "below rank (rank f) d'"
      using assms that p by (auto simp: dep_ranked_def below_def)
    then have "below rank n d'" and "below rank m' d'"
      using Suc.prems f m by (auto simp: below_def)
    moreover have "dependency d' \<noteq> None"
      using p by (auto simp: sub_dependency_def split: option.splits if_splits)
    ultimately show "resolve_dep u n d' c = resolve_dep u m' d' c" by (rule Suc.IH)
  qed
  then have "(case fsig (funs u (effective_dep_callable u f)) of
      None \<Rightarrow> (Inr [], c) | Some ps \<Rightarrow> resolve_params u (resolve_dep u n) ps c) =
    (case fsig (funs u (effective_dep_callable u f)) of
      None \<Rightarrow> (Inr [], c) | Some ps \<Rightarrow> resolve_params u (resolve_dep u m') ps c)"
    by (simp split: option.split)
  then show ?case
    unfolding m resolve_dep.simps f option.case Let_def by (simp only:)
qed (auto simp: below_def)

text \<open>
  The invariant of the cache: relative to the calls \<open>base\<close> made before, exactly the cached
  functions have been called, each once.
\<close>

definition cache_inv :: "(nat \<Rightarrow> nat) \<Rightarrow> 'v conn \<Rightarrow> bool" where
  "cache_inv base c \<longleftrightarrow> (\<forall>f. calls_of f (elog c) = base f + (if cache c f = None then 0 else 1))"

definition at_most_once :: "(nat \<Rightarrow> nat) \<Rightarrow> 'v conn \<Rightarrow> bool" where
  "at_most_once base c \<longleftrightarrow> (\<forall>f. calls_of f (elog c) \<le> base f + 1)"

text \<open>What resolving dependencies of rank below \<open>k\<close> guarantees.\<close>

definition resolves_once ::
  "(nat \<Rightarrow> nat) \<Rightarrow> (nat \<Rightarrow> nat) \<Rightarrow> nat \<Rightarrow> 'v conn \<Rightarrow> (wexn + 'a) \<times> 'v conn \<Rightarrow> bool"
where
  "resolves_once rank base k c r \<longleftrightarrow>
     at_most_once base (snd r) \<and>
     (case fst r of
        Inl _ \<Rightarrow> True
      | Inr _ \<Rightarrow> cache_inv base (snd r) \<and> (\<forall>g. k \<le> rank g \<longrightarrow> cache (snd r) g = cache c g))"

lemma cache_inv_once: "cache_inv base c \<Longrightarrow> at_most_once base c"
  by (simp add: cache_inv_def at_most_once_def)

lemma resolves_once_refl: "cache_inv base c \<Longrightarrow> resolves_once rank base k c (r, c)"
  by (simp add: resolves_once_def cache_inv_once split: sum.split)

lemma resolves_once_trans:
  "resolves_once rank base k c (Inr x, c1) \<Longrightarrow> resolves_once rank base k c1 r \<Longrightarrow>
     resolves_once rank base k c r"
  by (auto simp: resolves_once_def split: sum.splits)

lemma resolves_once_Inr: "resolves_once rank base k c (Inr x, c1) \<Longrightarrow> cache_inv base c1"
  by (simp add: resolves_once_def)

lemma resolve_params_once:
  assumes "\<And>p d c. p \<in> set ps \<Longrightarrow> sub_dependency p = Some d \<Longrightarrow> cache_inv base c \<Longrightarrow>
      resolves_once rank base k c (resolve d c)"
  shows "cache_inv base c \<Longrightarrow> resolves_once rank base k c (resolve_params u resolve ps c)"
  using assms
proof (induction ps arbitrary: c)
  case Nil
  then show ?case by (simp add: resolves_once_refl)
next
  case (Cons p ps)
  obtain r1 c1 where 1: "resolve_param u resolve p c = (r1, c1)" by fastforce
  have o1: "resolves_once rank base k c (r1, c1)"
  proof (cases "is_connection_annotation p \<or> sub_dependency p = None")
    case True
    then have "c1 = c" using 1 by (auto simp: resolve_param_def split: option.splits if_splits)
    then show ?thesis using Cons.prems(1) by (simp add: resolves_once_refl)
  next
    case False
    then obtain d where d: "sub_dependency p = Some d" by auto
    have "resolves_once rank base k c (resolve d c)"
      by (rule Cons.prems(2) [OF _ d Cons.prems(1)]) simp
    then show ?thesis
      using 1 False d
      by (auto simp: resolve_param_def resolves_once_def split: prod.splits sum.splits if_splits)
  qed
  show ?case
  proof (cases r1)
    case (Inl e)
    with o1 show ?thesis by (simp add: 1 resolves_once_def)
  next
    case (Inr v)
    with o1 have "cache_inv base c1" by (simp add: resolves_once_def)
    then have "resolves_once rank base k c1 (resolve_params u resolve ps c1)"
      by (rule Cons.IH) (rule Cons.prems(2), simp_all)
    with o1 Inr show ?thesis
      by (cases "resolve_params u resolve ps c1")
        (auto simp: 1 resolves_once_def split: sum.splits)
  qed
qed

lemma run_dependency_calls:
  assumes "run_dependency u f sc g kw c = (r, c')"
  shows "calls_of h (elog c') = calls_of h (elog c) + (if h = f then 1 else 0)" and "cache c' = cache c"
  using assms by (auto simp: run_dependency_def Let_def split: prod.splits sum.splits if_splits)

lemma resolve_dep_once:
  fixes u :: "('v, 'ty) ws_user"
  assumes ranked: "dep_ranked u rank" and cached: "all_cached u"
  shows "use_cache d \<Longrightarrow> below rank k d \<Longrightarrow> cache_inv base c \<Longrightarrow>
    resolves_once rank base k c (resolve_dep u n d c)"
proof (induction n arbitrary: d c k)
  case (Suc n)
  show ?case
  proof (cases "dependency d = None \<or> cache c (the (dependency d)) \<noteq> None")
    case True
    then have "snd (resolve_dep u (Suc n) d c) = c" using Suc.prems(1) by (auto split: option.split)
    then show ?thesis
      using resolves_once_refl [OF Suc.prems(3)] by (metis prod.collapse)
  next
    case False
    then obtain f where f: "dependency d = Some f" and fresh: "cache c f = None" by auto
    define g where "g = effective_dep_callable u f"
    define k1 where "k1 = rank f"
    have k: "k1 < k" using Suc.prems(2) f by (simp add: below_def k1_def)
    obtain r1 c1 where 1: "(case fsig (funs u g) of
        None \<Rightarrow> (Inr [], c) | Some ps \<Rightarrow> resolve_params u (resolve_dep u n) ps c) = (r1, c1)"
      by fastforce
    have o1: "resolves_once rank base k1 c (r1, c1)"
    proof (cases "fsig (funs u g)")
      case (Some ps)
      have "resolves_once rank base k1 c (resolve_params u (resolve_dep u n) ps c)"
      proof (rule resolve_params_once [OF _ Suc.prems(3)])
        fix p d' and c :: "'v conn"
        assume p: "p \<in> set ps" "sub_dependency p = Some d'" and "cache_inv base c"
        have "use_cache d'" using cached Some p by (auto simp: all_cached_def)
        moreover have "below rank k1 d'"
          using ranked Some p by (auto simp: dep_ranked_def below_def g_def k1_def)
        ultimately show "resolves_once rank base k1 c (resolve_dep u n d' c)"
          using \<open>cache_inv base c\<close> by (rule Suc.IH)
      qed
      then show ?thesis using 1 Some by simp
    qed (use 1 Suc.prems(3) in \<open>simp add: resolves_once_refl\<close>)
    show ?thesis
    proof (cases r1)
      case (Inl e)
      then show ?thesis
        using o1 f fresh 1 Suc.prems(1) by (simp add: resolves_once_def Let_def flip: g_def)
    next
      case (Inr kw)
      obtain r2 c2 where 2: "run_dependency u f (get_dep_scope d) g kw c1 = (r2, c2)" by fastforce
      have inv1: "cache_inv base c1" and f1: "cache c1 f = None"
        and old: "\<forall>h. k1 \<le> rank h \<longrightarrow> cache c1 h = cache c h"
        using o1 Inr fresh by (simp_all add: resolves_once_def k1_def)
      have calls2: "calls_of h (elog c2) = base h + (if cache c1 h = None then 0 else 1) + (if h = f then 1 else 0)"
        for h
        using inv1 run_dependency_calls(1) [OF 2, of h] by (simp add: cache_inv_def)
      have c2: "cache c2 = cache c1" by (rule run_dependency_calls(2) [OF 2])
      have step: "resolve_dep u (Suc n) d c =
          (case r2 of Inl e \<Rightarrow> (Inl e, c2) | Inr v \<Rightarrow> (Inr v, c2\<lparr>cache := (cache c2)(f \<mapsto> v)\<rparr>))"
        using f fresh 1 2 Inr Suc.prems(1) by (simp add: Let_def flip: g_def split: sum.split)
      have "at_most_once base c2"
        using calls2 f1 by (auto simp: at_most_once_def)
      moreover have "cache_inv base (c2\<lparr>cache := (cache c2)(f \<mapsto> v)\<rparr>)" for v
        using calls2 f1 by (auto simp: cache_inv_def c2)
      ultimately show ?thesis
        unfolding step using old k
        by (auto simp: resolves_once_def at_most_once_def c2 k1_def split: sum.split)
    qed
  qed
next
  case 0
  then show ?case by (simp add: resolves_once_def cache_inv_once)
qed

text \<open>The dependencies of a handler's parameters and the extra ones, all of rank below the bound.\<close>

definition deps_below :: "(nat \<Rightarrow> nat) \<Rightarrow> nat \<Rightarrow> ('v, 'ty) spec list \<Rightarrow> dep list \<Rightarrow> bool" where
  "deps_below rank n specs extras \<longleftrightarrow>
     (\<forall>sp \<in> set specs. case sp of SDep _ d \<Rightarrow> dependency d \<noteq> None \<and> below rank n d | _ \<Rightarrow> True) \<and>
     (\<forall>d \<in> set extras. below rank n d)"

definition deps_cached :: "('v, 'ty) spec list \<Rightarrow> dep list \<Rightarrow> bool" where
  "deps_cached specs extras \<longleftrightarrow>
     (\<forall>sp \<in> set specs. case sp of SDep _ d \<Rightarrow> use_cache d | _ \<Rightarrow> True) \<and> (\<forall>d \<in> set extras. use_cache d)"

lemma build_specs_fuel:
  assumes "dep_ranked u rank"
  shows "deps_below rank n specs [] \<Longrightarrow> deps_below rank m specs [] \<Longrightarrow>
    build_specs u n path specs kw c = build_specs u m path specs kw c"
proof (induction specs arbitrary: kw c)
  case (Cons sp specs)
  have "spec_value u n path sp c = spec_value u m path sp c"
    using Cons.prems resolve_dep_fuel [OF assms, of n _ m c]
    by (cases sp) (simp_all add: deps_below_def)
  moreover have "build_specs u n path specs kw c = build_specs u m path specs kw c" for kw c
    by (rule Cons.IH) (use Cons.prems in \<open>simp_all add: deps_below_def\<close>)
  ultimately show ?case by (simp split: prod.split sum.split)
qed simp

lemma run_extras_fuel:
  assumes "dep_ranked u rank"
  shows "\<forall>d \<in> set ds. below rank n d \<and> below rank m d \<Longrightarrow> run_extras u n ds c = run_extras u m ds c"
proof (induction ds arbitrary: c)
  case (Cons d ds)
  then show ?case
    using resolve_dep_fuel [OF assms, of n d m c] by (simp split: prod.split sum.split)
qed simp

lemma build_kwargs_fuel:
  assumes "dep_ranked u rank" and "deps_below rank n specs extras" and "deps_below rank m specs extras"
  shows "build_kwargs u n path specs extras c = build_kwargs u m path specs extras c"
proof -
  have "build_specs u n path specs kw c = build_specs u m path specs kw c" for kw c
    by (rule build_specs_fuel [OF assms(1)]) (use assms(2,3) in \<open>simp_all add: deps_below_def\<close>)
  moreover have "run_extras u n extras c = run_extras u m extras c" for c
    by (rule run_extras_fuel [OF assms(1)]) (use assms(2,3) in \<open>simp add: deps_below_def\<close>)
  ultimately show ?thesis by (simp add: build_kwargs_def split: prod.split sum.split)
qed

lemma build_specs_once:
  assumes "dep_ranked u rank" and "all_cached u" and "deps_cached specs []" and "deps_below rank n specs []"
    and "cache_inv base c"
  shows "resolves_once rank base n c (build_specs u n path specs kw c)"
  using assms(3-)
proof (induction specs arbitrary: kw c)
  case (Cons sp specs)
  obtain r1 c1 where 1: "spec_value u n path sp c = (r1, c1)" by fastforce
  have o1: "resolves_once rank base n c (r1, c1)"
  proof (cases sp)
    case (SDep name d)
    with Cons.prems have "resolves_once rank base n c (resolve_dep u n d c)"
      by (intro resolve_dep_once [OF assms(1,2)]) (simp_all add: deps_below_def deps_cached_def)
    then show ?thesis
      using 1 SDep by (auto simp: resolves_once_def split: prod.splits sum.splits)
  qed (use 1 Cons.prems in \<open>auto simp: resolves_once_refl\<close>)
  show ?case
  proof (cases r1)
    case (Inl e)
    with o1 show ?thesis by (simp add: 1 resolves_once_def)
  next
    case (Inr nv)
    obtain name v where nv: "nv = (name, v)" by fastforce
    have "resolves_once rank base n c1 (build_specs u n path specs (AList.update name v kw) c1)"
      by (rule Cons.IH)
        (use o1 Inr Cons.prems in \<open>simp_all add: resolves_once_Inr deps_below_def deps_cached_def\<close>)
    with o1 Inr show ?thesis
      by (simp add: 1 nv resolves_once_trans)
  qed
qed (simp add: resolves_once_refl)

lemma run_extras_once:
  assumes "dep_ranked u rank" and "all_cached u" and "deps_cached [] ds" and "deps_below rank n [] ds"
    and "cache_inv base c"
  shows "resolves_once rank base n c (run_extras u n ds c)"
  using assms(3-)
proof (induction ds arbitrary: c)
  case (Cons d ds)
  have rest: "resolves_once rank base n c (run_extras u n ds c)" if "cache_inv base c" for c
    by (rule Cons.IH) (use that Cons.prems in \<open>simp_all add: deps_below_def deps_cached_def\<close>)
  obtain r1 c1 where 1: "resolve_dep u n d c = (r1, c1)" by fastforce
  have o1: "resolves_once rank base n c (r1, c1)"
    using resolve_dep_once [OF assms(1,2), of d n base c n] Cons.prems
    by (simp add: 1 deps_below_def deps_cached_def)
  show ?case
  proof (cases r1)
    case (Inl e)
    with o1 show ?thesis using rest [of c] Cons.prems by (simp add: 1 resolves_once_def)
  next
    case (Inr v)
    have "resolves_once rank base n c1 (run_extras u n ds c1)"
      by (rule rest) (rule resolves_once_Inr [OF o1 [unfolded Inr]])
    with o1 Inr have "resolves_once rank base n c (run_extras u n ds c1)"
      by (simp add: resolves_once_trans)
    then show ?thesis
      using rest [of c] Cons.prems by (simp add: 1 Inr)
  qed
qed (simp add: resolves_once_refl)

lemma build_kwargs_once:
  assumes "dep_ranked u rank" and "all_cached u" and "deps_cached specs extras"
    and "deps_below rank n specs extras"
  shows "at_most_once (\<lambda>f. calls_of f (elog c)) (snd (build_kwargs u n path specs extras c))"
proof -
  let ?c0 = "c\<lparr>gens := [], cache := Map.empty\<rparr>" and ?base = "\<lambda>f. calls_of f (elog c)"
  let ?kw = "map (map_prod id AText) path"
  obtain r1 c1 where 1: "build_specs u n path specs ?kw ?c0 = (r1, c1)" by fastforce
  have "resolves_once rank ?base n ?c0 (build_specs u n path specs ?kw ?c0)"
    by (rule build_specs_once [OF assms(1,2)])
      (use assms(3,4) in \<open>simp_all add: deps_below_def deps_cached_def cache_inv_def\<close>)
  then have o1: "resolves_once rank ?base n ?c0 (r1, c1)" by (simp add: 1)
  have o2: "resolves_once rank ?base n c1 (run_extras u n extras c1)" if "cache_inv ?base c1"
    by (rule run_extras_once [OF assms(1,2) _ _ that])
      (use assms(3,4) in \<open>simp_all add: deps_below_def deps_cached_def\<close>)
  show ?thesis
    using o1 o2
    by (cases r1; cases "run_extras u n extras c1") (auto simp: build_kwargs_def 1 resolves_once_def split: sum.splits)
qed

text \<open>
  C27.  When the dependencies of a handler have no cycle (after the overrides), resolving them
  terminates: the recursion bound plays no role, any bound above the depth gives the same result.
  With caching, which is the default, every dependency function is then called at most once per
  connection, however often and however deep it is asked for, and also when the resolution fails.
\<close>

theorem dependencies_resolved_once:
  assumes "dep_ranked u rank" and "deps_below rank n specs extras" and "deps_below rank m specs extras"
  shows "build_kwargs u n path specs extras c = build_kwargs u m path specs extras c \<and>
     (all_cached u \<and> deps_cached specs extras \<longrightarrow>
        (\<forall>f. calls_of f (elog (snd (build_kwargs u n path specs extras c))) \<le> calls_of f (elog c) + 1))"
  using build_kwargs_fuel [OF assms] build_kwargs_once [OF assms(1) _ _ assms(2), of c path]
  by (simp add: at_most_once_def)

lemma demo_specs_eval:
  "demo_specs = [SWs ''websocket'', SDep ''db'' (demo_dep 1), SDep ''user'' (demo_dep 2)]"
  by code_simp

lemma demo_ranked: "dep_ranked demo_ws_user (\<lambda>k. if k = 0 then 2 else if k = 1 then 0 else 1)"
  and demo_cached: "all_cached demo_ws_user"
  by (auto simp: dep_ranked_def all_cached_def demo_ws_user_def demo_fn_def effective_dep_callable_def
      demo_param_def demo_dep_def sub_dependency_def extract_depends_def resolved_ann_def split: if_splits)

theorem dependencies_resolved_once_witness:
  "\<forall>f. calls_of f (elog (snd (build_kwargs demo_ws_user 3 [] demo_specs [] (new_conn [])))) \<le> 1"
  using dependencies_resolved_once [OF demo_ranked, of 3 demo_specs "[]" 3 "[]" "new_conn []"] demo_cached
  by (simp add: demo_specs_eval deps_below_def deps_cached_def below_def demo_dep_def new_conn_def)

section \<open>Tear-down\<close>

fun yielded :: "'v ev list \<Rightarrow> nat list" where
  "yielded [] = []"
| "yielded (EYield f # es) = f # yielded es"
| "yielded (e # es) = yielded es"

fun finished :: "'v ev list \<Rightarrow> nat list" where
  "finished [] = []"
| "finished (EFinish f # es) = f # finished es"
| "finished (e # es) = finished es"

lemma yielded_append [simp]: "yielded (es @ fs) = yielded es @ yielded fs"
  by (induction es rule: yielded.induct) auto

lemma finished_append [simp]: "finished (es @ fs) = finished es @ finished fs"
  by (induction es rule: finished.induct) auto

lemma map_EFinish [simp]: "finished (map EFinish fs) = fs" "yielded (map EFinish fs) = []"
  by (induction fs) auto

text \<open>The generators waiting for tear-down are the ones that reached their \<open>yield\<close>, in that order.\<close>

definition gens_match :: "'v conn \<Rightarrow> 'v conn \<Rightarrow> bool" where
  "gens_match c c' \<longleftrightarrow>
     (\<exists>es gs. elog c' = elog c @ es \<and> gens c' = gens c @ gs \<and> map fst gs = yielded es \<and> finished es = [])"

interpretation gens_match: conn_preorder u gens_match for u :: "('v, 'ty) ws_user"
proof unfold_locales
  show "gens_match c c" for c :: "'v conn"
    by (simp add: gens_match_def)
  show "gens_match a b \<Longrightarrow> gens_match b c \<Longrightarrow> gens_match a c" for a b c :: "'v conn"
    by (auto simp: gens_match_def)
  show "gens_match c c'" if "run_dependency u orig sc f kw c = (r, c')" for orig sc f kw r and c c' :: "'v conn"
    using that
    by (auto simp: run_dependency_def gens_match_def Let_def split: prod.splits sum.splits if_splits)
  show "gens_match c (c\<lparr>cache := (cache c)(f \<mapsto> v)\<rparr>)" for c :: "'v conn" and f v
    by (simp add: gens_match_def)
qed

lemma teardown_list_all:
  "teardown_list u None gs c = (rest, c') \<Longrightarrow>
     rest = [] \<and> elog c' = elog c @ map (EFinish \<circ> fst) gs \<and> gens c' = gens c"
  by (induction gs arbitrary: c) auto

lemma teardown_generators_all:
  "elog (teardown_generators u None c) = elog c @ map EFinish (rev (map fst (gens c))) \<and>
   gens (teardown_generators u None c) = []"
  using teardown_list_all [of u "rev (gens c)" c]
  by (cases "teardown_list u None (rev (gens c)) c") (auto simp: teardown_generators_def rev_map)

text \<open>With a filter the other scope's generators stay, in their order.\<close>

lemma teardown_list_scope:
  "teardown_list u (Some sc) gs c = (rest, c') \<Longrightarrow>
     rest = filter (\<lambda>g. snd (snd g) \<noteq> sc) gs \<and>
     elog c' = elog c @ map (EFinish \<circ> fst) (filter (\<lambda>g. snd (snd g) = sc) gs)"
  by (induction gs arbitrary: c rest c') (auto split: prod.splits if_splits)

lemma teardown_scope_split:
  "gens (teardown_generators u (Some sc) c) = filter (\<lambda>g. snd (snd g) \<noteq> sc) (gens c)"
  using teardown_list_scope [of u sc "rev (gens c)" c]
  by (cases "teardown_list u (Some sc) (rev (gens c)) c") (auto simp: teardown_generators_def rev_filter)

text \<open>Endpoint and handler events start and finish no generator.\<close>

definition neutral :: "'v ev list \<Rightarrow> bool" where
  "neutral es \<longleftrightarrow> (\<forall>e \<in> set es. (\<exists>kw. e = EEndpoint kw) \<or> (\<exists>h. e = EHandler h))"

lemma neutral_events: "neutral es \<Longrightarrow> yielded es = [] \<and> finished es = []"
  by (induction es) (auto simp: neutral_def)

lemma run_endpoint_log:
  assumes "run_endpoint u ep kw c = (r, c')"
  shows "gens c' = gens c \<and> (elog c' = elog c @ [EEndpoint kw] \<or> elog c' = elog c @ [EEndpoint kw, EEndpoint kw])"
  using assms
  by (rule run_endpoint_cases) (auto simp: call_endpoint_def split: prod.splits)

lemma settle_log: "\<exists>es. elog (settle u r c) = elog c @ es \<and> neutral es"
proof -
  have h: "elog (snd (run_exc_handler u h e c)) = elog c @ [EHandler h]" for h e c
    by (simp add: run_exc_handler_def split: prod.split)
  have g: "elog (give_up u x y z w c) = elog c" for x y z w c
    by (simp add: give_up_def)
  have n: "neutral []" "neutral [EHandler h]" for h
    by (simp_all add: neutral_def)
  have h': "elog c' = elog c @ [EHandler h]" if "run_exc_handler u h e c = (x, c')" for h e c x c'
    using h [of h e c] that by simp
  have e: "elog (handle_error u e c) = elog c \<or> (\<exists>h. elog (handle_error u e c) = elog c @ [EHandler h])" for e
    by (auto simp: handle_error_def validation_failed_def unhandled_def Let_def g h
        split: option.split prod.split dest: h')
  have e': "\<exists>es. elog (handle_error u e c) = elog c @ es \<and> neutral es" for e
    using e [of e] n by (metis append_Nil2)
  show ?thesis
    using e' n by (auto simp: settle_def handle_ws_exc_def Let_def g split: sum.split wexn.split)
qed

lemma new_conn_gens [simp]: "new_conn msgs\<lparr>gens := []\<rparr> = new_conn msgs"
  by (simp add: new_conn_def)

lemma neutral_append [simp]: "neutral (es @ fs) \<longleftrightarrow> neutral es \<and> neutral fs"
  by (auto simp: neutral_def)

lemma ws_entry_log:
  assumes "factories u = []" and "build_kwargs u n path specs extras (c\<lparr>gens := []\<rparr>) = (r, c1)"
  obtains es where "neutral es"
    and "elog (ws_entry u n ep path specs extras c)
      = elog c1 @ es @ (case r of Inl _ \<Rightarrow> [] | Inr _ \<Rightarrow> map EFinish (rev (map fst (gens c1))))"
proof -
  obtain r2 c2 where 2: "run_handler_inner u n ep path specs extras (c\<lparr>gens := []\<rparr>) = (r2, c2)"
    by fastforce
  have g: "elog (give_up u x y z w c) = elog c" for x y z w c
    by (simp add: give_up_def)
  obtain es1 where es1: "neutral es1" "elog c2 = elog c1 @ es1"
    and gens: "gens c2 = (case r of Inl _ \<Rightarrow> [] | Inr _ \<Rightarrow> gens c1)"
  proof (cases r)
    case (Inl e)
    then have "elog c2 = elog c1 @ [] \<and> gens c2 = []"
      using 2 assms(2)
      by (auto simp: run_handler_inner_def Let_def handle_ws_exc_def g split: wexn.splits)
    then show thesis using that [of "[]"] Inl by (simp add: neutral_def)
  next
    case (Inr kw)
    then have "run_endpoint u ep kw c1 = (r2, c2)"
      using 2 assms(2) by (simp add: run_handler_inner_def)
    from run_endpoint_log [OF this] show thesis
      using that [of "[EEndpoint kw]"] that [of "[EEndpoint kw, EEndpoint kw]"] Inr
      by (auto simp: neutral_def)
  qed
  obtain es2 where es2: "elog (settle u r2 c2) = elog c2 @ es2" "neutral es2"
    using settle_log by blast
  have "ws_entry u n ep path specs extras c = teardown_generators u None (settle u r2 c2)"
    using 2 by (simp add: ws_entry_settle invoke_with_middleware_def assms(1))
  then have "elog (ws_entry u n ep path specs extras c)
      = elog c1 @ (es1 @ es2) @ (case r of Inl _ \<Rightarrow> [] | Inr _ \<Rightarrow> map EFinish (rev (map fst (gens c1))))"
    using teardown_generators_all [of u "settle u r2 c2"] es1 es2 gens
    by (simp split: sum.splits)
  then show thesis using that [of "es1 @ es2"] es1 es2 by simp
qed



text \<open>
  When building the arguments fails, the generators started so far are forgotten: the wrapper's
  list is only assigned on success, so none of them is ever resumed.
\<close>

lemma failed_build_leaks_generators:
  assumes "factories u = []" and "build_kwargs u n path specs extras (new_conn msgs) = (Inl e, c1)"
  shows "finished (elog (serve_ws u n ep path specs extras msgs)) = []"
    and "yielded (elog (serve_ws u n ep path specs extras msgs)) = yielded (elog c1)"
proof -
  from assms obtain es where es: "neutral es"
    and log: "elog (ws_entry u n ep path specs extras (new_conn msgs)) = elog c1 @ es"
    using ws_entry_log [of u n path specs extras "new_conn msgs" "Inl e" c1 ep] by auto
  moreover have "finished (elog c1) = []"
    using gens_match.build_kwargs_R [OF assms(2)] by (auto simp: gens_match_def new_conn_def)
  ultimately show "finished (elog (serve_ws u n ep path specs extras msgs)) = []"
    and "yielded (elog (serve_ws u n ep path specs extras msgs)) = yielded (elog c1)"
    using neutral_events [OF es] by (simp_all add: serve_ws_def Let_def)
qed

text \<open>
  A validation error of an application without exception handlers is closed with 1011 and not with
  1008; and an untyped parameter whose default is \<open>None\<close> is treated as required.
\<close>

lemma validation_without_handlers_closes_1011:
  "handlers u = [] \<Longrightarrow> failure_close u (WebSocketRequestValidationError errs) = (1011, [])"
  by simp

lemma untyped_none_default_is_required:
  assumes "resolved_ann p = AEmpty" and "pdefault p = PVal ANoneVal" and "pkind p = PositionalOrKeyword"
    and "pname p \<notin> path" and "fallback \<noteq> Some (pname p)" and "raw_ann p = AEmpty"
  shows "classify path fallback p = Some (SScalar (pname p) (query_marker None) AStr)"
  using assms
  by (simp add: classify_def extract_depends_def extract_marker_def is_websocket_annotation_def)

end
