(* ===== verification/Ws_Decoration.thy ===== *)
theory Ws_Decoration
  imports Ws_Endpoint
begin

text \<open>
  What happens when a WebSocket route is declared (\<open>_ws_support.py\<close>): the dependency-scope rule,
  checked by a depth-first walk over the dependencies, and the adapter that drives an endpoint
  class (\<open>on_connect\<close>, \<open>on_receive\<close>, \<open>on_disconnect\<close>) as a handler.
\<close>

section \<open>The dependency-scope rule\<close>

text \<open>
  A request-scoped generator must not depend on a function-scoped one.  The walk starts with a
  dependency and keeps the functions it has visited; \<open>Deep\<close> is Python's recursion limit.
\<close>

datatype walk_result = Violation string | Visited "nat list" | Deep

definition subs :: "('v, 'ty) ws_user \<Rightarrow> nat \<Rightarrow> dep list" where
  "subs u f = (case fsig (funs u f) of None \<Rightarrow> [] | Some ps \<Rightarrow> List.map_filter sub_dependency ps)"

definition mismatch :: "('v, 'ty) ws_user \<Rightarrow> dep \<Rightarrow> dep \<Rightarrow> bool" where
  "mismatch u outer sub \<longleftrightarrow>
     (case (dependency outer, dependency sub) of
        (Some f, Some g) \<Rightarrow>
          is_yield (funs u f) \<and> is_yield (funs u g) \<and>
          get_dep_scope outer = ''request'' \<and> get_dep_scope sub = ''function''
      | _ \<Rightarrow> False)"

fun walk_subs :: "(dep \<Rightarrow> nat list \<Rightarrow> walk_result) \<Rightarrow> ('v, 'ty) ws_user \<Rightarrow> dep \<Rightarrow> string \<Rightarrow> dep list \<Rightarrow> nat list \<Rightarrow> walk_result"
where
  "walk_subs walk u d name [] vis = Visited vis"
| "walk_subs walk u d name (s # ss) vis =
     (if mismatch u d s then Violation name
      else case walk s vis of
             Visited vis' \<Rightarrow> walk_subs walk u d name ss vis'
           | r \<Rightarrow> r)"

fun walk :: "('v, 'ty) ws_user \<Rightarrow> nat \<Rightarrow> dep \<Rightarrow> nat list \<Rightarrow> walk_result" where
  "walk u 0 d vis = Deep"
| "walk u (Suc n) d vis =
     (case dependency d of
        None \<Rightarrow> Visited vis
      | Some f \<Rightarrow>
          if f \<in> set vis then Visited vis
          else walk_subs (walk u n) u d (fname (funs u f)) (subs u f) (f # vis))"

text \<open>
  Every dependency of the endpoint's signature is walked with a fresh visited set; \<open>Visited []\<close>
  means that the check passed.
\<close>

fun check_deps :: "('v, 'ty) ws_user \<Rightarrow> nat \<Rightarrow> dep list \<Rightarrow> walk_result" where
  "check_deps u n [] = Visited []"
| "check_deps u n (d # ds) =
     (case walk u n d [] of Visited _ \<Rightarrow> check_deps u n ds | r \<Rightarrow> r)"

definition ws_check_scope_mismatch :: "('v, 'ty) ws_user \<Rightarrow> nat \<Rightarrow> nat \<Rightarrow> walk_result" where
  "ws_check_scope_mismatch u n endpoint = check_deps u n (subs u endpoint)"

text \<open>The wrapper repeats the check for the classified parameters and the extra dependencies.\<close>

definition check_scope_mismatch :: "('v, 'ty) ws_user \<Rightarrow> nat \<Rightarrow> ('v, 'ty) spec list \<Rightarrow> dep list \<Rightarrow> walk_result" where
  "check_scope_mismatch u n specs extras =
     check_deps u n
       (List.map_filter (\<lambda>sp. case sp of SDep _ d \<Rightarrow> Some d | _ \<Rightarrow> None) specs
        @ filter (\<lambda>d. dependency d \<noteq> None) extras)"

section \<open>Endpoint classes\<close>

datatype 'v class_msg =
    CText "codepoints option"
  | CBytes "bytes option"
  | CJson 'v
  | CRaw in_msg

datatype 'v class_ev = CConnect | CReceive "'v class_msg" | CDisconnect int

text \<open>The methods of an endpoint class: what they do with the socket and what they raise.\<close>

record 'v ws_class =
  encoding :: "string option"
  on_connect :: "'v class_ev list \<Rightarrow> ws \<Rightarrow> 'v ws_op list \<times> wexn option"
  on_receive :: "'v class_ev list \<Rightarrow> ws \<Rightarrow> 'v class_msg \<Rightarrow> 'v ws_op list \<times> wexn option"
  on_disconnect :: "'v class_ev list \<Rightarrow> ws \<Rightarrow> int \<Rightarrow> 'v ws_op list \<times> wexn option"

text \<open>One turn's receive: a message for \<open>on_receive\<close>, or the client's disconnect message.\<close>

datatype 'v turn = Deliver "'v class_msg" | Break int

fun raw_turn :: "in_msg \<Rightarrow> 'v turn" where
  "raw_turn (MDisconnect code _) = Break (case code of None \<Rightarrow> 1000 | Some c \<Rightarrow> c)"
| "raw_turn (MReceive (Some t) _) = Deliver (CText t)"
| "raw_turn (MReceive None (Some b)) = Deliver (CBytes b)"
| "raw_turn m = Deliver (CRaw m)"

definition map_res :: "('a \<Rightarrow> 'b) \<Rightarrow> 'a res \<times> ws \<Rightarrow> 'b res \<times> ws" where
  "map_res f r = (case r of (Ret x, s) \<Rightarrow> (Ret (f x), s) | (Exn e, s) \<Rightarrow> (Exn e, s) | (Wait, s) \<Rightarrow> (Wait, s))"

definition class_receive :: "'v ws_env \<Rightarrow> 'v ws_class \<Rightarrow> ws \<Rightarrow> 'v turn res \<times> ws" where
  "class_receive env k s =
     (if encoding k = Some ''text'' then map_res (Deliver \<circ> CText) (receive_text env s)
      else if encoding k = Some ''bytes'' then map_res (Deliver \<circ> CBytes) (receive_bytes env s)
      else if encoding k = Some ''json'' then map_res (Deliver \<circ> CJson) (receive_json env ''text'' s)
      else map_res raw_turn (receive s))"

datatype loop_end = Broke int | Threw wexn | Suspended

text \<open>
  The receive loop.  A turn that delivers has consumed a message and the methods only consume, so
  the loop ends on every finite input.
\<close>

function class_loop :: "'v ws_env \<Rightarrow> 'v ws_class \<Rightarrow> 'v class_ev list \<Rightarrow> ws \<Rightarrow> loop_end \<times> 'v class_ev list \<times> ws" where
  "class_loop env k h s =
     (case class_receive env k s of
        (Wait, t) \<Rightarrow> (Suspended, h, t)
      | (Exn e, t) \<Rightarrow> (Threw (WsRaised e), h, t)
      | (Ret (Break code), t) \<Rightarrow> (Broke code, h, t)
      | (Ret (Deliver m), t) \<Rightarrow>
          (case on_receive k h t m of
             (ops, r) \<Rightarrow>
               let t' = fold (apply_op env) ops t
               in case r of
                    Some e \<Rightarrow> (Threw e, h @ [CReceive m], t')
                  | None \<Rightarrow>
                      if length (inbox t') < length (inbox s) then class_loop env k (h @ [CReceive m]) t'
                      else (Suspended, h @ [CReceive m], t')))"
  by pat_completeness auto
termination by (relation "measure (\<lambda>(env, k, h, s). length (inbox s))") auto

declare class_loop.simps [simp del]

text \<open>
  The \<open>finally\<close> part: \<open>on_disconnect\<close> gets 1011 after an error, the code of a disconnect otherwise.
  An exception of \<open>on_disconnect\<close> takes the place of the pending one.
\<close>

fun close_code_of :: "loop_end \<Rightarrow> int" where
  "close_code_of (Broke code) = code"
| "close_code_of (Threw (WsRaised (WebSocketDisconnect code _))) = code"
| "close_code_of (Threw _) = 1011"
| "close_code_of Suspended = 1000"

fun pending_exn :: "loop_end \<Rightarrow> wexn option" where
  "pending_exn (Threw (WsRaised (WebSocketDisconnect _ _))) = None"
| "pending_exn (Threw e) = Some e"
| "pending_exn _ = None"

definition class_finally :: "'v ws_env \<Rightarrow> 'v ws_class \<Rightarrow> loop_end \<times> 'v class_ev list \<times> ws
     \<Rightarrow> wexn option res \<times> 'v class_ev list \<times> ws" where
  "class_finally env k r =
     (case r of
        (Suspended, h, s) \<Rightarrow> (Wait, h, s)
      | (fin, h, s) \<Rightarrow>
          (case on_disconnect k h s (close_code_of fin) of
             (ops, e) \<Rightarrow>
               (Ret (case e of Some x \<Rightarrow> Some x | None \<Rightarrow> pending_exn fin),
                h @ [CDisconnect (close_code_of fin)], fold (apply_op env) ops s)))"

definition run_class :: "'v ws_env \<Rightarrow> 'v ws_class \<Rightarrow> ws \<Rightarrow> wexn option res \<times> 'v class_ev list \<times> ws" where
  "run_class env k s =
     (case on_connect k [] s of
        (ops, r) \<Rightarrow>
          let t = fold (apply_op env) ops s
          in class_finally env k
               (case r of Some e \<Rightarrow> (Threw e, [CConnect], t) | None \<Rightarrow> class_loop env k [CConnect] t))"

section \<open>The walk decides the rule\<close>

text \<open>The dependencies that a dependency leads to.\<close>

inductive leads_to :: "('v, 'ty) ws_user \<Rightarrow> dep \<Rightarrow> dep \<Rightarrow> bool" for u d where
  leads_refl: "leads_to u d d"
| leads_step: "leads_to u d e \<Longrightarrow> dependency e = Some f \<Longrightarrow> s \<in> set (subs u f) \<Longrightarrow> leads_to u d s"

definition breaks_rule :: "('v, 'ty) ws_user \<Rightarrow> dep \<Rightarrow> bool" where
  "breaks_rule u d \<longleftrightarrow>
     (\<exists>e f s. leads_to u d e \<and> dependency e = Some f \<and> s \<in> set (subs u f) \<and> mismatch u e s)"

lemma leads_to_front:
  assumes "dependency d = Some f" and "s \<in> set (subs u f)" and "leads_to u s e"
  shows "leads_to u d e"
  using assms(3)
  by (induction rule: leads_to.induct) (blast intro: assms leads_to.intros)+

lemma breaks_rule_front:
  "dependency d = Some f \<Longrightarrow> s \<in> set (subs u f) \<Longrightarrow> breaks_rule u s \<Longrightarrow> breaks_rule u d"
  unfolding breaks_rule_def by (blast intro: leads_to_front)

lemma subs_dependency: "s \<in> set (subs u f) \<Longrightarrow> \<exists>g. dependency s = Some g"
  by (auto simp: subs_def sub_dependency_def map_filter_def split: option.splits if_splits)

text \<open>What a finished walk guarantees about the functions it added.\<close>

definition cleared :: "('v, 'ty) ws_user \<Rightarrow> dep \<Rightarrow> nat set \<Rightarrow> nat \<Rightarrow> bool" where
  "cleared u d vis g \<longleftrightarrow>
     (\<exists>e. leads_to u d e \<and> dependency e = Some g \<and>
        (\<forall>s \<in> set (subs u g). the (dependency s) \<in> vis \<and> \<not> mismatch u e s))"

definition walk_ok :: "('v, 'ty) ws_user \<Rightarrow> dep \<Rightarrow> nat list \<Rightarrow> walk_result \<Rightarrow> bool" where
  "walk_ok u d vis r \<longleftrightarrow>
     (case r of
        Deep \<Rightarrow> False
      | Violation _ \<Rightarrow> breaks_rule u d
      | Visited vis' \<Rightarrow>
          set vis \<subseteq> set vis' \<and> (\<forall>f. dependency d = Some f \<longrightarrow> f \<in> set vis') \<and>
          (\<forall>g \<in> set vis' - set vis. cleared u d (set vis') g))"

lemma cleared_mono: "cleared u d vis g \<Longrightarrow> vis \<subseteq> vis' \<Longrightarrow> cleared u d vis' g"
  by (auto simp: cleared_def)

lemma cleared_front:
  "dependency d = Some f \<Longrightarrow> s \<in> set (subs u f) \<Longrightarrow> cleared u s vis g \<Longrightarrow> cleared u d vis g"
  unfolding cleared_def by (blast intro: leads_to_front)

lemma walk_subs_ok:
  assumes "dependency d = Some f"
    and "\<And>s vis. s \<in> set ss \<Longrightarrow> set vis0 \<subseteq> set vis \<Longrightarrow> walk_ok u s vis (go s vis)"
    and "set ss \<subseteq> set (subs u f)" and "set vis0 \<subseteq> set vis"
  shows "case walk_subs go u d name ss vis of
     Deep \<Rightarrow> False
   | Violation _ \<Rightarrow> breaks_rule u d
   | Visited vis' \<Rightarrow>
       set vis \<subseteq> set vis' \<and> (\<forall>s \<in> set ss. the (dependency s) \<in> set vis' \<and> \<not> mismatch u d s) \<and>
       (\<forall>g \<in> set vis' - set vis. cleared u d (set vis') g)"
  using assms(2-)
proof (induction ss arbitrary: vis)
  case (Cons s ss)
  have s: "s \<in> set (subs u f)" using Cons.prems(2) by simp
  show ?case
  proof (cases "mismatch u d s")
    case True
    have "breaks_rule u d"
      unfolding breaks_rule_def using assms(1) s True by (blast intro: leads_refl)
    with True show ?thesis by simp
  next
    case False
    have ok: "walk_ok u s vis (go s vis)"
      by (rule Cons.prems(1)) (use Cons.prems(3) in auto)
    show ?thesis
    proof (cases "go s vis")
      case Deep
      with ok show ?thesis by (simp add: walk_ok_def)
    next
      case (Violation x)
      with ok have "breaks_rule u s" by (simp add: walk_ok_def)
      then have "breaks_rule u d" by (rule breaks_rule_front [OF assms(1) s])
      with Violation False show ?thesis by simp
    next
      case (Visited vis1)
      have v1: "set vis \<subseteq> set vis1" "the (dependency s) \<in> set vis1"
        "\<forall>g \<in> set vis1 - set vis. cleared u s (set vis1) g"
        using ok Visited subs_dependency [OF s] by (auto simp: walk_ok_def)
      have "case walk_subs go u d name ss vis1 of
         Deep \<Rightarrow> False
       | Violation _ \<Rightarrow> breaks_rule u d
       | Visited vis' \<Rightarrow>
           set vis1 \<subseteq> set vis' \<and> (\<forall>s \<in> set ss. the (dependency s) \<in> set vis' \<and> \<not> mismatch u d s) \<and>
           (\<forall>g \<in> set vis' - set vis1. cleared u d (set vis') g)"
        by (rule Cons.IH) (use Cons.prems v1(1) in auto)
      moreover have "cleared u d V g" if "g \<in> set vis1" and "g \<notin> set vis" and "set vis1 \<subseteq> V" for g V
        using cleared_mono [OF cleared_front [OF assms(1) s] that(3)] v1(3) that(1,2) by blast
      ultimately show ?thesis
        using v1(1,2) False Visited by (auto split: walk_result.splits)
    qed
  qed
qed simp

text \<open>The functions in play are finitely many; the bound counts the ones not visited yet.\<close>

lemma walk_correct:
  assumes "finite F" and closed: "\<And>f s g. f \<in> F \<Longrightarrow> s \<in> set (subs u f) \<Longrightarrow> dependency s = Some g \<Longrightarrow> g \<in> F"
  shows "(\<And>f. dependency d = Some f \<Longrightarrow> f \<in> F) \<Longrightarrow> card (F - set vis) < n \<Longrightarrow> walk_ok u d vis (walk u n d vis)"
proof (induction n arbitrary: d vis)
  case (Suc n)
  show ?case
  proof (cases "dependency d")
    case None
    then show ?thesis by (simp add: walk_ok_def)
  next
    case (Some f)
    show ?thesis
    proof (cases "f \<in> set vis")
      case True
      with Some show ?thesis by (simp add: walk_ok_def)
    next
      case False
      have fF: "f \<in> F" using Suc.prems(1) Some by simp
      have less: "card (F - set vis') < n" if "set (f # vis) \<subseteq> set vis'" for vis'
      proof -
        have "F - set vis' \<subset> F - set vis" using that False fF by auto
        then have "card (F - set vis') < card (F - set vis)"
          using assms(1) by (intro psubset_card_mono) auto
        with Suc.prems(2) show ?thesis by simp
      qed
      have "case walk_subs (walk u n) u d (fname (funs u f)) (subs u f) (f # vis) of
         Deep \<Rightarrow> False
       | Violation _ \<Rightarrow> breaks_rule u d
       | Visited vis' \<Rightarrow>
           set (f # vis) \<subseteq> set vis' \<and> (\<forall>s \<in> set (subs u f). the (dependency s) \<in> set vis' \<and> \<not> mismatch u d s) \<and>
           (\<forall>g \<in> set vis' - set (f # vis). cleared u d (set vis') g)"
      proof (rule walk_subs_ok [OF Some])
        fix s vis' assume "s \<in> set (subs u f)" and sub: "set (f # vis) \<subseteq> set vis'"
        then show "walk_ok u s vis' (walk u n s vis')"
          by (intro Suc.IH) (use closed fF less [OF sub] in auto)
      qed simp_all
      moreover have "cleared u d V f" if "\<forall>s \<in> set (subs u f). the (dependency s) \<in> V \<and> \<not> mismatch u d s" for V
        unfolding cleared_def using that Some by (blast intro: leads_refl)
      ultimately show ?thesis
        using Some False by (auto simp: walk_ok_def split: walk_result.splits)
    qed
  qed
qed simp

text \<open>
  Visited functions are compared without their scope.  When every function is depended on with one
  scope only, a finished walk has seen every dependency and the rule holds for all of them.
\<close>

definition one_scope :: "('v, 'ty) ws_user \<Rightarrow> dep \<Rightarrow> bool" where
  "one_scope u d \<longleftrightarrow>
     (\<forall>e e'. leads_to u d e \<and> leads_to u d e' \<and> dependency e = dependency e' \<longrightarrow>
        get_dep_scope e = get_dep_scope e')"

lemma mismatch_scope:
  "dependency e = dependency e' \<Longrightarrow> get_dep_scope e = get_dep_scope e' \<Longrightarrow> mismatch u e s = mismatch u e' s"
  by (simp add: mismatch_def split: option.split)

lemma visited_closed:
  assumes "walk_ok u d [] (Visited vis)" and "one_scope u d" and "leads_to u d e" and "dependency d \<noteq> None"
  shows "dependency e = Some g \<Longrightarrow> g \<in> set vis"
  using assms(3)
proof (induction arbitrary: g rule: leads_to.induct)
  case leads_refl
  then show ?case using assms(1) by (simp add: walk_ok_def)
next
  case (leads_step e f s)
  then have "f \<in> set vis" by simp
  then have "cleared u d (set vis) f" using assms(1) by (simp add: walk_ok_def)
  with leads_step show ?case by (auto simp: cleared_def)
qed

lemma visited_respects_rule:
  assumes "walk_ok u d [] (Visited vis)" and "one_scope u d" and "dependency d \<noteq> None"
  shows "\<not> breaks_rule u d"
proof
  assume "breaks_rule u d"
  then obtain e f s where e: "leads_to u d e" "dependency e = Some f" "s \<in> set (subs u f)" "mismatch u e s"
    by (auto simp: breaks_rule_def)
  have "f \<in> set vis" by (rule visited_closed [OF assms(1,2) e(1) assms(3) e(2)])
  then obtain e' where e': "leads_to u d e'" "dependency e' = Some f" "\<not> mismatch u e' s"
    using assms(1) e(3) by (auto simp: walk_ok_def cleared_def)
  have "get_dep_scope e = get_dep_scope e'"
    using assms(2) e(1,2) e'(1,2) by (auto simp: one_scope_def)
  then show False using e e' mismatch_scope [of e e' u s] by simp
qed

text \<open>
  C29.  The decoration-time check terminates, also on cyclic dependencies, once the recursion bound
  exceeds the number of functions in play, and it decides the scope rule: it raises only if some
  request-scoped generator reached from the endpoint depends on a function-scoped one, and it
  raises whenever there is one, provided every function is depended on with a single scope.
\<close>

theorem scope_check_exact:
  assumes "finite F" and "endpoint \<in> F" and "card F < n"
    and "\<forall>f \<in> F. \<forall>s \<in> set (subs u f). the (dependency s) \<in> F"
  shows "ws_check_scope_mismatch u n endpoint \<noteq> Deep \<and>
     ((\<exists>name. ws_check_scope_mismatch u n endpoint = Violation name) \<longrightarrow>
        (\<exists>d \<in> set (subs u endpoint). breaks_rule u d)) \<and>
     ((\<forall>d \<in> set (subs u endpoint). one_scope u d) \<longrightarrow>
        (\<exists>d \<in> set (subs u endpoint). breaks_rule u d) \<longrightarrow>
        (\<exists>name. ws_check_scope_mismatch u n endpoint = Violation name))"
proof -
  have ok: "walk_ok u d [] (walk u n d [])" if "d \<in> set (subs u endpoint)" for d
    using walk_correct [of F u d "[]" n] assms subs_dependency that
    by (metis Diff_empty empty_set option.sel)
  have "check_deps u n ds \<noteq> Deep \<and>
     ((\<exists>name. check_deps u n ds = Violation name) \<longrightarrow> (\<exists>d \<in> set ds. breaks_rule u d)) \<and>
     ((\<forall>d \<in> set ds. one_scope u d) \<longrightarrow> (\<exists>d \<in> set ds. breaks_rule u d) \<longrightarrow>
        (\<exists>name. check_deps u n ds = Violation name))"
    if "set ds \<subseteq> set (subs u endpoint)" for ds
    using that
  proof (induction ds)
    case (Cons d ds)
    have d: "walk_ok u d [] (walk u n d [])" and some: "dependency d \<noteq> None"
      using ok [of d] subs_dependency [of d u endpoint] Cons.prems by auto
    show ?case
    proof (cases "walk u n d []")
      case (Visited vis)
      then have "one_scope u d \<Longrightarrow> \<not> breaks_rule u d"
        using visited_respects_rule [OF _ _ some] d by simp
      with Visited Cons show ?thesis by auto
    qed (use d in \<open>auto simp: walk_ok_def\<close>)
  qed simp
  then show ?thesis by (simp add: ws_check_scope_mismatch_def)
qed

text \<open>
  An application whose functions 2 and 4 are generators: function 1 depends on 2 in function scope
  and on 3, which depends on 2 in request scope; 2 depends on 4 in function scope.  The endpoint
  \<open>e\<close> depends on function \<open>first\<close>.
\<close>

definition scoped :: "nat \<Rightarrow> string \<Rightarrow> (int, nat) param" where
  "scoped f sc = demo_param ''p'' (PDep \<lparr>dependency = Some f, use_cache = True, dscope = Some sc\<rparr>)"

definition scope_fn :: "nat \<Rightarrow> nat \<Rightarrow> (int, nat) fn" where
  "scope_fn first k =
     (if k = 0 then \<lparr>fname = ''endpoint'', fsig = Some [scoped first ''request''], fkind = FCoroutine\<rparr>
      else if k = 1 then
        \<lparr>fname = ''one'', fsig = Some [scoped 2 ''function'', scoped 3 ''request''], fkind = FPlain\<rparr>
      else if k = 2 then \<lparr>fname = ''two'', fsig = Some [scoped 4 ''function''], fkind = FGen\<rparr>
      else if k = 3 then \<lparr>fname = ''three'', fsig = Some [scoped 2 ''request''], fkind = FPlain\<rparr>
      else \<lparr>fname = ''four'', fsig = Some [], fkind = FAsyncGen\<rparr>)"

definition scope_user :: "nat \<Rightarrow> (int, nat) ws_user" where
  "scope_user first = demo_ws_user\<lparr>funs := scope_fn first\<rparr>"

lemma scope_user_subs:
  "subs (scope_user first) k =
     (if k = 0 then [\<lparr>dependency = Some first, use_cache = True, dscope = Some ''request''\<rparr>]
      else if k = 1 then [\<lparr>dependency = Some 2, use_cache = True, dscope = Some ''function''\<rparr>,
                          \<lparr>dependency = Some 3, use_cache = True, dscope = Some ''request''\<rparr>]
      else if k = 2 then [\<lparr>dependency = Some 4, use_cache = True, dscope = Some ''function''\<rparr>]
      else if k = 3 then [\<lparr>dependency = Some 2, use_cache = True, dscope = Some ''request''\<rparr>]
      else [])"
  by (simp add: subs_def scope_user_def scope_fn_def scoped_def demo_param_def sub_dependency_def
      extract_depends_def resolved_ann_def map_filter_def)

theorem scope_check_exact_witness:
  "ws_check_scope_mismatch (scope_user 2) 6 0 = Violation ''two'' \<and>
   (\<exists>d \<in> set (subs (scope_user 2) 0). breaks_rule (scope_user 2) d)"
proof -
  have "ws_check_scope_mismatch (scope_user 2) 6 0 = Violation ''two''" by code_simp
  with scope_check_exact [of "{0, 1, 2, 3, 4}" 0 6 "scope_user 2"] show ?thesis
    by (simp add: scope_user_subs)
qed

text \<open>
  With two scopes for one function the check can miss a violation: the walk meets function 2 in
  function scope first, marks it visited, and does not look at it again in request scope.
\<close>

lemma scope_check_ignores_second_scope:
  "ws_check_scope_mismatch (scope_user 1) 9 0 = Visited []"
  "\<exists>d \<in> set (subs (scope_user 1) 0). breaks_rule (scope_user 1) d"
proof -
  show "ws_check_scope_mismatch (scope_user 1) 9 0 = Visited []" by code_simp
  define r :: "nat \<Rightarrow> string \<Rightarrow> dep" where
    "r k sc = \<lparr>dependency = Some k, use_cache = True, dscope = Some sc\<rparr>" for k sc
  let ?u = "scope_user 1"
  have "leads_to ?u (r 1 ''request'') (r 3 ''request'')"
    by (rule leads_step [OF leads_refl, of _ 1]) (simp_all add: r_def scope_user_subs)
  then have "leads_to ?u (r 1 ''request'') (r 2 ''request'')"
    by (rule leads_step [where f = 3]) (simp_all add: r_def scope_user_subs)
  moreover have "r 4 ''function'' \<in> set (subs ?u 2)" by (simp add: r_def scope_user_subs)
  moreover have "mismatch ?u (r 2 ''request'') (r 4 ''function'')"
    by (simp add: r_def mismatch_def get_dep_scope_def is_yield_def scope_user_def scope_fn_def)
  ultimately have "breaks_rule ?u (r 1 ''request'')"
    unfolding breaks_rule_def by (force simp: r_def)
  then show "\<exists>d \<in> set (subs ?u 0). breaks_rule ?u d"
    by (simp add: scope_user_subs r_def)
qed

section \<open>The life of an endpoint class\<close>

lemma next_item_inbox: "length (inbox (snd (next_item s))) \<le> length (inbox s)"
  by (auto simp: next_item_def split: list.split)

lemma chan_recv_inbox: "chan_recv s = (r, t) \<Longrightarrow> length (inbox t) \<le> length (inbox s)"
  using next_item_inbox [of s]
  by (auto simp: chan_recv_def split: if_splits prod.splits res.splits sum.splits)

lemma receive_inbox: "length (inbox (snd (receive s))) \<le> length (inbox s)"
proof -
  obtain r t where 1: "chan_recv s = (r, t)" by fastforce
  obtain q v where 2: "next_item s = (q, v)" by fastforce
  have "inbox (snd (receive s)) \<in> {inbox s, inbox t, inbox v}"
    by (simp add: receive_def 1 2 split: res.split in_msg.split sum.split ws_exn.split py_exn.split prod.split)
  then show ?thesis
    using chan_recv_inbox [OF 1] next_item_inbox [of s] by (auto simp: 2)
qed

lemma asgi_receive_part_inbox: "length (inbox (snd (asgi_receive_part get s))) \<le> length (inbox s)"
  using chan_recv_inbox [of s] by (auto simp: asgi_receive_part_def split: prod.split res.split in_msg.split)

lemma handle_receive_part_inbox: "length (inbox (snd (handle_receive_part get s))) \<le> length (inbox s)"
  using next_item_inbox [of s] by (auto simp: handle_receive_part_def split: prod.split res.split sum.split)

lemma receive_text_inbox: "length (inbox (snd (receive_text env s))) \<le> length (inbox s)"
  and receive_bytes_inbox: "length (inbox (snd (receive_bytes env s))) \<le> length (inbox s)"
  by (simp_all add: receive_text_def receive_bytes_def asgi_receive_part_inbox handle_receive_part_inbox)

lemma receive_json_inbox: "length (inbox (snd (receive_json env mode s))) \<le> length (inbox s)"
  by (simp add: receive_json_def receive_text_inbox receive_bytes_inbox)

lemma apply_op_inbox: "length (inbox (apply_op env op s)) \<le> length (inbox s)"
proof -
  have send: "inbox (snd (chan_send env m s)) = inbox s" for m s
    by (auto simp: chan_send_def split: option.splits)
  have close: "inbox (asgi_send_close env x y s) = inbox s" for x y s
    by (simp add: asgi_send_close_def send)
  have rej: "inbox (reject env x s) = inbox s" for x s
    by (simp add: reject_def Let_def call_handle_def asgi_queue_close_def)
  have cls: "inbox (ws_close env x y s) = inbox s" for x y
    by (simp add: ws_close_def Let_def rej close call_handle_def split: option.splits)
  have acc: "length (inbox (snd (accept env x y s))) \<le> length (inbox s)" for x y
  proof -
    obtain r t where rt: "chan_recv s = (r, t)" by fastforce
    have "inbox (snd (send_accept env m t)) = inbox t" for m
      by (cases rule: chan_send_cases [of env m t]) (auto simp: send_accept_def)
    then show ?thesis
      using chan_recv_inbox [OF rt]
      by (simp add: accept_def rt call_handle_def split: res.split in_msg.split option.split)
  qed
  have awt: "inbox (snd (await_send env r)) = inbox (snd r)" for r
    by (auto simp: await_send_def send split: prod.splits res.splits awaitable.splits)
  have over: "inbox (snd (hand_over env x y s)) = inbox s" for x y
    by (auto simp: hand_over_def call_handle_def split: option.splits)
  show ?thesis
    by (cases op)
      (simp_all add: acc cls rej awt over ws_send_def send_text_def send_bytes_def send_json_def
        handle_method_def call_handle_def asgi_queue_close_def receive_inbox receive_text_inbox
        receive_bytes_inbox receive_json_inbox split: low_msg.split option.split sum.split)
qed

lemma fold_op_inbox: "length (inbox (fold (apply_op env) ops s)) \<le> length (inbox s)"
proof (induction ops arbitrary: s)
  case (Cons op ops)
  from Cons.IH [of "apply_op env op s"] apply_op_inbox [of env op s] show ?case by simp
qed simp

lemma map_res_Ret: "map_res f r = (Ret y, t) \<longleftrightarrow> (\<exists>x. r = (Ret x, t) \<and> y = f x)"
  by (auto simp: map_res_def split: prod.splits res.splits)

lemma receive_consumes: "receive s = (Ret m, t) \<Longrightarrow> length (inbox t) < length (inbox s)"
  by (auto simp: receive_def split: if_splits prod.splits res.splits in_msg.splits sum.splits
      ws_exn.splits py_exn.splits dest!: chan_recv_consumes next_item_consumes)

lemma class_receive_consumes:
  "class_receive env k s = (Ret x, t) \<Longrightarrow> length (inbox t) < length (inbox s)"
  by (auto simp: class_receive_def map_res_Ret split: if_splits dest: receive_consumes
      dest!: text_source.recv_consumes bytes_source.recv_consumes json_source.recv_consumes)

text \<open>So the loop always goes round as written.\<close>

lemma class_loop_unfold:
  "class_loop env k h s =
     (case class_receive env k s of
        (Wait, t) \<Rightarrow> (Suspended, h, t)
      | (Exn e, t) \<Rightarrow> (Threw (WsRaised e), h, t)
      | (Ret (Break code), t) \<Rightarrow> (Broke code, h, t)
      | (Ret (Deliver m), t) \<Rightarrow>
          (case on_receive k h t m of
             (ops, r) \<Rightarrow>
               let t' = fold (apply_op env) ops t
               in case r of
                    Some e \<Rightarrow> (Threw e, h @ [CReceive m], t')
                  | None \<Rightarrow> class_loop env k (h @ [CReceive m]) t'))"
proof -
  have "length (inbox (fold (apply_op env) ops t)) < length (inbox s)"
    if "class_receive env k s = (Ret x, t)" for ops t x
    using class_receive_consumes [OF that] fold_op_inbox [of env ops t] by simp
  then show ?thesis
    by (subst class_loop.simps) (simp add: Let_def split: prod.split res.split turn.split option.split)
qed

lemma class_loop_log:
  "class_loop env k h s = (fin, h', t) \<Longrightarrow> \<exists>ms. h' = h @ map CReceive ms"
proof (induction env k h s arbitrary: fin h' t rule: class_loop.induct)
  case (1 env k h s)
  show ?case
  proof (cases "\<exists>m t1. class_receive env k s = (Ret (Deliver m), t1)")
    case False
    with "1.prems" have "h' = h"
      by (subst (asm) class_loop_unfold) (auto split: prod.splits res.splits turn.splits)
    then show ?thesis by (intro exI [of _ "[]"]) simp
  next
    case True
    then obtain m t1 where recv: "class_receive env k s = (Ret (Deliver m), t1)" by blast
    obtain ops r where on: "on_receive k h t1 m = (ops, r)" by fastforce
    let ?t = "fold (apply_op env) ops t1"
    have less: "length (inbox ?t) < length (inbox s)"
      using class_receive_consumes [OF recv] fold_op_inbox [of env ops t1] by simp
    show ?thesis
    proof (cases r)
      case None
      with "1.prems" recv on have "class_loop env k (h @ [CReceive m]) ?t = (fin, h', t)"
        by (simp add: class_loop_unfold [of env k h s] Let_def)
      then obtain ms where "h' = (h @ [CReceive m]) @ map CReceive ms"
        using "1.IH" [OF recv [symmetric] refl refl on [symmetric] refl None less] by blast
      then show ?thesis by (intro exI [of _ "m # ms"]) simp
    next
      case (Some e)
      with "1.prems" recv on show ?thesis
        by (intro exI [of _ "[m]"]) (simp add: class_loop_unfold [of env k h s] Let_def)
    qed
  qed
qed

text \<open>An endpoint class whose methods neither raise nor receive nor close by themselves.\<close>

definition quiet :: "'v ws_class \<Rightarrow> bool" where
  "quiet k \<longleftrightarrow> (\<forall>h s. on_connect k h s = ([], None)) \<and> (\<forall>h s m. on_receive k h s m = ([], None)) \<and>
     (\<forall>h s c. on_disconnect k h s c = ([], None))"

lemma quiet_loop:
  fixes k :: "'v ws_class"
  assumes "quiet k" and "encoding k = None" and "\<not> has_handle s" and "has_receive s"
    and "app_state s \<noteq> DISCONNECTED" and "\<forall>m \<in> set ms. \<not> is_disconnect m"
    and "inbox s = map Inr ms @ Inr (MDisconnect code reason) # rest"
  shows "class_loop env k h s =
     (Broke (case code of None \<Rightarrow> 1000 | Some c \<Rightarrow> c),
      h @ map (\<lambda>m. case raw_turn m of Deliver x \<Rightarrow> CReceive x | Break _ \<Rightarrow> CConnect) ms,
      s\<lparr>inbox := rest, app_state := DISCONNECTED\<rparr>)"
  using assms(3-)
proof (induction ms arbitrary: h s)
  case Nil
  then have "class_receive env k s = (Ret (Break (case code of None \<Rightarrow> 1000 | Some c \<Rightarrow> c)),
      s\<lparr>inbox := rest, app_state := DISCONNECTED\<rparr>)"
    using assms(2) by (simp add: class_receive_def receive_def chan_recv_def next_item_def map_res_def)
  then show ?case by (simp add: class_loop_unfold [of env k h s])
next
  case (Cons m ms)
  let ?t = "s\<lparr>inbox := map Inr ms @ Inr (MDisconnect code reason) # rest\<rparr>"
  obtain x :: "'v class_msg" where x: "raw_turn m = Deliver x"
    using Cons.prems by (cases m rule: raw_turn.cases) auto
  have "class_receive env k s = (Ret (Deliver x), ?t)"
    using Cons.prems assms(2) x
    by (cases m) (auto simp: class_receive_def receive_def chan_recv_def next_item_def map_res_def)
  moreover have "class_loop env k (h @ [CReceive x]) ?t =
     (Broke (case code of None \<Rightarrow> 1000 | Some c \<Rightarrow> c),
      (h @ [CReceive x]) @ map (\<lambda>m. case raw_turn m of Deliver x \<Rightarrow> CReceive x | Break _ \<Rightarrow> CConnect) ms,
      ?t\<lparr>inbox := rest, app_state := DISCONNECTED\<rparr>)"
    by (rule Cons.IH) (use Cons.prems in auto)
  ultimately show ?case
    using assms(1) by (simp add: class_loop_unfold [of env k h s] quiet_def x)
qed


definition demo_class :: "int ws_class" where
  "demo_class =
     \<lparr>encoding = None, on_connect = (\<lambda>h s. ([], None)), on_receive = (\<lambda>h s m. ([], None)),
      on_disconnect = (\<lambda>h s c. ([], None))\<rparr>"


end
