(* ===== verification/Async_Worker.thy ===== *)
theory Async_Worker
  imports Turbo_Prelude
begin

text \<open>
  The worker loop of \<open>_async_worker.py\<close>: the start-up race in \<open>init\<close>, and the hand-over of
  coroutines from caller threads to the loop in \<open>submit_fast\<close> with its pool of gates, time-outs and
  cancellation.  Threads interleave: every read or write of shared state that another thread could
  observe is a step of its own.  The background-task drain (\<open>background.py\<close>), which submits its
  asynchronous tasks here, is at the end.
\<close>

section \<open>Start-up\<close>

text \<open>
  A caller of \<open>init\<close>: before the unlocked check, waiting for the lock, holding it before the second
  check, waiting for the worker's ready event, before warming the pool, and returned.  Worker
  threads are numbered in the order of spawning; a worker publishes its loop and sets the event.
\<close>

datatype init_pc = IStart | IWant | IHold | IWait | IWarm | IDone

record init_state =
  loop :: "nat option"
  lock :: "nat option"
  ready :: bool
  spawned :: nat
  unpublished :: "nat list"
  loops_started :: nat
  warm :: nat
  pc :: "nat \<Rightarrow> init_pc"

datatype init_step = Check nat | Lock nat | Recheck nat | Ready nat | ReadyTimeout nat | Warm nat | Publish nat

definition init_start :: init_state where
  "init_start =
     \<lparr>loop = None, lock = None, ready = False, spawned = 0, unpublished = [], loops_started = 0,
      warm = 0, pc = (\<lambda>_. IStart)\<rparr>"

fun init_do :: "init_step \<Rightarrow> init_state \<Rightarrow> init_state option" where
  "init_do (Check t) s =
     (if pc s t = IStart
      then Some (s\<lparr>pc := (pc s)(t := (if loop s \<noteq> None then IDone else IWant))\<rparr>) else None)"
| "init_do (Lock t) s =
     (if pc s t = IWant \<and> lock s = None
      then Some (s\<lparr>lock := Some t, pc := (pc s)(t := IHold)\<rparr>) else None)"
| "init_do (Recheck t) s =
     (if pc s t = IHold then
        Some (if loop s \<noteq> None then s\<lparr>lock := None, pc := (pc s)(t := IDone)\<rparr>
              else s\<lparr>ready := False, spawned := Suc (spawned s),
                     unpublished := unpublished s @ [spawned s], pc := (pc s)(t := IWait)\<rparr>)
      else None)"
| "init_do (Ready t) s =
     (if pc s t = IWait \<and> ready s then Some (s\<lparr>pc := (pc s)(t := IWarm)\<rparr>) else None)"
| "init_do (ReadyTimeout t) s =
     (if pc s t = IWait then Some (s\<lparr>pc := (pc s)(t := IWarm)\<rparr>) else None)"
| "init_do (Warm t) s =
     (if pc s t = IWarm
      then Some (s\<lparr>warm := warm s + 64, lock := None, pc := (pc s)(t := IDone)\<rparr>) else None)"
| "init_do (Publish w) s =
     (if w \<in> set (unpublished s)
      then Some (s\<lparr>loops_started := Suc (loops_started s), loop := Some w, ready := True,
                   unpublished := remove1 w (unpublished s)\<rparr>)
      else None)"

text \<open>A step in which the worker comes up within the ten seconds that \<open>init\<close> waits.\<close>

fun prompt :: "init_step \<Rightarrow> bool" where
  "prompt (ReadyTimeout _) = False"
| "prompt _ = True"

definition init_prompt :: "init_state \<Rightarrow> init_step \<Rightarrow> init_state \<Rightarrow> bool" where
  "init_prompt s e t \<longleftrightarrow> prompt e \<and> init_do e s = Some t"

text \<open>
  The invariant: the lock guards the section between \<open>IHold\<close> and \<open>IWarm\<close>, at most one worker is ever
  spawned, and a spawned worker that has not published yet is waited for by the holder of the lock.
\<close>

definition thread_ok :: "init_state \<Rightarrow> nat \<Rightarrow> bool" where
  "thread_ok s t \<longleftrightarrow>
     (case pc s t of
        IStart \<Rightarrow> lock s \<noteq> Some t
      | IWant \<Rightarrow> lock s \<noteq> Some t
      | IHold \<Rightarrow> lock s = Some t \<and> (spawned s = 0 \<or> loop s \<noteq> None)
      | IWait \<Rightarrow> lock s = Some t \<and> spawned s = 1 \<and> warm s = 0
      | IWarm \<Rightarrow> lock s = Some t \<and> loop s \<noteq> None \<and> warm s = 0
      | IDone \<Rightarrow> lock s \<noteq> Some t \<and> loop s \<noteq> None)"

definition shared_ok :: "init_state \<Rightarrow> bool" where
  "shared_ok s \<longleftrightarrow>
     warm s \<le> 64 \<and> (ready s \<longrightarrow> loop s \<noteq> None) \<and>
     (spawned s = 0 \<and> unpublished s = [] \<and> loop s = None \<and> loops_started s = 0 \<and> warm s = 0 \<or>
      spawned s = 1 \<and> unpublished s = [0] \<and> loop s = None \<and> loops_started s = 0 \<and> lock s \<noteq> None \<or>
      spawned s = 1 \<and> unpublished s = [] \<and> loop s = Some 0 \<and> loops_started s = 1 \<and> ready s)"

definition init_inv :: "init_state \<Rightarrow> bool" where
  "init_inv s \<longleftrightarrow> shared_ok s \<and> (\<forall>t. thread_ok s t)"

lemma init_inv_start: "init_inv init_start"
  by (simp add: init_inv_def init_start_def shared_ok_def thread_ok_def)

lemma init_inv_step [step_inv]:
  assumes "init_inv s" and "init_prompt s e t"
  shows "init_inv t"
proof -
  have sh: "shared_ok s" and th: "thread_ok s y" for y
    using assms(1) by (simp_all add: init_inv_def)
  have do: "init_do e s = Some t" and "prompt e"
    using assms(2) by (simp_all add: init_prompt_def)
  have "shared_ok t \<and> thread_ok t y" for y
  proof (cases e)
    case (Check x)
    then have t: "t = s\<lparr>pc := (pc s)(x := (if loop s \<noteq> None then IDone else IWant))\<rparr>" and x: "pc s x = IStart"
      using do by (auto split: if_splits)
    show ?thesis
      using sh th [of x] th [of y] x
      by (cases "y = x"; cases "pc s y") (auto simp: t shared_ok_def thread_ok_def)
  next
    case (Lock x)
    then have t: "t = s\<lparr>lock := Some x, pc := (pc s)(x := IHold)\<rparr>" and x: "pc s x = IWant" "lock s = None"
      using do by (auto split: if_splits)
    show ?thesis
      using sh th [of y] x
      by (cases "y = x"; cases "pc s y") (auto simp: t shared_ok_def thread_ok_def)
  next
    case (Recheck x)
    then have x: "pc s x = IHold" using do by (simp split: if_splits)
    show ?thesis
    proof (cases "loop s")
      case None
      then have t: "t = s\<lparr>ready := False, spawned := Suc (spawned s),
          unpublished := unpublished s @ [spawned s], pc := (pc s)(x := IWait)\<rparr>"
        using do Recheck x by simp
      show ?thesis
        using sh th [of x] th [of y] x None
        by (cases "y = x"; cases "pc s y") (auto simp: t shared_ok_def thread_ok_def)
    next
      case (Some w)
      then have t: "t = s\<lparr>lock := None, pc := (pc s)(x := IDone)\<rparr>" using do Recheck x by simp
      show ?thesis
        using sh th [of x] th [of y] x Some
        by (cases "y = x"; cases "pc s y") (auto simp: t shared_ok_def thread_ok_def)
    qed
  next
    case (Ready x)
    then have t: "t = s\<lparr>pc := (pc s)(x := IWarm)\<rparr>" and x: "pc s x = IWait" "ready s"
      using do by (auto split: if_splits)
    show ?thesis
      using sh th [of x] th [of y] x
      by (cases "y = x"; cases "pc s y") (auto simp: t shared_ok_def thread_ok_def)
  next
    case (Warm x)
    then have t: "t = s\<lparr>warm := warm s + 64, lock := None, pc := (pc s)(x := IDone)\<rparr>" and x: "pc s x = IWarm"
      using do by (auto split: if_splits)
    show ?thesis
      using sh th [of x] th [of y] x
      by (cases "y = x"; cases "pc s y") (auto simp: t shared_ok_def thread_ok_def)
  next
    case (Publish x)
    then have t: "t = s\<lparr>loops_started := Suc (loops_started s), loop := Some x, ready := True,
        unpublished := remove1 x (unpublished s)\<rparr>" and x: "x \<in> set (unpublished s)"
      using do by (auto split: if_splits)
    show ?thesis
      using sh th [of y] x
      by (cases "pc s y") (auto simp: t shared_ok_def thread_ok_def)
  qed (use \<open>prompt e\<close> in simp)
  then show ?thesis by (simp add: init_inv_def)
qed

interpretation worker_init: transition_system "\<lambda>s. s = init_start" init_prompt init_inv
  by unfold_locales (auto intro: init_inv_start init_inv_step)

lemma init_progress:
  assumes "init_inv s" and "pc s t \<noteq> IDone"
  shows "\<exists>e. prompt e \<and> init_do e s \<noteq> None"
proof -
  have sh: "shared_ok s" and th: "thread_ok s y" for y
    using assms(1) by (simp_all add: init_inv_def)
  have holder: "\<exists>e. prompt e \<and> init_do e s \<noteq> None" if "lock s = Some y" for y
  proof (cases "pc s y")
    case IHold
    then show ?thesis by (intro exI [of _ "Recheck y"]) simp
  next
    case IWait
    then show ?thesis
      using sh th [of y]
      by (cases "ready s"; intro exI [of _ "if ready s then Ready y else Publish 0"])
        (auto simp: shared_ok_def thread_ok_def)
  next
    case IWarm
    then show ?thesis by (intro exI [of _ "Warm y"]) simp
  qed (use th [of y] that in \<open>simp_all add: thread_ok_def\<close>)
  show ?thesis
  proof (cases "pc s t")
    case IStart
    then show ?thesis by (intro exI [of _ "Check t"]) simp
  next
    case IWant
    then show ?thesis
      using holder by (cases "lock s") (auto intro: exI [of _ "Lock t"])
  qed (use assms(2) th [of t] holder [of t] in \<open>simp_all add: thread_ok_def\<close>)
qed

text \<open>
  C31.  However many threads race the first submissions, as long as the worker comes up within the
  ten seconds that \<open>init\<close> waits, exactly one worker loop is started, the pool is warmed at most
  once, every caller that returns from \<open>init\<close> finds that one loop published, and no caller is stuck:
  while one has not returned, some thread can take a step.
\<close>

theorem one_worker_loop:
  assumes "run init_prompt init_start es s"
  shows "loops_started s \<le> 1 \<and> spawned s \<le> 1 \<and> warm s \<le> 64 \<and>
     (pc s t = IDone \<longrightarrow> loop s = Some 0) \<and>
     (pc s t \<noteq> IDone \<longrightarrow> (\<exists>e s'. init_prompt s e s'))"
proof -
  have inv: "init_inv s" using worker_init.reachable_inv [OF _ assms] by simp
  then have "shared_ok s" and "thread_ok s t" by (simp_all add: init_inv_def)
  moreover have "\<exists>e s'. init_prompt s e s'" if "pc s t \<noteq> IDone"
    using init_progress [OF inv that] by (auto simp: init_prompt_def)
  ultimately show ?thesis by (auto simp: shared_ok_def thread_ok_def)
qed

lemma run_init:
  "list_all prompt es \<Longrightarrow> foldl (\<lambda>s e. Option.bind s (init_do e)) (Some a) es = Some b \<Longrightarrow> run init_prompt a es b"
proof (induction es arbitrary: a)
  case (Cons e es)
  have none: "foldl (\<lambda>s e. Option.bind s (init_do e)) None es = None" for es
    by (induction es) auto
  from Cons none obtain c where "init_do e a = Some c" and "run init_prompt c es b"
    by (cases "init_do e a") auto
  moreover from this Cons.prems have "init_prompt a e c" by (simp add: init_prompt_def)
  ultimately show ?case by (blast intro: run_Cons)
qed (auto intro: run_Nil)

theorem one_worker_loop_witness:
  "\<exists>s. run init_prompt init_start
       [Check 1, Check 2, Lock 2, Recheck 2, Publish 0, Ready 2, Warm 2, Lock 1, Recheck 1] s \<and>
     pc s 1 = IDone \<and> pc s 2 = IDone \<and> loop s = Some 0 \<and> loops_started s \<le> 1"
proof -
  obtain s where s: "foldl (\<lambda>s e. Option.bind s (init_do e)) (Some init_start)
      [Check 1, Check 2, Lock 2, Recheck 2, Publish 0, Ready 2, Warm 2, Lock 1, Recheck 1] = Some s"
    and fin: "pc s 1 = IDone" "pc s 2 = IDone"
    by (simp add: init_start_def)
  have "run init_prompt init_start
       [Check 1, Check 2, Lock 2, Recheck 2, Publish 0, Ready 2, Warm 2, Lock 1, Recheck 1] s"
    by (rule run_init [OF _ s]) simp
  with one_worker_loop [OF this, of 1] fin show ?thesis by (intro exI [of _ s]) simp
qed

text \<open>
  The docstring promises exactly one loop.  When the ready-wait times out, the caller returns
  without a loop, the lock is free again, and the next caller spawns a second worker.
\<close>

lemma slow_start_spawns_second_worker:
  "\<exists>s. foldl (\<lambda>s e. Option.bind s (init_do e)) (Some init_start)
     [Check 1, Lock 1, Recheck 1, ReadyTimeout 1, Warm 1, Check 2, Lock 2, Recheck 2, Publish 0, Publish 1] = Some s \<and>
   loops_started s = 2 \<and> warm s = 64"
  by (simp add: init_start_def)

section \<open>Submitting coroutines\<close>

text \<open>
  A submission: its gate, the box (\<open>result\<close> for the slots 0 and 1, \<open>handle\<close> for the task in slot 2,
  \<open>flag\<close> for slot 3), the state of its coroutine on the loop, whether the task was asked to cancel,
  and where the caller is: waiting at the gate, past the time-out before and after it scheduled the
  cancellation, or back with a result.  \<open>CReturned None\<close> would be a return with an empty box.
\<close>

datatype task_state = NotStarted | Running | Finished | Closed

datatype 'v caller_pc = CWait | CFlagged | CTimedOut | CReturned "'v option" | CRaised py_exn

record 'v sub =
  gate :: nat
  result :: "(py_exn + 'v) option"
  handle :: bool
  flag :: bool
  task :: task_state
  cancelled :: bool
  caller :: "'v caller_pc"

datatype callback = Kickoff nat | CancelInBox nat

text \<open>
  The shared state: submissions, the gate pool, which gates are set, the next fresh gate, the
  loop's callback queue, and the submission whose \<open>_kickoff\<close> the loop is in the middle of.
\<close>

record 'v worker =
  subs :: "nat \<rightharpoonup> 'v sub"
  pool :: "nat list"
  gate_set :: "nat \<Rightarrow> bool"
  fresh :: nat
  queue :: "callback list"
  in_kickoff :: "nat option"

datatype 'v wstep =
    Submit nat
  | Kick
  | KickTail
  | Complete nat "py_exn + 'v"
  | Cancel
  | FlagTimeout nat
  | ScheduleCancel nat
  | Wake nat

definition worker_start :: "'v worker" where
  "worker_start =
     \<lparr>subs = Map.empty, pool = [0..<64], gate_set = (\<lambda>_. False), fresh = 64, queue = [], in_kickoff = None\<rparr>"

definition acquire_event :: "'v worker \<Rightarrow> nat \<times> 'v worker" where
  "acquire_event s =
     (if pool s = [] then (fresh s, s\<lparr>fresh := Suc (fresh s), gate_set := (gate_set s)(fresh s := False)\<rparr>)
      else (last (pool s), s\<lparr>pool := butlast (pool s), gate_set := (gate_set s)(last (pool s) := False)\<rparr>))"

definition release_event :: "nat \<Rightarrow> 'v worker \<Rightarrow> 'v worker" where
  "release_event g s = (if length (pool s) < 128 then s\<lparr>pool := pool s @ [g]\<rparr> else s)"

definition new_sub :: "nat \<Rightarrow> 'v sub" where
  "new_sub g =
     \<lparr>gate = g, result = None, handle = False, flag = False, task = NotStarted, cancelled = False, caller = CWait\<rparr>"

definition put :: "nat \<Rightarrow> 'v sub \<Rightarrow> 'v worker \<Rightarrow> 'v worker" where
  "put k b s = s\<lparr>subs := (subs s)(k \<mapsto> b)\<rparr>"

text \<open>The caller's side: acquire a gate, fill a box, schedule \<open>_kickoff\<close>; then wait.\<close>

definition do_submit :: "nat \<Rightarrow> 'v worker \<Rightarrow> 'v worker option" where
  "do_submit k s =
     (if subs s k = None then
        (case acquire_event s of
           (g, s) \<Rightarrow> Some ((put k (new_sub g) s)\<lparr>queue := queue s @ [Kickoff k]\<rparr>))
      else None)"

text \<open>
  The loop's side.  \<open>_kickoff\<close> closes the coroutine of a caller that has given up; otherwise it
  starts the runner, whose first part may run at once, and then stores the task and looks at the
  flag again.
\<close>

definition do_kick :: "'v worker \<Rightarrow> 'v worker option" where
  "do_kick s =
     (case (in_kickoff s, queue s) of
        (None, Kickoff k # q) \<Rightarrow>
          (case subs s k of
             None \<Rightarrow> None
           | Some b \<Rightarrow>
               if flag b
               then Some ((put k (b\<lparr>task := Closed\<rparr>) s)\<lparr>queue := q, gate_set := (gate_set s)(gate b := True)\<rparr>)
               else Some ((put k (b\<lparr>task := Running\<rparr>) s)\<lparr>queue := q, in_kickoff := Some k\<rparr>))
      | _ \<Rightarrow> None)"

definition do_kick_tail :: "'v worker \<Rightarrow> 'v worker option" where
  "do_kick_tail s =
     (case in_kickoff s of
        None \<Rightarrow> None
      | Some k \<Rightarrow>
          map_option (\<lambda>b. (put k (b\<lparr>handle := True,
              cancelled := (cancelled b \<or> flag b \<and> task b = Running)\<rparr>) s)\<lparr>in_kickoff := None\<rparr>) (subs s k))"

text \<open>\<open>_runner\<close> finishes: the box is filled, then the gate is set.\<close>

definition do_complete :: "nat \<Rightarrow> py_exn + 'v \<Rightarrow> 'v worker \<Rightarrow> 'v worker option" where
  "do_complete k r s =
     (case subs s k of
        None \<Rightarrow> None
      | Some b \<Rightarrow>
          if task b = Running \<and> (in_kickoff s = None \<or> in_kickoff s = Some k)
          then Some ((put k (b\<lparr>task := Finished, result := Some r\<rparr>) s)\<lparr>gate_set := (gate_set s)(gate b := True)\<rparr>)
          else None)"

definition do_cancel :: "'v worker \<Rightarrow> 'v worker option" where
  "do_cancel s =
     (case (in_kickoff s, queue s) of
        (None, CancelInBox k # q) \<Rightarrow>
          map_option (\<lambda>b. (put k (if handle b \<and> task b = Running then b\<lparr>cancelled := True\<rparr> else b) s)\<lparr>queue := q\<rparr>)
            (subs s k)
      | _ \<Rightarrow> None)"

text \<open>The wait ends with the time-out only while the gate is not set.\<close>

definition do_flag_timeout :: "nat \<Rightarrow> 'v worker \<Rightarrow> 'v worker option" where
  "do_flag_timeout k s =
     (case subs s k of
        None \<Rightarrow> None
      | Some b \<Rightarrow>
          if caller b = CWait \<and> \<not> gate_set s (gate b)
          then Some (put k (b\<lparr>flag := True, caller := CFlagged\<rparr>) s) else None)"

definition do_schedule_cancel :: "nat \<Rightarrow> 'v worker \<Rightarrow> 'v worker option" where
  "do_schedule_cancel k s =
     (case subs s k of
        None \<Rightarrow> None
      | Some b \<Rightarrow>
          if caller b = CFlagged
          then Some ((put k (b\<lparr>caller := CTimedOut\<rparr>) s)\<lparr>queue := queue s @ [CancelInBox k]\<rparr>) else None)"

definition do_wake :: "nat \<Rightarrow> 'v worker \<Rightarrow> 'v worker option" where
  "do_wake k s =
     (case subs s k of
        None \<Rightarrow> None
      | Some b \<Rightarrow>
          if caller b = CWait \<and> gate_set s (gate b)
          then (case result b of
                  Some (Inl e) \<Rightarrow> Some (put k (b\<lparr>caller := CRaised e\<rparr>) s)
                | Some (Inr v) \<Rightarrow> Some (release_event (gate b) (put k (b\<lparr>caller := CReturned (Some v)\<rparr>) s))
                | None \<Rightarrow> Some (release_event (gate b) (put k (b\<lparr>caller := CReturned None\<rparr>) s)))
          else None)"

fun worker_do :: "'v wstep \<Rightarrow> 'v worker \<Rightarrow> 'v worker option" where
  "worker_do (Submit k) s = do_submit k s"
| "worker_do Kick s = do_kick s"
| "worker_do KickTail s = do_kick_tail s"
| "worker_do (Complete k r) s = do_complete k r s"
| "worker_do Cancel s = do_cancel s"
| "worker_do (FlagTimeout k) s = do_flag_timeout k s"
| "worker_do (ScheduleCancel k) s = do_schedule_cancel k s"
| "worker_do (Wake k) s = do_wake k s"

definition worker_step :: "'v worker \<Rightarrow> 'v wstep \<Rightarrow> 'v worker \<Rightarrow> bool" where
  "worker_step s e t \<longleftrightarrow> worker_do e s = Some t"

subsection \<open>The invariant\<close>

text \<open>A submission is live while its caller waits or its coroutine can still set the gate.\<close>

definition live :: "'v sub \<Rightarrow> bool" where
  "live b \<longleftrightarrow> caller b = CWait \<or> task b = NotStarted \<or> task b = Running"

fun ordered :: "callback list \<Rightarrow> bool" where
  "ordered [] = True"
| "ordered (c # q) =
     ((case c of Kickoff k \<Rightarrow> Kickoff k \<notin> set q | CancelInBox k \<Rightarrow> Kickoff k \<notin> set q) \<and> ordered q)"

lemma ordered_snoc_kick:
  "ordered q \<Longrightarrow> Kickoff k \<notin> set q \<Longrightarrow> CancelInBox k \<notin> set q \<Longrightarrow> ordered (q @ [Kickoff k])"
  by (induction q) (auto split: callback.splits)

lemma ordered_snoc_cancel: "ordered q \<Longrightarrow> ordered (q @ [CancelInBox k])"
  by (induction q) (auto split: callback.splits)

text \<open>What holds of one submission, given the gate flags, the pool, the queue and the loop's position.\<close>

definition sub_ok :: "(nat \<Rightarrow> bool) \<Rightarrow> nat list \<Rightarrow> nat \<Rightarrow> callback list \<Rightarrow> nat option \<Rightarrow> nat \<Rightarrow> 'v sub \<Rightarrow> bool" where
  "sub_ok gs pl fr q kk k b \<longleftrightarrow>
     gate b < fr \<and>
     (live b \<longrightarrow> gate b \<notin> set pl) \<and>
     (flag b \<longleftrightarrow> caller b = CFlagged \<or> caller b = CTimedOut) \<and>
     (result b \<noteq> None \<longleftrightarrow> task b = Finished) \<and>
     (task b = NotStarted \<longleftrightarrow> Kickoff k \<in> set q) \<and>
     (caller b = CWait \<and> gs (gate b) \<longrightarrow> task b = Finished) \<and>
     (task b = Closed \<longrightarrow> flag b) \<and>
     (\<forall>x. caller b = CReturned x \<longrightarrow> (\<exists>v. x = Some v \<and> result b = Some (Inr v))) \<and>
     (\<forall>e. caller b = CRaised e \<longrightarrow> result b = Some (Inl e)) \<and>
     (kk = Some k \<longrightarrow> task b = Running \<or> task b = Finished) \<and>
     (task b = Running \<and> kk \<noteq> Some k \<longrightarrow> handle b) \<and>
     (caller b = CTimedOut \<longrightarrow> CancelInBox k \<in> set q \<or> task b = Closed \<or> task b = Finished \<or> cancelled b) \<and>
     (CancelInBox k \<in> set q \<longrightarrow> caller b = CTimedOut)"

lemma sub_ok_gate: "sub_ok gs pl fr q kk k b \<Longrightarrow> gate b < fr"
  and sub_ok_live: "sub_ok gs pl fr q kk k b \<Longrightarrow> live b \<Longrightarrow> gate b \<notin> set pl"
  by (simp_all add: sub_ok_def)

lemma sub_ok_mono:
  assumes "sub_ok gs pl fr q kk k b"
    and "caller b = CWait \<Longrightarrow> gs' (gate b) \<Longrightarrow> gs (gate b)" and "live b \<Longrightarrow> gate b \<notin> set pl'" and "fr \<le> fr'"
    and "Kickoff k \<in> set q' \<longleftrightarrow> Kickoff k \<in> set q" and "CancelInBox k \<in> set q' \<longleftrightarrow> CancelInBox k \<in> set q"
  shows "sub_ok gs' pl' fr' q' kk k b"
proof -
  have "gate b < fr'" and "live b \<longrightarrow> gate b \<notin> set pl'"
    and "caller b = CWait \<and> gs' (gate b) \<longrightarrow> task b = Finished"
    using assms(1-4) by (simp_all add: sub_ok_def)
  with assms(1) show ?thesis
    unfolding sub_ok_def assms(5,6) by (elim conjE) (intro conjI; assumption)
qed

definition worker_inv :: "'v worker \<Rightarrow> bool" where
  "worker_inv s \<longleftrightarrow>
     distinct (pool s) \<and> (\<forall>g \<in> set (pool s). g < fresh s) \<and> length (pool s) \<le> 128 \<and> ordered (queue s) \<and>
     (\<forall>k b. subs s k = Some b \<longrightarrow> sub_ok (gate_set s) (pool s) (fresh s) (queue s) (in_kickoff s) k b) \<and>
     (\<forall>k b k' b'. subs s k = Some b \<and> subs s k' = Some b' \<and> k \<noteq> k' \<and> live b \<and> live b' \<longrightarrow> gate b \<noteq> gate b') \<and>
     (\<forall>k. Kickoff k \<in> set (queue s) \<or> CancelInBox k \<in> set (queue s) \<or> in_kickoff s = Some k \<longrightarrow> subs s k \<noteq> None)"

lemma worker_invI:
  assumes "distinct (pool s)" and "\<And>g. g \<in> set (pool s) \<Longrightarrow> g < fresh s" and "length (pool s) \<le> 128"
    and "ordered (queue s)"
    and "\<And>k b. subs s k = Some b \<Longrightarrow> sub_ok (gate_set s) (pool s) (fresh s) (queue s) (in_kickoff s) k b"
    and "\<And>k b k' b'. subs s k = Some b \<Longrightarrow> subs s k' = Some b' \<Longrightarrow> k \<noteq> k' \<Longrightarrow> live b \<Longrightarrow> live b' \<Longrightarrow> gate b \<noteq> gate b'"
    and "\<And>k. Kickoff k \<in> set (queue s) \<or> CancelInBox k \<in> set (queue s) \<or> in_kickoff s = Some k \<Longrightarrow> subs s k \<noteq> None"
  shows "worker_inv s"
  using assms unfolding worker_inv_def by blast

lemma worker_invD:
  assumes "worker_inv s"
  shows "distinct (pool s)" and "\<And>g. g \<in> set (pool s) \<Longrightarrow> g < fresh s" and "length (pool s) \<le> 128"
    and "ordered (queue s)"
    and "\<And>k b. subs s k = Some b \<Longrightarrow> sub_ok (gate_set s) (pool s) (fresh s) (queue s) (in_kickoff s) k b"
    and "\<And>k b k' b'. subs s k = Some b \<Longrightarrow> subs s k' = Some b' \<Longrightarrow> k \<noteq> k' \<Longrightarrow> live b \<Longrightarrow> live b' \<Longrightarrow> gate b \<noteq> gate b'"
    and "\<And>k. Kickoff k \<in> set (queue s) \<or> CancelInBox k \<in> set (queue s) \<or> in_kickoff s = Some k \<Longrightarrow> subs s k \<noteq> None"
  using assms unfolding worker_inv_def by blast+

lemma worker_inv_start: "worker_inv worker_start"
  by (auto simp: worker_inv_def worker_start_def)

text \<open>
  Most steps change one submission only, do not touch the pool and leave its gate alone; what they
  have to show is the condition of that submission.
\<close>

lemma worker_inv_local:
  assumes inv: "worker_inv s" and b: "subs s k = Some b"
    and t: "subs t = (subs s)(k \<mapsto> b')" "pool t = pool s" "fresh t = fresh s"
    and gate: "gate b' = gate b" and lv: "live b' \<Longrightarrow> live b"
    and gs: "\<And>g. g \<noteq> gate b \<or> \<not> live b \<Longrightarrow> gate_set t g = gate_set s g"
    and q: "ordered (queue t)"
    and others: "\<And>k'. k' \<noteq> k \<Longrightarrow> (Kickoff k' \<in> set (queue t) \<longleftrightarrow> Kickoff k' \<in> set (queue s)) \<and>
        (CancelInBox k' \<in> set (queue t) \<longleftrightarrow> CancelInBox k' \<in> set (queue s)) \<and>
        (in_kickoff t = Some k' \<longleftrightarrow> in_kickoff s = Some k')"
    and ok: "sub_ok (gate_set t) (pool s) (fresh s) (queue t) (in_kickoff t) k b'"
  shows "worker_inv t"
proof (rule worker_invI)
  note D = worker_invD [OF inv]
  show "distinct (pool t)" and "\<And>g. g \<in> set (pool t) \<Longrightarrow> g < fresh t" and "length (pool t) \<le> 128"
    and "ordered (queue t)"
    using D q t by auto
  show "sub_ok (gate_set t) (pool t) (fresh t) (queue t) (in_kickoff t) k' c" if "subs t k' = Some c" for k' c
  proof (cases "k' = k")
    case True
    with that ok t show ?thesis by simp
  next
    case False
    then have c: "subs s k' = Some c" using that t by simp
    have g: "gate_set t (gate c) = gate_set s (gate c)" if "caller c = CWait"
      using gs [of "gate c"] D(6) [OF c b False] that by (auto simp: live_def)
    note o = others [OF False, THEN conjunct1] others [OF False, THEN conjunct2, THEN conjunct1]
      others [OF False, THEN conjunct2, THEN conjunct2]
    show ?thesis
      using D(5) [OF c] by (simp add: sub_ok_def t o g cong: conj_cong)
  qed
  show "gate x \<noteq> gate y" if prems: "subs t k1 = Some x" "subs t k2 = Some y" "k1 \<noteq> k2" "live x" "live y" for k1 k2 x y
  proof -
    obtain x' where x': "subs s k1 = Some x'" "gate x' = gate x" "live x'"
      using prems b gate lv t by (cases "k1 = k") auto
    obtain y' where y': "subs s k2 = Some y'" "gate y' = gate y" "live y'"
      using prems b gate lv t by (cases "k2 = k") auto
    from D(6) [OF x'(1) y'(1) prems(3) x'(3) y'(3)] x' y' show ?thesis by simp
  qed
  show "subs t k' \<noteq> None"
    if "Kickoff k' \<in> set (queue t) \<or> CancelInBox k' \<in> set (queue t) \<or> in_kickoff t = Some k'" for k'
    using that D(7) [of k'] others [of k'] t by (cases "k' = k") auto
qed

lemma kick_inv:
  assumes inv: "worker_inv s" and "do_kick s = Some t"
  shows "worker_inv t"
proof -
  note D = worker_invD [OF inv]
  obtain k q b where i: "in_kickoff s = None" and q: "queue s = Kickoff k # q" and b: "subs s k = Some b"
    and t: "t = (if flag b
       then (put k (b\<lparr>task := Closed\<rparr>) s)\<lparr>queue := q, gate_set := (gate_set s)(gate b := True)\<rparr>
       else (put k (b\<lparr>task := Running\<rparr>) s)\<lparr>queue := q, in_kickoff := Some k\<rparr>)"
    using assms(2) by (auto simp: do_kick_def split: option.splits list.splits callback.splits if_splits)
  have bok: "sub_ok (gate_set s) (pool s) (fresh s) (queue s) None k b"
    using D(5) [OF b] i by simp
  have nk: "Kickoff k \<notin> set q" and oq: "ordered q" using D(4) q by simp_all
  have ns: "task b = NotStarted" using bok q by (simp add: sub_ok_def)
  show ?thesis
  proof (cases "flag b")
    case True
    then have t': "t = (put k (b\<lparr>task := Closed\<rparr>) s)\<lparr>queue := q, gate_set := (gate_set s)(gate b := True)\<rparr>"
      using t by simp
    show ?thesis
    proof (rule worker_inv_local [OF inv b, of t "b\<lparr>task := Closed\<rparr>"])
      show "sub_ok (gate_set t) (pool s) (fresh s) (queue t) (in_kickoff t) k (b\<lparr>task := Closed\<rparr>)"
        using bok True q nk i ns by (auto simp: sub_ok_def t' put_def live_def)
    qed (use oq q i ns True bok in \<open>auto simp: t' put_def live_def sub_ok_def\<close>)
  next
    case False
    then have t': "t = (put k (b\<lparr>task := Running\<rparr>) s)\<lparr>queue := q, in_kickoff := Some k\<rparr>"
      using t by simp
    show ?thesis
    proof (rule worker_inv_local [OF inv b, of t "b\<lparr>task := Running\<rparr>"])
      show "sub_ok (gate_set t) (pool s) (fresh s) (queue t) (in_kickoff t) k (b\<lparr>task := Running\<rparr>)"
        using bok False q nk i ns by (auto simp: sub_ok_def t' put_def live_def)
    qed (use oq q i ns in \<open>auto simp: t' put_def live_def\<close>)
  qed
qed

lemma kick_tail_inv:
  assumes inv: "worker_inv s" and "do_kick_tail s = Some t"
  shows "worker_inv t"
proof -
  note D = worker_invD [OF inv]
  obtain k b where i: "in_kickoff s = Some k" and b: "subs s k = Some b"
    and t: "t = (put k (b\<lparr>handle := True, cancelled := (cancelled b \<or> flag b \<and> task b = Running)\<rparr>) s)
      \<lparr>in_kickoff := None\<rparr>"
    using assms(2) by (auto simp: do_kick_tail_def split: option.splits)
  let ?b = "b\<lparr>handle := True, cancelled := (cancelled b \<or> flag b \<and> task b = Running)\<rparr>"
  have bok: "sub_ok (gate_set s) (pool s) (fresh s) (queue s) (Some k) k b"
    using D(5) [OF b] i by simp
  show ?thesis
  proof (rule worker_inv_local [OF inv b, of t ?b])
    show "sub_ok (gate_set t) (pool s) (fresh s) (queue t) (in_kickoff t) k ?b"
      using bok by (auto simp: sub_ok_def t put_def live_def)
  qed (use D(4) i in \<open>auto simp: t put_def live_def\<close>)
qed

lemma complete_inv:
  assumes inv: "worker_inv s" and "do_complete k r s = Some t"
  shows "worker_inv t"
proof -
  note D = worker_invD [OF inv]
  obtain b where b: "subs s k = Some b" and run: "task b = Running"
    and t: "t = (put k (b\<lparr>task := Finished, result := Some r\<rparr>) s)\<lparr>gate_set := (gate_set s)(gate b := True)\<rparr>"
    using assms(2) by (auto simp: do_complete_def split: option.splits if_splits)
  have bok: "sub_ok (gate_set s) (pool s) (fresh s) (queue s) (in_kickoff s) k b" by (rule D(5) [OF b])
  show ?thesis
  proof (rule worker_inv_local [OF inv b, of t "b\<lparr>task := Finished, result := Some r\<rparr>"])
    show "sub_ok (gate_set t) (pool s) (fresh s) (queue t) (in_kickoff t) k (b\<lparr>task := Finished, result := Some r\<rparr>)"
      using bok run by (auto simp: sub_ok_def t put_def live_def)
  qed (use D(4) run in \<open>auto simp: t put_def live_def\<close>)
qed

lemma cancel_in_box_inv:
  assumes inv: "worker_inv s" and "do_cancel s = Some t"
  shows "worker_inv t"
proof -
  note D = worker_invD [OF inv]
  obtain k q b where i: "in_kickoff s = None" and q: "queue s = CancelInBox k # q" and b: "subs s k = Some b"
    and t: "t = (put k (if handle b \<and> task b = Running then b\<lparr>cancelled := True\<rparr> else b) s)\<lparr>queue := q\<rparr>"
    using assms(2) by (auto simp: do_cancel_def split: option.splits list.splits callback.splits)
  let ?b = "if handle b \<and> task b = Running then b\<lparr>cancelled := True\<rparr> else b"
  have bok: "sub_ok (gate_set s) (pool s) (fresh s) (queue s) None k b"
    using D(5) [OF b] i by simp
  have nk: "Kickoff k \<notin> set q" and oq: "ordered q" using D(4) q by simp_all
  have st: "task b \<noteq> NotStarted" and h: "task b = Running \<longrightarrow> handle b"
    using bok nk q by (auto simp: sub_ok_def)
  show ?thesis
  proof (rule worker_inv_local [OF inv b, of t ?b])
    show "sub_ok (gate_set t) (pool s) (fresh s) (queue t) (in_kickoff t) k ?b"
      using bok nk q i st h by (cases "task b") (auto simp: sub_ok_def t put_def live_def)
  qed (use oq q i in \<open>auto simp: t put_def live_def\<close>)
qed

lemma flag_timeout_inv:
  assumes inv: "worker_inv s" and "do_flag_timeout k s = Some t"
  shows "worker_inv t"
proof -
  note D = worker_invD [OF inv]
  obtain b where b: "subs s k = Some b" and w: "caller b = CWait" "\<not> gate_set s (gate b)"
    and t: "t = put k (b\<lparr>flag := True, caller := CFlagged\<rparr>) s"
    using assms(2) by (auto simp: do_flag_timeout_def split: option.splits if_splits)
  have bok: "sub_ok (gate_set s) (pool s) (fresh s) (queue s) (in_kickoff s) k b" by (rule D(5) [OF b])
  show ?thesis
  proof (rule worker_inv_local [OF inv b, of t "b\<lparr>flag := True, caller := CFlagged\<rparr>"])
    show "sub_ok (gate_set t) (pool s) (fresh s) (queue t) (in_kickoff t) k (b\<lparr>flag := True, caller := CFlagged\<rparr>)"
      using bok w by (auto simp: sub_ok_def t put_def live_def)
  qed (use D(4) w in \<open>auto simp: t put_def live_def\<close>)
qed

lemma schedule_cancel_inv:
  assumes inv: "worker_inv s" and "do_schedule_cancel k s = Some t"
  shows "worker_inv t"
proof -
  note D = worker_invD [OF inv]
  obtain b where b: "subs s k = Some b" and w: "caller b = CFlagged"
    and t: "t = (put k (b\<lparr>caller := CTimedOut\<rparr>) s)\<lparr>queue := queue s @ [CancelInBox k]\<rparr>"
    using assms(2) by (auto simp: do_schedule_cancel_def split: option.splits if_splits)
  have bok: "sub_ok (gate_set s) (pool s) (fresh s) (queue s) (in_kickoff s) k b" by (rule D(5) [OF b])
  show ?thesis
  proof (rule worker_inv_local [OF inv b, of t "b\<lparr>caller := CTimedOut\<rparr>"])
    show "sub_ok (gate_set t) (pool s) (fresh s) (queue t) (in_kickoff t) k (b\<lparr>caller := CTimedOut\<rparr>)"
      using bok w by (auto simp: sub_ok_def t put_def live_def)
  qed (use D(4) w in \<open>auto simp: t put_def live_def ordered_snoc_cancel\<close>)
qed

lemma submit_inv:
  assumes inv: "worker_inv s" and "do_submit k s = Some t"
  shows "worker_inv t"
proof -
  note D = worker_invD [OF inv]
  define g where "g = (if pool s = [] then fresh s else last (pool s))"
  define pl where "pl = butlast (pool s)"
  define fr where "fr = (if pool s = [] then Suc (fresh s) else fresh s)"
  have new: "subs s k = None"
    using assms(2) by (auto simp: do_submit_def split: if_splits)
  have t: "subs t = (subs s)(k \<mapsto> new_sub g)" "pool t = pl" "fresh t = fr" "queue t = queue s @ [Kickoff k]"
    "in_kickoff t = in_kickoff s" "gate_set t = (gate_set s)(g := False)"
    using assms(2) new by (auto simp: do_submit_def acquire_event_def put_def g_def pl_def fr_def split: if_splits)
  have gfr: "g < fr" and gpl: "g \<notin> set pl" and sub: "set pl \<subseteq> set (pool s)" and fr: "fresh s \<le> fr"
  proof -
    show "g < fr" using D(2) by (cases "pool s = []") (auto simp: g_def fr_def)
    show "g \<notin> set pl"
    proof (cases "pool s = []")
      case False
      then have "pool s = pl @ [g]" by (simp add: pl_def g_def)
      with D(1) show ?thesis by simp
    qed (simp add: pl_def)
    show "set pl \<subseteq> set (pool s)" by (auto simp: pl_def dest: in_set_butlastD)
    show "fresh s \<le> fr" by (simp add: fr_def)
  qed
  have unused: "gate b \<noteq> g" if "subs s k' = Some b" "live b" for k' b
    using sub_ok_gate [OF D(5) [OF that(1)]] sub_ok_live [OF D(5) [OF that(1)] that(2)]
    by (cases "pool s = []") (auto simp: g_def)
  have nq: "Kickoff k \<notin> set (queue s)" "CancelInBox k \<notin> set (queue s)" "in_kickoff s \<noteq> Some k"
    using D(7) [of k] new by blast+
  show ?thesis
  proof (rule worker_invI)
    show "distinct (pool t)" using D(1) by (simp add: t pl_def distinct_butlast)
    show "x < fresh t" if "x \<in> set (pool t)" for x
      using that D(2) [of x] sub fr by (auto simp: t)
    show "length (pool t) \<le> 128" using D(3) by (simp add: t pl_def)
    show "ordered (queue t)" using D(4) nq by (simp add: t ordered_snoc_kick)
    show "sub_ok (gate_set t) (pool t) (fresh t) (queue t) (in_kickoff t) k' b" if "subs t k' = Some b" for k' b
    proof (cases "k' = k")
      case True
      then have "b = new_sub g" using that by (simp add: t)
      then show ?thesis using True gfr gpl nq by (simp add: sub_ok_def t new_sub_def)
    next
      case False
      then have b: "subs s k' = Some b" using that by (simp add: t)
      have np: "gate b \<notin> set (pool t)" if "live b"
        using sub_ok_live [OF D(5) [OF b] that] sub by (auto simp: t)
      show ?thesis
        unfolding t(5)
        by (rule sub_ok_mono [OF D(5) [OF b] _ np]) (use False fr in \<open>simp_all add: t split: if_splits\<close>)
    qed
    show "gate x \<noteq> gate y" if "subs t k1 = Some x" "subs t k2 = Some y" "k1 \<noteq> k2" "live x" "live y" for k1 k2 x y
      using that D(6) [of k1 x k2 y] unused [of k1 x] unused [of k2 y]
      by (cases "k1 = k"; cases "k2 = k") (auto simp: t new_sub_def)
    show "subs t k' \<noteq> None"
      if "Kickoff k' \<in> set (queue t) \<or> CancelInBox k' \<in> set (queue t) \<or> in_kickoff t = Some k'" for k'
      using that D(7) [of k'] by (auto simp: t)
  qed
qed

text \<open>A wake-up with a result returns the gate to the pool; nobody live holds it any more.\<close>

lemma wake_inv:
  assumes inv: "worker_inv s" and "do_wake k s = Some t"
  shows "worker_inv t"
proof -
  note D = worker_invD [OF inv]
  obtain b where b: "subs s k = Some b" and w: "caller b = CWait" "gate_set s (gate b)"
    using assms(2) by (auto simp: do_wake_def split: option.splits if_splits)
  have bok: "sub_ok (gate_set s) (pool s) (fresh s) (queue s) (in_kickoff s) k b" by (rule D(5) [OF b])
  then have fin: "task b = Finished" and lb: "live b" and np: "gate b \<notin> set (pool s)" and gf: "gate b < fresh s"
    using w by (auto simp: sub_ok_def live_def)
  from bok fin obtain r where r: "result b = Some r" by (auto simp: sub_ok_def)
  have local: "worker_inv (put k (b\<lparr>caller := c\<rparr>) s)"
    if "c = (case r of Inl e \<Rightarrow> CRaised e | Inr v \<Rightarrow> CReturned (Some v))" for c
  proof (rule worker_inv_local [OF inv b, of _ "b\<lparr>caller := c\<rparr>"])
    show "sub_ok (gate_set (put k (b\<lparr>caller := c\<rparr>) s)) (pool s) (fresh s) (queue (put k (b\<lparr>caller := c\<rparr>) s))
        (in_kickoff (put k (b\<lparr>caller := c\<rparr>) s)) k (b\<lparr>caller := c\<rparr>)"
      using bok w fin r that by (cases r) (auto simp: sub_ok_def put_def live_def)
  qed (use D(4) lb in \<open>auto simp: put_def\<close>)
  show ?thesis
  proof (cases r)
    case (Inl e)
    then show ?thesis using assms(2) b w r local [of "CRaised e"] by (simp add: do_wake_def)
  next
    case (Inr v)
    define u where "u = put k (b\<lparr>caller := CReturned (Some v)\<rparr>) s"
    have u: "worker_inv u" using local [of "CReturned (Some v)"] Inr by (simp add: u_def)
    have t: "t = release_event (gate b) u"
      using assms(2) b w r Inr by (simp add: do_wake_def u_def)
    note U = worker_invD [OF u]
    have free: "gate c \<noteq> gate b" if "subs u k' = Some c" "live c" for k' c
    proof (cases "k' = k")
      case True
      then have "c = b\<lparr>caller := CReturned (Some v)\<rparr>" using that(1) by (simp add: u_def put_def)
      with that(2) fin show ?thesis by (simp add: live_def)
    next
      case False
      then show ?thesis
        using that D(6) [of k' c k b] b lb by (simp add: u_def put_def)
    qed
    have pu: "pool u = pool s" "fresh u = fresh s" by (simp_all add: u_def put_def)
    show ?thesis
    proof (cases "length (pool s) < 128")
      case False
      then show ?thesis using u by (simp add: t release_event_def pu)
    next
      case True
      then have t': "t = u\<lparr>pool := pool u @ [gate b]\<rparr>" by (simp add: t release_event_def pu)
      show ?thesis
      proof (rule worker_invI)
        show "distinct (pool t)" using U(1) np by (simp add: t' pu)
        show "x < fresh t" if "x \<in> set (pool t)" for x
          using that U(2) [of x] gf by (auto simp: t' pu)
        show "length (pool t) \<le> 128" using True by (simp add: t' pu)
        show "ordered (queue t)" using U(4) by (simp add: t')
        show "sub_ok (gate_set t) (pool t) (fresh t) (queue t) (in_kickoff t) k' c" if "subs t k' = Some c" for k' c
        proof -
          have c: "subs u k' = Some c" using that by (simp add: t')
          have np: "gate c \<notin> set (pool t)" if "live c"
            using sub_ok_live [OF U(5) [OF c] that] free [OF c that] by (simp add: t')
          have "sub_ok (gate_set t) (pool t) (fresh t) (queue t) (in_kickoff u) k' c"
            by (rule sub_ok_mono [OF U(5) [OF c] _ np]) (simp_all add: t')
          then show ?thesis by (simp add: t')
        qed
        show "gate x \<noteq> gate y" if "subs t k1 = Some x" "subs t k2 = Some y" "k1 \<noteq> k2" "live x" "live y" for k1 k2 x y
          using that U(6) [of k1 x k2 y] by (simp add: t')
        show "subs t k' \<noteq> None"
          if "Kickoff k' \<in> set (queue t) \<or> CancelInBox k' \<in> set (queue t) \<or> in_kickoff t = Some k'" for k'
          using that U(7) [of k'] by (simp add: t')
      qed
    qed
  qed
qed

lemma worker_inv_step [step_inv]: "worker_inv s \<Longrightarrow> worker_step s e t \<Longrightarrow> worker_inv t"
  by (cases e)
    (auto simp: worker_step_def intro: kick_inv kick_tail_inv complete_inv cancel_in_box_inv flag_timeout_inv
      schedule_cancel_inv submit_inv wake_inv)

interpretation worker: transition_system "\<lambda>s. s = worker_start" worker_step worker_inv
  by unfold_locales (auto intro: worker_inv_start worker_inv_step)

subsection \<open>Isolation and cancellation\<close>

lemma step_result:
  assumes "worker_step s e t" and "subs t k = Some b" and "result b = Some r"
  shows "e = Complete k r \<or> (\<exists>b0. subs s k = Some b0 \<and> result b0 = Some r)"
proof (cases e)
  case (Complete k' r')
  with assms show ?thesis
    by (auto simp: worker_step_def do_complete_def put_def split: option.splits if_splits)
next
  case (Submit k')
  with assms show ?thesis
    by (auto simp: worker_step_def do_submit_def acquire_event_def new_sub_def put_def split: if_splits)
next
  case (Wake k')
  with assms show ?thesis
    by (auto simp: worker_step_def do_wake_def release_event_def put_def split: option.splits sum.splits if_splits)
qed (use assms in \<open>auto simp: worker_step_def do_kick_def do_kick_tail_def do_cancel_def do_flag_timeout_def
      do_schedule_cancel_def put_def split: option.splits list.splits callback.splits if_splits\<close>)

lemma run_result:
  "run worker_step s es t \<Longrightarrow> subs t k = Some b \<Longrightarrow> result b = Some r \<Longrightarrow>
     Complete k r \<in> set es \<or> (\<exists>b0. subs s k = Some b0 \<and> result b0 = Some r)"
proof (induction rule: run.induct)
  case (run_Cons s e t es u)
  then show ?case using step_result [of s e t k _ r] by fastforce
qed auto


lemma loop_progress:
  assumes "worker_inv s" and "queue s \<noteq> [] \<or> in_kickoff s \<noteq> None"
  shows "\<exists>e t. (e = Kick \<or> e = KickTail \<or> e = Cancel) \<and> worker_step s e t"
proof -
  note D = worker_invD [OF assms(1)]
  show ?thesis
  proof (cases "in_kickoff s")
    case (Some k)
    then obtain b where "subs s k = Some b" using D(7) [of k] by auto
    with Some show ?thesis by (intro exI [of _ KickTail]) (simp add: worker_step_def do_kick_tail_def)
  next
    case None
    then obtain c q where q: "queue s = c # q" using assms(2) by (cases "queue s") auto
    show ?thesis
    proof (cases c)
      case (Kickoff k)
      then obtain b where "subs s k = Some b" using D(7) [of k] q by auto
      with Kickoff None q show ?thesis
        by (intro exI [of _ Kick]) (simp add: worker_step_def do_kick_def)
    next
      case (CancelInBox k)
      then obtain b where "subs s k = Some b" using D(7) [of k] q by auto
      with CancelInBox None q show ?thesis
        by (intro exI [of _ Cancel]) (simp add: worker_step_def do_cancel_def)
    qed
  qed
qed

text \<open>
  C33.  A submission that timed out does not keep running behind its caller's back, whichever of
  \<open>_kickoff\<close> and the cancellation the loop gets to first: once the loop has worked off the
  submission's callbacks, its coroutine was closed unstarted, has finished, or its task has been
  asked to cancel; and until then the loop always has a callback it can run.
\<close>

theorem timeout_cancels:
  assumes "run worker_step worker_start es s" and "subs s k = Some b" and "caller b = CTimedOut"
  shows "(CancelInBox k \<notin> set (queue s) \<longrightarrow> task b = Closed \<or> task b = Finished \<or> cancelled b) \<and>
     (CancelInBox k \<in> set (queue s) \<longrightarrow>
        (\<exists>e t. (e = Kick \<or> e = KickTail \<or> e = Cancel) \<and> worker_step s e t))"
proof -
  have inv: "worker_inv s" using worker.reachable_inv [OF _ assms(1)] by simp
  have "sub_ok (gate_set s) (pool s) (fresh s) (queue s) (in_kickoff s) k b"
    by (rule worker_invD(5) [OF inv assms(2)])
  then have "CancelInBox k \<in> set (queue s) \<or> task b = Closed \<or> task b = Finished \<or> cancelled b"
    using assms(3) by (simp add: sub_ok_def)
  moreover have "queue s \<noteq> []" if "CancelInBox k \<in> set (queue s)" using that by auto
  ultimately show ?thesis using loop_progress [OF inv] by blast
qed

lemma run_worker:
  fixes a b :: "'v worker"
  shows "foldl (\<lambda>s e. Option.bind s (worker_do e)) (Some a) es = Some b \<Longrightarrow> run worker_step a es b"
proof (induction es arbitrary: a)
  case (Cons e es)
  have none: "foldl (\<lambda>s e. Option.bind s (worker_do e)) None es = (None :: 'v worker option)" for es
    by (induction es) auto
  from Cons none obtain c where "worker_do e a = Some c" and "run worker_step c es b"
    by (cases "worker_do e a") auto
  moreover from this have "worker_step a e c" by (simp add: worker_step_def)
  ultimately show ?case by (blast intro: run_Cons)
qed (auto intro: run_Nil)

definition demo_steps :: "int wstep list" where
  "demo_steps =
     [Submit 1, Submit 2, Kick, Complete 1 (Inr 7), KickTail, Wake 1, FlagTimeout 2, Submit 3, Kick,
      ScheduleCancel 2, Kick, KickTail, Cancel, Complete 3 (Inl ValueError), Wake 3]"

definition demo_end :: "int worker" where
  "demo_end = the (foldl (\<lambda>s e. Option.bind s (worker_do e)) (Some worker_start) demo_steps)"

lemma demo_run: "run worker_step worker_start demo_steps demo_end"
proof (rule run_worker)
  have "\<not> Option.is_none (foldl (\<lambda>s e. Option.bind s (worker_do e)) (Some worker_start) demo_steps)"
    by code_simp
  then show "foldl (\<lambda>s e. Option.bind s (worker_do e)) (Some worker_start) demo_steps = Some demo_end"
    by (simp add: demo_end_def Option.is_none_def)
qed


theorem timeout_cancels_witness:
  "caller (the (subs demo_end 2)) = CTimedOut \<and> task (the (subs demo_end 2)) = Closed"
proof -
  have 2: "\<not> Option.is_none (subs demo_end 2)" "caller (the (subs demo_end 2)) = CTimedOut"
    "queue demo_end = []" "task (the (subs demo_end 2)) \<noteq> Finished" "\<not> cancelled (the (subs demo_end 2))"
    by code_simp+
  then have "subs demo_end 2 = Some (the (subs demo_end 2))" by (simp add: Option.is_none_def)
  from timeout_cancels [OF demo_run this 2(2)] 2 show ?thesis by simp
qed

section \<open>The default time-out\<close>

text \<open>
  Where a submission's time-out comes from: the environment variable if it is a number, then the
  application passed along (its \<open>None\<close> means no time-out), then the application constructed last.
  \<open>parse\<close> is Python's \<open>float()\<close> of a string; an application's \<open>worker_timeout\<close> is \<open>None\<close> or a number,
  and \<open>app = Some None\<close> is an object without that attribute.
\<close>

definition default_timeout ::
  "(string \<Rightarrow> 'f option) \<Rightarrow> string option \<Rightarrow> 'f option option option \<Rightarrow> 'f option option \<Rightarrow> 'f option"
where
  "default_timeout parse env app last_app =
     (let fallback = (case last_app of Some (Some t) \<Rightarrow> Some t | _ \<Rightarrow> None);
          by_app = (case app of Some (Some t) \<Rightarrow> t | _ \<Rightarrow> fallback)
      in case env of
           Some (c # cs) \<Rightarrow> (case parse (c # cs) of Some t \<Rightarrow> Some t | None \<Rightarrow> by_app)
         | _ \<Rightarrow> by_app)"

text \<open>\<open>submit\<close>: the sentinel, modelled by \<open>None\<close>, asks for the default.\<close>

definition effective_timeout ::
  "(string \<Rightarrow> 'f option) \<Rightarrow> string option \<Rightarrow> 'f option option option \<Rightarrow> 'f option option \<Rightarrow> 'f option option \<Rightarrow> 'f option"
where
  "effective_timeout parse env app last_app timeout =
     (case timeout of Some t \<Rightarrow> t | None \<Rightarrow> default_timeout parse env app last_app)"

lemma default_timeout_app:
  assumes "case env of Some (c # cs) \<Rightarrow> parse (c # cs) = None | _ \<Rightarrow> True"
  shows "default_timeout parse env (Some (Some t)) last_app = t"
    and "default_timeout parse env None last_app = (case last_app of Some t \<Rightarrow> t | None \<Rightarrow> None)"
  using assms by (auto simp: default_timeout_def split: option.splits list.splits)

section \<open>Draining background tasks\<close>

text \<open>
  Background work attached to a response: the application's task list (which has \<open>run_sync\<close>), a
  plain Starlette task list, a single task, a bare callable that may return a coroutine, or
  nothing.  A task runs inline or through \<open>submit\<close>; what it does is a parameter that sees the tasks
  run before it.
\<close>

record bg_task =
  tfunc :: nat
  tasync :: bool

datatype background =
    NoBackground
  | DoorTasks "bg_task list"
  | RealTasks "background list"
  | SingleTask bg_task
  | BareCallable bg_task

datatype bg_ev = Inline nat | Submitted nat

type_synonym bg_user = "bg_ev list \<Rightarrow> nat \<Rightarrow> py_exn option"

definition run_task :: "bg_user \<Rightarrow> bg_task \<Rightarrow> bg_ev list \<Rightarrow> py_exn option \<times> bg_ev list" where
  "run_task u t h = (u h (tfunc t), h @ [(if tasync t then Submitted (tfunc t) else Inline (tfunc t))])"

fun run_tasks :: "bg_user \<Rightarrow> bg_task list \<Rightarrow> bg_ev list \<Rightarrow> py_exn option \<times> bg_ev list" where
  "run_tasks u [] h = (None, h)"
| "run_tasks u (t # ts) h =
     (case run_task u t h of (Some e, h) \<Rightarrow> (Some e, h) | (None, h) \<Rightarrow> run_tasks u ts h)"

text \<open>\<open>run_sync\<close> empties the list only after every task has succeeded.\<close>

definition run_sync :: "bg_user \<Rightarrow> bg_task list \<Rightarrow> bg_ev list \<Rightarrow> py_exn option \<times> bg_task list \<times> bg_ev list" where
  "run_sync u ts h = (case run_tasks u ts h of (r, h) \<Rightarrow> (r, (if r = None then [] else ts), h))"

text \<open>
  A callable returning a coroutine is called inline and then its coroutine submitted; a failure of
  either is one failure of the task.
\<close>

fun run_background_obj :: "bg_user \<Rightarrow> background \<Rightarrow> bg_ev list \<Rightarrow> py_exn option \<times> bg_ev list"
  and run_background_objs :: "bg_user \<Rightarrow> background list \<Rightarrow> bg_ev list \<Rightarrow> py_exn option \<times> bg_ev list"
where
  "run_background_obj u NoBackground h = (None, h)"
| "run_background_obj u (DoorTasks ts) h = (case run_sync u ts h of (r, _, h) \<Rightarrow> (r, h))"
| "run_background_obj u (RealTasks bs) h = run_background_objs u bs h"
| "run_background_obj u (SingleTask t) h = run_task u t h"
| "run_background_obj u (BareCallable t) h = run_task u t h"
| "run_background_objs u [] h = (None, h)"
| "run_background_objs u (b # bs) h =
     (case run_background_obj u b h of (Some e, h) \<Rightarrow> (Some e, h) | (None, h) \<Rightarrow> run_background_objs u bs h)"

fun bg_tasks :: "background \<Rightarrow> bg_task list" where
  "bg_tasks NoBackground = []"
| "bg_tasks (DoorTasks ts) = ts"
| "bg_tasks (RealTasks bs) = concat (map bg_tasks bs)"
| "bg_tasks (SingleTask t) = [t]"
| "bg_tasks (BareCallable t) = [t]"

lemma run_tasks_append:
  "run_tasks u (xs @ ys) h =
     (case run_tasks u xs h of (Some e, h) \<Rightarrow> (Some e, h) | (None, h) \<Rightarrow> run_tasks u ys h)"
  by (induction xs arbitrary: h) (auto split: prod.split option.split)

text \<open>Every shape of background work drains the same way: its tasks in order, up to the first failure.\<close>

lemma run_background_obj_flat:
  "run_background_obj u b h = run_tasks u (bg_tasks b) h"
  "run_background_objs u bs h = run_tasks u (concat (map bg_tasks bs)) h"
proof (induction u b h and u bs h rule: run_background_obj_run_background_objs.induct)
  case (2 u ts h)
  then show ?case by (simp add: run_sync_def split: prod.split)
next
  case (4 u t h)
  then show ?case by (simp split: prod.split option.split)
next
  case (5 u t h)
  then show ?case by (simp split: prod.split option.split)
next
  case (7 u b bs h)
  then show ?case by (auto simp: run_tasks_append split: prod.splits option.splits)
qed simp_all

lemma run_tasks_all:
  assumes "\<And>h f. u h f = None"
  shows "run_tasks u ts h = (None, h @ map (\<lambda>t. if tasync t then Submitted (tfunc t) else Inline (tfunc t)) ts)"
  by (induction ts arbitrary: h) (auto simp: run_task_def assms)

text \<open>A list whose drain failed keeps all its tasks, the ones that ran included.\<close>

lemma failed_drain_keeps_tasks:
  "run_tasks u ts h = (Some e, h') \<Longrightarrow> run_sync u ts h = (Some e, ts, h')"
  by (simp add: run_sync_def)

end
