(* ===== verification/Exn_Handlers.thy ===== *)
theory Exn_Handlers
  imports Turbo_Prelude "HOL-Library.AList"
begin

text \<open>
  Exceptions of a request and the handlers an application registers for them: \<open>exception_handler\<close>,
  \<open>_lookup_exception_handler\<close>, the synchronous, strict and awaiting ways to run a handler, the two
  wrappers of \<open>applications.py\<close> that dispatch an endpoint's exceptions, the dependency path of the
  engine, the routing-miss path, and the exceptions of mounted applications.

  A coroutine is the tree of what it does: effects, suspensions on the event loop, and the value or
  exception it ends with.  User code is a function of the effects that happened before it, so that
  running it twice may give two different trees.
\<close>

section \<open>Exceptions and coroutines\<close>

datatype cls = ObjectC | BaseExceptionC | ExceptionC | HTTPExceptionC | ValidationC | FastAPIErrorC
  | SuspendedC | TypeErrorC | ValueErrorC | UnboundLocalErrorC | UserC nat

text \<open>An exception object: its identity, the method resolution order of its class, its status code.\<close>

record exc =
  oid :: nat
  mro :: "cls list"
  status :: "int option"

definition is_instance :: "exc \<Rightarrow> cls \<Rightarrow> bool" where
  "is_instance e c \<longleftrightarrow> c \<in> set (mro e)"

abbreviation is_exception :: "exc \<Rightarrow> bool" where
  "is_exception e \<equiv> is_instance e ExceptionC"

abbreviation is_http :: "exc \<Rightarrow> bool" where
  "is_http e \<equiv> is_instance e HTTPExceptionC"

datatype 'a act =
    AReturn 'a
  | ARaise exc
  | AEffect nat "'a act"
  | ASuspend "'a act"

type_synonym 'a ended = "exc + 'a"

text \<open>\<open>coro.send(None)\<close> runs a coroutine up to its first suspension; an event loop runs it to its end.\<close>

fun first_step :: "'a act \<Rightarrow> nat list \<Rightarrow> 'a ended option \<times> nat list" where
  "first_step (AReturn v) l = (Some (Inr v), l)"
| "first_step (ARaise e) l = (Some (Inl e), l)"
| "first_step (AEffect n a) l = first_step a (l @ [n])"
| "first_step (ASuspend a) l = (None, l)"

fun to_end :: "'a act \<Rightarrow> nat list \<Rightarrow> 'a ended \<times> nat list" where
  "to_end (AReturn v) l = (Inr v, l)"
| "to_end (ARaise e) l = (Inl e, l)"
| "to_end (AEffect n a) l = to_end a (l @ [n])"
| "to_end (ASuspend a) l = to_end a l"

fun settled :: "'a act \<Rightarrow> bool" where
  "settled (AEffect n a) = settled a"
| "settled (ASuspend a) = False"
| "settled _ = True"

lemma first_step_settled: "settled a \<Longrightarrow> first_step a l = (Some (fst (to_end a l)), snd (to_end a l))"
  by (induction a arbitrary: l) auto

lemma first_step_suspends: "fst (first_step a l) = None \<longleftrightarrow> \<not> settled a"
  by (induction a arbitrary: l) auto

section \<open>Registered handlers\<close>

datatype key = KCls cls | KStatus int

record 'v handler =
  hcoro :: bool
  hbody :: "nat list \<Rightarrow> exc \<Rightarrow> 'v option act"

text \<open>\<open>app.exception_handlers\<close> is a dictionary: assignment keeps the place of a key it replaces.\<close>

type_synonym 'v handlers = "(key \<times> 'v handler) list"

definition add_exception_handler :: "key \<Rightarrow> 'v handler \<Rightarrow> 'v handlers \<Rightarrow> 'v handlers" where
  "add_exception_handler k h hs = AList.update k h hs"

fun walk_mro :: "'v handlers \<Rightarrow> cls list \<Rightarrow> 'v handler option" where
  "walk_mro hs [] = None"
| "walk_mro hs (c # cs) = (case map_of hs (KCls c) of Some h \<Rightarrow> Some h | None \<Rightarrow> walk_mro hs cs)"

definition lookup_exception_handler :: "'v handlers \<Rightarrow> exc \<Rightarrow> 'v handler option" where
  "lookup_exception_handler hs e =
     (case map_of hs (KCls (hd (mro e))) of
        Some h \<Rightarrow> Some h
      | None \<Rightarrow>
          (case walk_mro hs (tl (mro e)) of
             Some h \<Rightarrow> Some h
           | None \<Rightarrow> (case status e of None \<Rightarrow> None | Some code \<Rightarrow> map_of hs (KStatus code))))"

section \<open>Running a handler\<close>

text \<open>
  From synchronous code a coroutine handler is probed with one \<open>send(None)\<close>; if it suspends, that
  coroutine is closed and a second one runs on an event loop of its own.
\<close>

definition run_handler_probed :: "'v handler \<Rightarrow> exc \<Rightarrow> nat list \<Rightarrow> 'v option ended \<times> nat list" where
  "run_handler_probed h e l =
     (if hcoro h then
        (case first_step (hbody h l e) l of
           (Some r, l) \<Rightarrow> (r, l)
         | (None, l) \<Rightarrow> to_end (hbody h l e) l)
      else to_end (hbody h l e) l)"

definition invoke_exception_handler_strict :: "'v handlers \<Rightarrow> exc \<Rightarrow> nat list \<Rightarrow> 'v option ended \<times> nat list" where
  "invoke_exception_handler_strict hs e l =
     (case lookup_exception_handler hs e of None \<Rightarrow> (Inr None, l) | Some h \<Rightarrow> run_handler_probed h e l)"

text \<open>\<open>except Exception: return None\<close>.\<close>

definition none_on_exception :: "'v option ended \<times> nat list \<Rightarrow> 'v option ended \<times> nat list" where
  "none_on_exception r =
     (case r of (Inl x, l) \<Rightarrow> if is_exception x then (Inr None, l) else (Inl x, l) | (Inr v, l) \<Rightarrow> (Inr v, l))"

definition invoke_exception_handler :: "'v handlers \<Rightarrow> exc \<Rightarrow> nat list \<Rightarrow> 'v option ended \<times> nat list" where
  "invoke_exception_handler hs e l =
     (case lookup_exception_handler hs e of
        None \<Rightarrow> (Inr None, l)
      | Some h \<Rightarrow> none_on_exception (run_handler_probed h e l))"

definition ainvoke_exception_handler :: "'v handlers \<Rightarrow> exc \<Rightarrow> nat list \<Rightarrow> 'v option ended \<times> nat list" where
  "ainvoke_exception_handler hs e l =
     (case lookup_exception_handler hs e of
        None \<Rightarrow> (Inr None, l)
      | Some h \<Rightarrow> none_on_exception (to_end (hbody h l e) l))"

section \<open>Dispatching the exceptions of an endpoint\<close>

text \<open>What happened so far, and the exceptions kept for the test client to raise again.\<close>

record srv =
  effects :: "nat list"
  captured :: "exc list"

type_synonym ('v, 'z) code = "'z srv_scheme \<Rightarrow> 'v ended \<times> 'z srv_scheme"

definition specific_key :: "exc \<Rightarrow> key \<Rightarrow> bool" where
  "specific_key e k = (case k of KCls c \<Rightarrow> c \<noteq> ExceptionC \<and> is_instance e c | KStatus _ \<Rightarrow> False)"

definition handled_specific :: "'v handlers \<Rightarrow> exc \<Rightarrow> 'v option \<Rightarrow> bool" where
  "handled_specific hs e r \<longleftrightarrow> r \<noteq> None \<and> list_ex (specific_key e) (map fst hs)"

definition capture_unless_handled :: "'v handlers \<Rightarrow> exc \<Rightarrow> 'v option \<Rightarrow> 'z srv_scheme \<Rightarrow> 'z srv_scheme" where
  "capture_unless_handled hs e r s =
     (if \<not> is_http e \<and> \<not> handled_specific hs e r then s\<lparr>captured := captured s @ [e]\<rparr> else s)"

text \<open>The \<open>except\<close> branch that both wrappers share, given how the handler was run.\<close>

definition settle_exception ::
  "('v handlers \<Rightarrow> exc \<Rightarrow> nat list \<Rightarrow> 'v option ended \<times> nat list) \<Rightarrow> 'v handlers \<Rightarrow> exc \<Rightarrow> ('v, 'z) code" where
  "settle_exception invoke hs e s =
     (case invoke hs e (effects s) of
        (Inl x, l) \<Rightarrow>
          if is_exception x then (Inl e, capture_unless_handled hs e None (s\<lparr>effects := l\<rparr>))
          else (Inl x, s\<lparr>effects := l\<rparr>)
      | (Inr r, l) \<Rightarrow>
          (case r of None \<Rightarrow> Inl e | Some v \<Rightarrow> Inr v, capture_unless_handled hs e r (s\<lparr>effects := l\<rparr>)))"

definition wrap_with_exception_handlers :: "'v handlers \<Rightarrow> ('v, 'z) code \<Rightarrow> ('v, 'z) code" where
  "wrap_with_exception_handlers hs endpoint s =
     (if hs = [] then endpoint s
      else case endpoint s of
             (Inr v, s) \<Rightarrow> (Inr v, s)
           | (Inl e, s) \<Rightarrow>
               if is_exception e then settle_exception invoke_exception_handler hs e s else (Inl e, s))"

definition wrap_with_exception_handlers_async :: "'v handlers \<Rightarrow> ('v, 'z) code \<Rightarrow> ('v, 'z) code" where
  "wrap_with_exception_handlers_async hs endpoint s =
     (if hs = [] then endpoint s
      else case endpoint s of
             (Inr v, s) \<Rightarrow> (Inr v, s)
           | (Inl e, s) \<Rightarrow>
               if is_exception e then settle_exception ainvoke_exception_handler hs e s else (Inl e, s))"

text \<open>
  An exception of a dependency that the engine resolved: \<open>None\<close> leaves the answer, and the capture,
  to the engine.
\<close>

definition door_handle_dep_exception :: "'v handlers \<Rightarrow> exc \<Rightarrow> 'z srv_scheme \<Rightarrow> 'v option ended \<times> 'z srv_scheme" where
  "door_handle_dep_exception hs e s =
     (if is_http e \<or> hs = [] then (Inr None, s)
      else case invoke_exception_handler hs e (effects s) of
             (Inl x, l) \<Rightarrow> (Inl x, s\<lparr>effects := l\<rparr>)
           | (Inr None, l) \<Rightarrow> (Inr None, s\<lparr>effects := l\<rparr>)
           | (Inr (Some v), l) \<Rightarrow>
               let s = s\<lparr>effects := l\<rparr>
               in (Inr (Some v),
                   if list_ex (specific_key e) (map fst hs) then s else s\<lparr>captured := captured s @ [e]\<rparr>))"

section \<open>Routing misses and mounted applications\<close>

definition not_found :: exc where
  "not_found = \<lparr>oid = 0, mro = [HTTPExceptionC, ExceptionC, BaseExceptionC, ObjectC], status = Some 404\<rparr>"

text \<open>A request no route matches: the handler of status 404, else the one of \<open>HTTPException\<close>.\<close>

definition dispatch_404_via_handler :: "'v handlers \<Rightarrow> nat list \<Rightarrow> 'v option ended option \<times> nat list" where
  "dispatch_404_via_handler hs l =
     (case (case map_of hs (KStatus 404) of
              Some h \<Rightarrow> Some h
            | None \<Rightarrow> map_of hs (KCls HTTPExceptionC)) of
        None \<Rightarrow> (None, l)
      | Some h \<Rightarrow> map_prod Some id (to_end (hbody h l not_found) l))"

text \<open>
  A mounted application sends messages and may then raise.  Its \<open>HTTPException\<close> is answered by the
  parent's handlers, or FastAPI's default one, unless it has started a response already.
  \<open>render\<close> gives the messages a response sends.
\<close>

datatype asgi_msg = MStart int | MBody nat

definition started :: "asgi_msg list \<Rightarrow> bool" where
  "started ms \<longleftrightarrow> list_ex (\<lambda>m. case m of MStart _ \<Rightarrow> True | MBody _ \<Rightarrow> False) ms"

definition asgi_call_mounted ::
  "'v handlers \<Rightarrow> 'v handler \<Rightarrow> ('v \<Rightarrow> asgi_msg list) \<Rightarrow> asgi_msg list \<times> exc option \<Rightarrow> nat list
     \<Rightarrow> exc option \<times> asgi_msg list \<times> nat list"
where
  "asgi_call_mounted hs default_handler render mounted l =
     (case mounted of
        (ms, None) \<Rightarrow> (None, ms, l)
      | (ms, Some e) \<Rightarrow>
          if \<not> is_http e \<or> started ms then (Some e, ms, l)
          else
            let h = (case lookup_exception_handler hs e of Some h \<Rightarrow> h | None \<Rightarrow> default_handler)
            in case to_end (hbody h l e) l of
                 (Inl x, l) \<Rightarrow> (Some x, ms, l)
               | (Inr None, l) \<Rightarrow>
                   (Some \<lparr>oid = 0, mro = [TypeErrorC, ExceptionC, BaseExceptionC, ObjectC], status = None\<rparr>, ms, l)
               | (Inr (Some v), l) \<Rightarrow> (None, ms @ render v, l))"

section \<open>Which handler answers, and what becomes of the exception\<close>

text \<open>
  The specification: the handler of the first class along the method resolution order that has one;
  only when no class of the exception is registered, the handler of its status code.
\<close>

definition most_specific :: "'v handlers \<Rightarrow> exc \<Rightarrow> 'v handler \<Rightarrow> bool" where
  "most_specific hs e h \<longleftrightarrow>
     (\<exists>i<length (mro e). map_of hs (KCls (mro e ! i)) = Some h \<and> (\<forall>j<i. map_of hs (KCls (mro e ! j)) = None)) \<or>
     (\<forall>c\<in>set (mro e). map_of hs (KCls c) = None) \<and>
     (\<exists>code. status e = Some code \<and> map_of hs (KStatus code) = Some h)"

lemma walk_mro_Some:
  "walk_mro hs cs = Some h \<longleftrightarrow>
     (\<exists>i<length cs. map_of hs (KCls (cs ! i)) = Some h \<and> (\<forall>j<i. map_of hs (KCls (cs ! j)) = None))"
proof (induction cs)
  case (Cons c cs)
  show ?case
  proof (cases "map_of hs (KCls c)")
    case None
    then show ?thesis using Cons.IH by (simp add: Ex_less_Suc2 All_less_Suc2)
  next
    case (Some h')
    then show ?thesis by (auto simp: Ex_less_Suc2 All_less_Suc2)
  qed
qed simp

lemma walk_mro_None: "walk_mro hs cs = None \<longleftrightarrow> (\<forall>c\<in>set cs. map_of hs (KCls c) = None)"
  by (induction cs) (auto split: option.splits)

lemma lookup_walk:
  "mro e \<noteq> [] \<Longrightarrow> lookup_exception_handler hs e =
     (case walk_mro hs (mro e) of
        Some h \<Rightarrow> Some h
      | None \<Rightarrow> (case status e of None \<Rightarrow> None | Some code \<Rightarrow> map_of hs (KStatus code)))"
  by (cases "mro e") (simp_all add: lookup_exception_handler_def split: option.split)

lemma lookup_most_specific:
  assumes "mro e \<noteq> []"
  shows "lookup_exception_handler hs e = Some h \<longleftrightarrow> most_specific hs e h"
proof (cases "walk_mro hs (mro e)")
  case None
  then have "\<forall>c\<in>set (mro e). map_of hs (KCls c) = None" by (simp add: walk_mro_None)
  moreover from this have "\<not> (\<exists>i<length (mro e). map_of hs (KCls (mro e ! i)) = Some h)" by simp
  ultimately show ?thesis using None assms
    by (auto simp: lookup_walk most_specific_def split: option.split)
next
  case (Some h')
  then have some: "\<not> (\<forall>c\<in>set (mro e). map_of hs (KCls c) = None)"
    using walk_mro_None [of hs "mro e"] by simp
  have "lookup_exception_handler hs e = walk_mro hs (mro e)" using Some by (simp add: lookup_walk [OF assms])
  then show ?thesis unfolding most_specific_def walk_mro_Some [symmetric] by (simp only: some simp_thms)
qed

text \<open>
  A handler is tame on an exception if it does not suspend and raises, if at all, an \<open>Exception\<close>;
  then the two ways to run it agree.
\<close>

definition tame :: "'v option act \<Rightarrow> bool" where
  "tame a \<longleftrightarrow> settled a \<and> (case fst (to_end a []) of Inl x \<Rightarrow> is_exception x | Inr _ \<Rightarrow> True)"

lemma fst_to_end: "fst (to_end a l) = fst (to_end a l')"
  by (induction a arbitrary: l l') simp_all

lemma probed_settled: "settled (hbody h l e) \<Longrightarrow> run_handler_probed h e l = to_end (hbody h l e) l"
  by (simp add: run_handler_probed_def first_step_settled)

lemma none_on_exception_tame:
  assumes "tame a"
  shows "none_on_exception (to_end a l) =
    (Inr (case fst (to_end a []) of Inr v \<Rightarrow> v | Inl _ \<Rightarrow> None), snd (to_end a l))"
proof -
  obtain r l' where r: "to_end a l = (r, l')" by fastforce
  then have "fst (to_end a []) = r" using fst_to_end [of a "[]" l] by simp
  with assms r show ?thesis by (auto simp: none_on_exception_def tame_def split: sum.splits)
qed

text \<open>What a tame handler answers: a response, or nothing if it raised or returned \<open>None\<close>.\<close>

definition answer :: "'v handler \<Rightarrow> exc \<Rightarrow> nat list \<Rightarrow> 'v option" where
  "answer h e l = (case fst (to_end (hbody h l e) []) of Inr v \<Rightarrow> v | Inl _ \<Rightarrow> None)"

lemma invoke_tame:
  assumes "lookup_exception_handler hs e = Some h" and "tame (hbody h l e)"
  shows "invoke_exception_handler hs e l = (Inr (answer h e l), snd (to_end (hbody h l e) l))"
    and "ainvoke_exception_handler hs e l = (Inr (answer h e l), snd (to_end (hbody h l e) l))"
proof -
  have "settled (hbody h l e)" using assms(2) by (simp add: tame_def)
  with assms show "invoke_exception_handler hs e l = (Inr (answer h e l), snd (to_end (hbody h l e) l))"
    by (simp add: invoke_exception_handler_def probed_settled none_on_exception_tame answer_def)
  from assms show "ainvoke_exception_handler hs e l = (Inr (answer h e l), snd (to_end (hbody h l e) l))"
    by (simp add: ainvoke_exception_handler_def none_on_exception_tame answer_def)
qed

lemma invoke_none:
  "lookup_exception_handler hs e = None \<Longrightarrow>
     invoke_exception_handler hs e l = (Inr None, l) \<and> ainvoke_exception_handler hs e l = (Inr None, l)"
  by (simp add: invoke_exception_handler_def ainvoke_exception_handler_def)


definition user_exc :: exc where
  "user_exc = \<lparr>oid = 7, mro = [UserC 3, UserC 2, ExceptionC, BaseExceptionC, ObjectC], status = None\<rparr>"

definition answering :: "nat \<Rightarrow> nat handler" where
  "answering n = \<lparr>hcoro = True, hbody = (\<lambda>l e. AEffect n (AReturn (Some n)))\<rparr>"

definition failing :: "nat handler" where
  "failing = \<lparr>hcoro = False, hbody = (\<lambda>l e. ARaise not_found)\<rparr>"

definition demo_handlers :: "nat handlers" where
  "demo_handlers = [(KCls ExceptionC, failing), (KCls (UserC 2), answering 5)]"

definition srv_start :: srv where
  "srv_start = \<lparr>effects = [], captured = []\<rparr>"

lemma demo_most_specific: "most_specific demo_handlers user_exc h \<longleftrightarrow> h = answering 5"
proof -
  have "mro user_exc \<noteq> []" by (simp add: user_exc_def)
  from lookup_most_specific [OF this, of demo_handlers h] show ?thesis
    by (auto simp: user_exc_def lookup_exception_handler_def demo_handlers_def)
qed


section \<open>Consequences and deviations\<close>

text \<open>Registration replaces the handler of its key and no other.\<close>

lemma add_exception_handler_lookup:
  "map_of (add_exception_handler k h hs) = (map_of hs)(k \<mapsto> h)"
  by (simp add: add_exception_handler_def update_conv')

text \<open>
  The dependency path captures what the engine will not: together they keep an exception once.
  \<open>HTTPException\<close>s are left to the engine.
\<close>

lemma dep_exception_captured_once:
  assumes "\<not> is_http e" and "hs \<noteq> []"
    and "\<forall>h. lookup_exception_handler hs e = Some h \<longrightarrow> tame (hbody h (effects s) e)"
  shows "\<exists>r s'. door_handle_dep_exception hs e s = (Inr r, s') \<and>
    captured s' @ (if r = None then [e] else []) = captured s @ (if handled_specific hs e r then [] else [e])"
proof (cases "lookup_exception_handler hs e")
  case None
  then show ?thesis using assms invoke_none [OF None]
    by (simp add: door_handle_dep_exception_def handled_specific_def)
next
  case (Some h)
  with assms(3) have "tame (hbody h (effects s) e)" by blast
  from invoke_tame(1) [OF Some this] assms show ?thesis
    by (auto simp: door_handle_dep_exception_def handled_specific_def Let_def split: option.split)
qed

text \<open>
  The status code comes last in the lookup, while the routing-miss path asks for it first: with
  handlers for both \<open>HTTPException\<close> and 404, a raised 404 and a missing route get different ones.
\<close>

lemma raised_404_and_missing_route_differ:
  fixes a b :: "'v handler"
  defines "hs \<equiv> [(KCls HTTPExceptionC, a), (KStatus 404, b)]"
  shows "lookup_exception_handler hs not_found = Some a \<and>
    dispatch_404_via_handler hs l = map_prod Some id (to_end (hbody b l not_found) l)"
  by (simp add: hs_def lookup_exception_handler_def not_found_def dispatch_404_via_handler_def)

text \<open>A coroutine handler that suspends repeats the effects before its first suspension.\<close>

lemma suspending_handler_repeats:
  "run_handler_probed \<lparr>hcoro = True, hbody = (\<lambda>l e. AEffect n (ASuspend (AReturn v)))\<rparr> e l = (Inr v, l @ [n, n])"
  by (simp add: run_handler_probed_def)

text \<open>A mounted application never gets a second response start.\<close>

lemma mounted_single_start:
  assumes "asgi_call_mounted hs d render (ms, eo) l = (x, ms', l')" and "started ms"
  shows "ms' = ms \<and> x = eo"
  using assms by (auto simp: asgi_call_mounted_def split: option.splits)

end
