(* ===== verification/Delegated.thy ===== *)
theory Delegated
  imports Exn_Handlers
begin

text \<open>
  What happens to the resources of a request: the handler that delegates a route to FastAPI's own
  pipeline with its three exit stacks (\<open>_delegated_route_info\<close>), the endpoint of custom route
  classes, the drain of deferred tear-downs (\<open>_run_pending_teardowns\<close>), and the tear-down after a
  streamed body (\<open>_door_wrap_stream_teardown\<close>).

  Dependencies, background tasks and handlers are user code: functions of the events before them.
\<close>

section \<open>Exit stacks\<close>

text \<open>What leaving a context manager does: nothing, raise, or suppress the exception it was given.\<close>

datatype fin = FDone | FRaise exc | FSuppress

datatype dev = DExit nat "exc option" | DBack nat | DAnswer exc | DChunk nat | DMark nat

record response =
  rid :: nat
  background :: "nat option"

record duser =
  finish :: "dev list \<Rightarrow> nat \<Rightarrow> exc option \<Rightarrow> fin"
  run_bg :: "dev list \<Rightarrow> nat \<Rightarrow> exc option"
  on_rve :: "dev list \<Rightarrow> exc \<Rightarrow> exc + response option"

text \<open>
  \<open>AsyncExitStack.__aexit__\<close>: the callbacks run last in, first out; each sees the exception that is
  current, may suppress it or raise another.  The result is the exception raised, or whether the
  exception that was passed in has been suppressed.
\<close>

fun aexit_loop :: "duser \<Rightarrow> nat list \<Rightarrow> exc option \<Rightarrow> bool \<Rightarrow> bool \<Rightarrow> dev list
    \<Rightarrow> (exc option \<times> bool \<times> bool) \<times> dev list" where
  "aexit_loop u [] cur raising suppressed l = ((cur, raising, suppressed), l)"
| "aexit_loop u (d # ds) cur raising suppressed l =
     (case finish u l d cur of
        FDone \<Rightarrow> aexit_loop u ds cur raising suppressed (l @ [DExit d cur])
      | FSuppress \<Rightarrow> aexit_loop u ds None False True (l @ [DExit d cur])
      | FRaise e \<Rightarrow> aexit_loop u ds (Some e) True suppressed (l @ [DExit d cur]))"

definition aexit :: "duser \<Rightarrow> nat list \<Rightarrow> exc option \<Rightarrow> dev list \<Rightarrow> (exc + bool) \<times> dev list" where
  "aexit u stack received l =
     (case aexit_loop u (rev stack) received False False l of
        ((cur, raising, suppressed), l) \<Rightarrow>
          (case (raising, cur) of
             (True, Some e) \<Rightarrow> Inl e
           | _ \<Rightarrow> Inr (received \<noteq> None \<and> suppressed), l))"

record stacks =
  file_stack :: "nat list"
  inner_stack :: "nat list"
  function_stack :: "nat list"

section \<open>The delegated handler\<close>

text \<open>Leaving stacks one after the other with no exception: the first that raises ends it.\<close>

fun unwind_clean :: "duser \<Rightarrow> nat list list \<Rightarrow> dev list \<Rightarrow> exc option \<times> dev list" where
  "unwind_clean u [] l = (None, l)"
| "unwind_clean u (st # sts) l =
     (case aexit u st None l of (Inl e, l) \<Rightarrow> (Some e, l) | (Inr _, l) \<Rightarrow> unwind_clean u sts l)"

text \<open>Leaving stacks with an exception: a stack may suppress it, or replace it for the ones outside.\<close>

fun unwind_error :: "duser \<Rightarrow> nat list list \<Rightarrow> exc option \<Rightarrow> dev list \<Rightarrow> exc option \<times> dev list" where
  "unwind_error u [] cur l = (cur, l)"
| "unwind_error u (st # sts) cur l =
     (case aexit u st cur l of
        (Inl e2, l) \<Rightarrow> unwind_error u sts (Some e2) l
      | (Inr suppressed, l) \<Rightarrow> unwind_error u sts (if cur \<noteq> None \<and> suppressed then None else cur) l)"

definition background_run :: "duser \<Rightarrow> nat option \<Rightarrow> dev list \<Rightarrow> exc option \<times> dev list" where
  "background_run u bg l = (case bg of None \<Rightarrow> (None, l) | Some b \<Rightarrow> (run_bg u l b, l @ [DBack b]))"

text \<open>Background work, then the request-scope stack, then the file stack, up to the first exception.\<close>

definition finalize :: "duser \<Rightarrow> stacks \<Rightarrow> nat option \<Rightarrow> dev list \<Rightarrow> exc option \<times> dev list" where
  "finalize u sts bg l =
     (case background_run u bg l of
        (Some e, l) \<Rightarrow> (Some e, l)
      | (None, l) \<Rightarrow> unwind_clean u [inner_stack sts, file_stack sts] l)"

text \<open>
  The handler after FastAPI's pipeline has filled the stacks and ended with \<open>outcome\<close>.  With
  \<open>defer\<close>, the request runs under HTTP middleware that will drain the returned finalizer.
\<close>

definition delegated_handler ::
  "duser \<Rightarrow> bool \<Rightarrow> stacks \<Rightarrow> exc + response \<Rightarrow> dev list
     \<Rightarrow> (exc + response option) \<times> nat option option \<times> dev list"
where
  "delegated_handler u defer sts outcome l =
     (case outcome of
        Inl e \<Rightarrow>
          if is_instance e ValidationC then
            (case on_rve u l e of
               Inl x \<Rightarrow> (Inl x, None, l @ [DAnswer e])
             | Inr res \<Rightarrow>
                 (case unwind_clean u [function_stack sts, inner_stack sts, file_stack sts] (l @ [DAnswer e]) of
                    (Some x, l) \<Rightarrow> (Inl x, None, l)
                  | (None, l) \<Rightarrow> (Inr res, None, l)))
          else
            (case unwind_error u [function_stack sts, inner_stack sts, file_stack sts] (Some e) l of
               (Some x, l) \<Rightarrow> (Inl x, None, l)
             | (None, l) \<Rightarrow> (Inr None, None, l))
      | Inr r \<Rightarrow>
          (case aexit u (function_stack sts) None l of
             (Inl x, l) \<Rightarrow> (Inl x, None, l)
           | (Inr _, l) \<Rightarrow>
               if defer then (Inr (Some (r\<lparr>background := None\<rparr>)), Some (background r), l)
               else
                 (case finalize u sts (background r) l of
                    (Some x, l) \<Rightarrow> (Inl x, None, l)
                  | (None, l) \<Rightarrow> (Inr (Some (r\<lparr>background := None\<rparr>)), None, l))))"

section \<open>Custom route classes\<close>

text \<open>
  Leaving one context of an \<open>async with\<close>, and \<open>async with A as file, B as inner, C as function\<close>
  around a body that ended with \<open>cur\<close>.
\<close>

definition leave :: "duser \<Rightarrow> nat list \<Rightarrow> exc option \<times> dev list \<Rightarrow> exc option \<times> dev list" where
  "leave u st c =
     (case c of
        (cur, l) \<Rightarrow>
          (case aexit u st cur l of
             (Inl e2, l) \<Rightarrow> (Some e2, l)
           | (Inr suppressed, l) \<Rightarrow> (if cur \<noteq> None \<and> suppressed then None else cur, l)))"

definition async_with :: "duser \<Rightarrow> stacks \<Rightarrow> exc option \<Rightarrow> dev list \<Rightarrow> exc option \<times> dev list" where
  "async_with u sts cur l = fold (leave u) [function_stack sts, inner_stack sts, file_stack sts] (cur, l)"

text \<open>
  The endpoint of a custom route class: background work inside the \<open>async with\<close>, then the answers to
  \<open>HTTPException\<close>s and validation errors.  \<open>he\<close> and \<open>rve\<close> are the application's answers, \<open>None\<close>
  when it has none; the defaults carry the status in \<open>rid\<close>.
\<close>

record route_user =
  he :: "dev list \<Rightarrow> exc \<Rightarrow> exc + response option"
  rve :: "dev list \<Rightarrow> exc \<Rightarrow> exc + response option"

definition default_answer :: "nat \<Rightarrow> response" where
  "default_answer code = \<lparr>rid = code, background = None\<rparr>"

definition or_default :: "nat \<Rightarrow> exc + response option \<Rightarrow> exc + response" where
  "or_default code r =
     (case r of Inl x \<Rightarrow> Inl x | Inr (Some v) \<Rightarrow> Inr v | Inr None \<Rightarrow> Inr (default_answer code))"

definition unbound_response :: exc where
  "unbound_response = \<lparr>oid = 0, mro = [UnboundLocalErrorC, ExceptionC, BaseExceptionC, ObjectC], status = None\<rparr>"

definition custom_route_endpoint ::
  "duser \<Rightarrow> route_user \<Rightarrow> stacks \<Rightarrow> exc + response \<Rightarrow> dev list \<Rightarrow> (exc + response) \<times> dev list"
where
  "custom_route_endpoint u ru sts outcome l =
     (case (case outcome of
              Inl e \<Rightarrow> (Some e, l)
            | Inr r \<Rightarrow> background_run u (background r) l) of
        (body_exc, l) \<Rightarrow>
          (case async_with u sts body_exc l of
             (None, l) \<Rightarrow>
               (case outcome of
                  Inl _ \<Rightarrow> (Inl unbound_response, l)
                | Inr r \<Rightarrow> (Inr (if body_exc = None then r\<lparr>background := None\<rparr> else r), l))
           | (Some e, l) \<Rightarrow>
               if is_http e then
                 (or_default (case status e of Some c \<Rightarrow> nat c | None \<Rightarrow> 500) (he ru l e), l @ [DAnswer e])
               else if is_instance e ValidationC then (or_default 422 (rve ru l e), l @ [DAnswer e])
               else (Inl e, l)))"

section \<open>Deferred tear-downs\<close>

text \<open>
  Generators by where they are driven: on the worker loop, on a loop of their own, synchronously, or
  asynchronous ones probed in place and, if that suspends, driven again on the worker.  A step ends
  with another yield, with the end of the generator, or with an exception.
\<close>

datatype gkind = OnWorker | OnLoop | SyncGen | InlineAsync

datatype gstep = GYield | GStop | GRaise exc | GSuspend

record guser =
  resume :: "dev list \<Rightarrow> nat \<Rightarrow> exc option \<Rightarrow> gstep"

definition advance :: "guser \<Rightarrow> exc option \<Rightarrow> nat \<times> gkind \<Rightarrow> dev list \<Rightarrow> gstep \<times> dev list" where
  "advance u throw_exc g l =
     (case g of
        (n, InlineAsync) \<Rightarrow>
          (case resume u l n throw_exc of
             GSuspend \<Rightarrow>
               let l1 = l @ [DExit n throw_exc] in (resume u l1 n throw_exc, l1 @ [DExit n throw_exc])
           | r \<Rightarrow> (r, l @ [DExit n throw_exc]))
      | (n, _) \<Rightarrow> (resume u l n throw_exc, l @ [DExit n throw_exc]))"

definition no_response_error :: exc where
  "no_response_error =
     \<lparr>oid = 0, mro = [FastAPIErrorC, ExceptionC, BaseExceptionC, ObjectC], status = None\<rparr>"

fun run_pending_teardowns ::
  "guser \<Rightarrow> exc option \<Rightarrow> bool \<Rightarrow> (nat \<times> gkind) list \<Rightarrow> exc list option \<Rightarrow> dev list
     \<Rightarrow> exc option \<times> exc list option \<times> dev list"
where
  "run_pending_teardowns u throw_exc propagate [] collected l = (None, collected, l)"
| "run_pending_teardowns u throw_exc propagate (g # gs) collected l =
     (case advance u throw_exc g l of
        (GRaise x, l) \<Rightarrow>
          if throw_exc \<noteq> None \<and> throw_exc \<noteq> Some x then (Some x, collected, l)
          else if propagate \<and> throw_exc = None then (Some x, collected, l)
          else run_pending_teardowns u throw_exc propagate gs
                 (if throw_exc = None then map_option (\<lambda>c. c @ [x]) collected else collected) l
      | (_, l) \<Rightarrow>
          if throw_exc \<noteq> None then (Some no_response_error, collected, l)
          else run_pending_teardowns u throw_exc propagate gs collected l)"

section \<open>Tear-down after a streamed body\<close>

text \<open>
  The generators of a streamed response are resumed when the body ends, however it ends; exceptions
  are kept for the test client, and a generator that yields again is closed.
\<close>

fun stream_teardown :: "guser \<Rightarrow> nat list \<Rightarrow> exc list \<Rightarrow> dev list \<Rightarrow> exc list \<times> dev list" where
  "stream_teardown u [] kept l = (kept, l)"
| "stream_teardown u (g # gs) kept l =
     (case resume u l g None of
        GRaise x \<Rightarrow> stream_teardown u gs (kept @ [x]) (l @ [DExit g None])
      | _ \<Rightarrow> stream_teardown u gs kept (l @ [DExit g None]))"

text \<open>A body: the chunks it yields before it ends, is closed by its consumer, or raises.\<close>

definition door_wrap_stream_teardown ::
  "guser \<Rightarrow> nat list \<Rightarrow> nat list \<times> exc option \<Rightarrow> exc list \<Rightarrow> dev list \<Rightarrow> exc option \<times> exc list \<times> dev list"
where
  "door_wrap_stream_teardown u req_gens body kept l =
     (case body of
        (chunks, e) \<Rightarrow>
          (case stream_teardown u (rev req_gens) kept (l @ map DChunk chunks) of (kept, l) \<Rightarrow> (e, kept, l)))"

section \<open>What is torn down, and when\<close>

fun exited :: "dev list \<Rightarrow> nat list" where
  "exited [] = []"
| "exited (DExit d _ # l) = d # exited l"
| "exited (_ # l) = exited l"

lemma exited_append [simp]: "exited (l @ l') = exited l @ exited l'"
  by (induction l rule: exited.induct) simp_all

text \<open>
  Resources that are left one at a time: if leaving one leaves exactly its own generators, a
  sequence of them leaves all, in order.
\<close>

locale exit_steps =
  fixes step :: "'g \<Rightarrow> 's \<times> dev list \<Rightarrow> 's \<times> dev list"
    and gens :: "'g \<Rightarrow> nat list"
  assumes step_exits: "exited (snd (step g c)) = exited (snd c) @ gens g"
begin

lemma fold_exits: "exited (snd (fold step gs c)) = exited (snd c) @ concat (map gens gs)"
  by (induction gs arbitrary: c) (simp_all add: step_exits)

end

lemma aexit_loop_exited: "exited (snd (aexit_loop u ds cur r s l)) = exited l @ ds"
  by (induction u ds cur r s l rule: aexit_loop.induct) (auto split: fin.split)

lemma aexit_exited: "exited (snd (aexit u st cur l)) = exited l @ rev st"
  using aexit_loop_exited [of u "rev st" cur False False l] by (auto simp: aexit_def split: prod.split)

interpretation stack_exits: exit_steps "leave u" rev for u
proof
  fix st c
  show "exited (snd (leave u st c)) = exited (snd c) @ rev st"
    using aexit_exited [of u st "fst c" "snd c"]
    by (auto simp: leave_def split: prod.splits sum.splits)
qed

definition resume_gen :: "guser \<Rightarrow> nat \<Rightarrow> exc list \<times> dev list \<Rightarrow> exc list \<times> dev list" where
  "resume_gen u g c =
     (case resume u (snd c) g None of GRaise x \<Rightarrow> fst c @ [x] | _ \<Rightarrow> fst c, snd c @ [DExit g None])"

interpretation stream_exits: exit_steps "resume_gen u" "\<lambda>g. [g]" for u
  by unfold_locales (simp add: resume_gen_def)

lemma stream_teardown_fold: "stream_teardown u gs kept l = fold (resume_gen u) gs (kept, l)"
  by (induction gs arbitrary: kept l) (simp_all add: resume_gen_def split: gstep.split)

lemma unwind_error_fold: "unwind_error u sts cur l = fold (leave u) sts (cur, l)"
  by (induction sts arbitrary: cur l) (simp_all add: leave_def split: prod.split sum.split)

lemma async_with_exited:
  "exited (snd (async_with u sts cur l)) =
     exited l @ rev (function_stack sts) @ rev (inner_stack sts) @ rev (file_stack sts)"
  by (simp add: async_with_def del: fold.simps(2)) (simp add: stack_exits.step_exits)

text \<open>User code that does not raise when a request ends well.\<close>

definition calm :: "duser \<Rightarrow> bool" where
  "calm u \<longleftrightarrow> (\<forall>l d. finish u l d None = FDone) \<and> (\<forall>l b. run_bg u l b = None)"

abbreviation left :: "nat list \<Rightarrow> dev list" where
  "left ds \<equiv> map (\<lambda>d. DExit d None) (rev ds)"

lemma aexit_loop_calm:
  "calm u \<Longrightarrow> aexit_loop u ds None r s l = ((None, r, s), l @ map (\<lambda>d. DExit d None) ds)"
  by (induction ds arbitrary: l) (simp_all add: calm_def)

lemma aexit_calm: "calm u \<Longrightarrow> aexit u st None l = (Inr False, l @ left st)"
  by (simp add: aexit_def aexit_loop_calm)

lemma finalize_calm:
  "calm u \<Longrightarrow> finalize u sts bg l =
     (None, l @ (case bg of None \<Rightarrow> [] | Some b \<Rightarrow> [DBack b]) @ left (inner_stack sts) @ left (file_stack sts))"
proof -
  assume calm: "calm u"
  then have "run_bg u l b = None" for l b by (simp add: calm_def)
  with calm show ?thesis by (cases bg) (simp_all add: finalize_def background_run_def aexit_calm)
qed


definition demo_duser :: duser where
  "demo_duser =
     \<lparr>finish = (\<lambda>l d c. if c = None then FDone else if d = 2 then FRaise not_found else FDone),
      run_bg = (\<lambda>l b. None), on_rve = (\<lambda>l e. Inr None)\<rparr>"

definition demo_stacks :: stacks where
  "demo_stacks = \<lparr>file_stack = [9], inner_stack = [1, 2], function_stack = [3]\<rparr>"


section \<open>Requests that leak\<close>

text \<open>
  Outside the error path the unwinding is not \<open>async with\<close>: the first failure ends it.  A
  function-scope dependency that raises after its yield, failing background work, and a failing
  handler for validation errors leave the request-scope dependencies suspended for good.
\<close>

lemma function_exit_failure_leaks:
  assumes "function_stack sts = [d]" and "finish u l d None = FRaise x"
  shows "delegated_handler u defer sts (Inr r) l = (Inl x, None, l @ [DExit d None])"
  using assms by (simp add: delegated_handler_def aexit_def)

lemma background_failure_leaks:
  assumes "function_stack sts = []" and "background r = Some b" and "run_bg u l b = Some x"
  shows "delegated_handler u False sts (Inr r) l = (Inl x, None, l @ [DBack b])"
  using assms by (simp add: delegated_handler_def aexit_def finalize_def background_run_def)

lemma validation_handler_failure_leaks:
  assumes "is_instance e ValidationC" and "on_rve u l e = Inl x"
  shows "delegated_handler u defer sts (Inl e) l = (Inl x, None, l @ [DAnswer e])"
  using assms by (simp add: delegated_handler_def)

text \<open>A custom route class has no such leak: it is a real \<open>async with\<close>.\<close>

lemma custom_route_exits_all:
  "exited (snd (custom_route_endpoint u ru sts outcome l)) =
     exited l @ rev (function_stack sts) @ rev (inner_stack sts) @ rev (file_stack sts)"
proof -
  obtain b l1 where b: "(case outcome of Inl e \<Rightarrow> (Some e, l) | Inr r \<Rightarrow> background_run u (background r) l) = (b, l1)"
    by fastforce
  then have "exited l1 = exited l"
    by (auto simp: background_run_def split: sum.splits option.splits)
  moreover obtain x l2 where "async_with u sts b l1 = (x, l2)" by fastforce
  moreover from this have "exited l2 = exited l1 @ rev (function_stack sts) @ rev (inner_stack sts) @ rev (file_stack sts)"
    using async_with_exited [of u sts b l1] by simp
  ultimately show ?thesis
    using b by (auto simp: custom_route_endpoint_def split: option.split sum.split)
qed

text \<open>A dependency of a custom route that suppresses the handler's exception leaves no response bound.\<close>

lemma custom_route_suppressed_is_unbound:
  assumes "fst (async_with u sts (Some e) l) = None"
  shows "fst (custom_route_endpoint u ru sts (Inl e) l) = Inl unbound_response"
  using assms by (cases "async_with u sts (Some e) l") (simp add: custom_route_endpoint_def)

section \<open>Draining\<close>

text \<open>
  Without an exception to throw and without propagation, the drain resumes every generator once, in
  order, whatever the others did, and no exception escapes; with collection the exceptions are kept.
\<close>

lemma run_pending_teardowns_all:
  assumes "\<forall>g\<in>set gs. snd g \<noteq> InlineAsync"
  shows "\<exists>c l'. run_pending_teardowns u None False gs collected l = (None, c, l') \<and>
    exited l' = exited l @ map fst gs \<and> (collected = None \<longrightarrow> c = None)"
  using assms
proof (induction gs arbitrary: collected l)
  case (Cons g gs)
  obtain n k where g: "g = (n, k)" by fastforce
  with Cons.prems have adv: "advance u None g l = (resume u l n None, l @ [DExit n None])"
    by (cases k) (simp_all add: advance_def)
  show ?case
  proof (cases "resume u l n None")
    case (GRaise x)
    have "map_option (\<lambda>c. c @ [x]) collected = None \<longleftrightarrow> collected = None" by simp
    with Cons.IH [of "map_option (\<lambda>c. c @ [x]) collected" "l @ [DExit n None]"] Cons.prems adv g GRaise
    show ?thesis by fastforce
  qed (use Cons.IH [of collected "l @ [DExit n None]"] Cons.prems adv g in fastforce)+
qed simp

text \<open>
  With an exception to throw, the first generator that swallows it ends the drain with FastAPI's
  error, and the generators after it are not resumed.
\<close>

lemma swallowing_generator_ends_drain:
  assumes "resume u l n (Some e) = GStop" and "k \<noteq> InlineAsync"
  shows "run_pending_teardowns u (Some e) p ((n, k) # gs) collected l =
    (Some no_response_error, collected, l @ [DExit n (Some e)])"
  using assms by (cases k) (simp_all add: advance_def)

lemma stream_teardown_last:
  "\<exists>kept' l'. door_wrap_stream_teardown u gens (chunks, e) kept l = (e, kept', l @ map DChunk chunks @ l') \<and>
     exited l' = rev gens"
proof -
  have "\<exists>k l'. stream_teardown u gs kept m = (k, m @ l') \<and> exited l' = gs" for gs m
  proof (induction gs arbitrary: kept m)
    case (Cons g gs)
    have step: "stream_teardown u (g # gs) kept m =
        stream_teardown u gs (case resume u m g None of GRaise x \<Rightarrow> kept @ [x] | _ \<Rightarrow> kept) (m @ [DExit g None])"
      by (simp split: gstep.split)
    from Cons.IH obtain k l' where
      "stream_teardown u gs (case resume u m g None of GRaise x \<Rightarrow> kept @ [x] | _ \<Rightarrow> kept) (m @ [DExit g None])
        = (k, (m @ [DExit g None]) @ l')" and "exited l' = gs" by blast
    with step show ?case by (intro exI [of _ k] exI [of _ "DExit g None # l'"]) simp
  qed simp
  from this [of "rev gens" "l @ map DChunk chunks"] show ?thesis
    by (auto simp: door_wrap_stream_teardown_def)
qed

end
