(* ===== verification/Middleware_Chain.thy ===== *)
theory Middleware_Chain
  imports Delegated
begin

text \<open>
  The HTTP middleware chain around an endpoint (\<open>_middleware_wrap.py\<close>): the synchronous driver of
  \<open>_wrap_with_http_middlewares\<close>, the handler call with its conversion of exceptions, the fallback on an
  event loop, and the bridge that turns a raw ASGI middleware class into a link of the chain.

  A middleware is the tree of what it does with a request: effects, suspensions on the event loop,
  calls of \<open>call_next\<close> with a continuation for their outcome, and its result.
\<close>

section \<open>Values and middlewares\<close>

text \<open>
  What handlers return: nothing, a dictionary or list, another value, a response (status, headers,
  the pieces of its body), or a coroutine object that nobody awaited.
\<close>

datatype piece = PText string | PUser nat | PJson nat | PNull | PDetail exc | PErrors nat

type_synonym headers = "(string \<times> string) list"

datatype val = VNone | VDict nat | VScalar nat | VResp int headers "piece list" | VCoro

datatype mact =
    MReturn val
  | MRaise exc
  | MEffect nat mact
  | MSuspend mact
  | MNext "val ended \<Rightarrow> mact"

record mw =
  coro_fn :: bool
  coro_call :: bool
  mbody :: "nat list \<Rightarrow> mact"

text \<open>The state of a request: effects, captured exceptions, and the finalizers left to its end.\<close>

record req = srv +
  pending :: "nat list"

type_synonym mcode = "req \<Rightarrow> val ended \<times> req"

definition suspended_error :: exc where
  "suspended_error = \<lparr>oid = 0, mro = [SuspendedC, ExceptionC, BaseExceptionC, ObjectC], status = None\<rparr>"

definition type_error :: exc where
  "type_error = \<lparr>oid = 0, mro = [TypeErrorC, ExceptionC, BaseExceptionC, ObjectC], status = None\<rparr>"

definition value_error :: exc where
  "value_error = \<lparr>oid = 0, mro = [ValueErrorC, ExceptionC, BaseExceptionC, ObjectC], status = None\<rparr>"

abbreviation effect :: "nat \<Rightarrow> req \<Rightarrow> req" where
  "effect n s \<equiv> s\<lparr>effects := effects s @ [n]\<rparr>"

section \<open>Driving a middleware\<close>

text \<open>By one \<open>send(None)\<close>: a suspension becomes \<open>_MiddlewareSuspendedError\<close>.\<close>

primrec drive :: "mact \<Rightarrow> mcode \<Rightarrow> mcode" where
  "drive (MReturn v) = (\<lambda>inner s. (Inr v, s))"
| "drive (MRaise e) = (\<lambda>inner s. (Inl e, s))"
| "drive (MEffect n a) = (\<lambda>inner s. drive a inner (effect n s))"
| "drive (MSuspend a) = (\<lambda>inner s. (Inl suspended_error, s))"
| "drive (MNext k) = (\<lambda>inner s. case inner s of (r, s) \<Rightarrow> drive (k r) inner s)"

text \<open>On an event loop, which runs suspensions to their end.\<close>

primrec await_all :: "mact \<Rightarrow> mcode \<Rightarrow> mcode" where
  "await_all (MReturn v) = (\<lambda>inner s. (Inr v, s))"
| "await_all (MRaise e) = (\<lambda>inner s. (Inl e, s))"
| "await_all (MEffect n a) = (\<lambda>inner s. await_all a inner (effect n s))"
| "await_all (MSuspend a) = (\<lambda>inner s. await_all a inner s)"
| "await_all (MNext k) = (\<lambda>inner s. case inner s of (r, s) \<Rightarrow> await_all (k r) inner s)"

text \<open>A plain function cannot await \<open>call_next\<close>: calling it gives a coroutine object.\<close>

primrec call_plain :: "mact \<Rightarrow> mcode" where
  "call_plain (MReturn v) = (\<lambda>s. (Inr v, s))"
| "call_plain (MRaise e) = (\<lambda>s. (Inl e, s))"
| "call_plain (MEffect n a) = (\<lambda>s. call_plain a (effect n s))"
| "call_plain (MSuspend a) = call_plain a"
| "call_plain (MNext k) = call_plain (k (Inr VCoro))"

fun make_runner :: "mw list \<Rightarrow> mcode \<Rightarrow> mcode" where
  "make_runner [] handler s = handler s"
| "make_runner (m # ms) handler s =
     (if coro_fn m \<or> coro_call m then drive (mbody m (effects s)) (make_runner ms handler) s
      else call_plain (mbody m (effects s)) s)"

section \<open>Calling the handler\<close>

text \<open>
  An endpoint as the chain sees it: a coroutine function or a plain call, and whether it takes the
  framework's private keyword arguments.
\<close>

record endpoint =
  ep_async :: bool
  ep_defers :: bool
  ep_mw_flag :: bool
  ep_kwargs :: bool
  ep_coro :: "nat list \<Rightarrow> val act"
  ep_call :: mcode

definition call_coro :: "endpoint \<Rightarrow> mcode" where
  "call_coro ep s =
     (case first_step (ep_coro ep (effects s)) (effects s) of
        (Some r, l) \<Rightarrow> (r, s\<lparr>effects := l\<rparr>)
      | (None, l) \<Rightarrow> (Inl suspended_error, s\<lparr>effects := l\<rparr>))"

text \<open>\<open>endpoint(**kwargs)\<close>, with the private arguments among them or not.\<close>

definition call_endpoint :: "bool \<Rightarrow> endpoint \<Rightarrow> mcode" where
  "call_endpoint private ep s =
     (if private \<and> \<not> ep_kwargs ep then (Inl type_error, s)
      else if ep_async ep then call_coro ep s else ep_call ep s)"

text \<open>The conversion that Starlette's exception middleware does between the chain and the route.\<close>

definition convert_exception :: "val handlers \<Rightarrow> exc \<Rightarrow> mcode" where
  "convert_exception hs e s =
     (if is_http e then (Inr (VResp (case status e of Some c \<Rightarrow> c | None \<Rightarrow> 500) [] [PDetail e]), s)
      else if hs \<noteq> [] then
        (case invoke_exception_handler hs e (effects s) of
           (Inl x, l) \<Rightarrow> (Inl x, s\<lparr>effects := l\<rparr>)
         | (Inr None, l) \<Rightarrow> (Inl e, s\<lparr>effects := l, captured := captured s @ [e]\<rparr>)
         | (Inr (Some v), l) \<Rightarrow> (Inr v, s\<lparr>effects := l\<rparr>))
      else (Inl e, s\<lparr>captured := captured s @ [e]\<rparr>))"

fun as_response :: "val \<Rightarrow> val ended" where
  "as_response VNone = Inr (VResp 200 [] [PNull])"
| "as_response (VDict n) = Inr (VResp 200 [] [PJson n])"
| "as_response (VScalar n) = Inr (VResp 200 [] [PJson n])"
| "as_response (VResp c h b) = Inr (VResp c h b)"
| "as_response VCoro = Inl value_error"

definition call_handler_sync :: "val handlers \<Rightarrow> endpoint \<Rightarrow> nat option \<Rightarrow> mcode" where
  "call_handler_sync hs ep extraction_errors s =
     (case (if ep_defers ep then None else extraction_errors) of
        Some errs \<Rightarrow> (Inr (VResp 422 [] [PErrors errs]), s)
      | None \<Rightarrow>
          (case call_endpoint (ep_mw_flag ep \<or> ep_defers ep) ep s of
             (Inl e, s) \<Rightarrow>
               if is_instance e SuspendedC then (Inl e, s)
               else
                 (case convert_exception hs e s of
                    (Inl x, s) \<Rightarrow> (Inl x, s)
                  | (Inr v, s) \<Rightarrow> (as_response v, s))
           | (Inr v, s) \<Rightarrow> (as_response v, s)))"

section \<open>The fallback\<close>

text \<open>
  When the driver meets a suspension, the whole chain runs again on a fresh event loop, with a
  request of its own, the private arguments and no conversion of exceptions.
\<close>

fun fallback_value :: "val \<Rightarrow> val" where
  "fallback_value (VDict n) = VResp 200 [] [PJson n]"
| "fallback_value v = v"

definition call_handler_fallback :: "endpoint \<Rightarrow> mcode" where
  "call_handler_fallback ep s =
     (if \<not> ep_kwargs ep then (Inl type_error, s)
      else
        case (if ep_async ep then
                (case to_end (ep_coro ep (effects s)) (effects s) of (r, l) \<Rightarrow> (r, s\<lparr>effects := l\<rparr>))
              else ep_call ep s) of
          (Inl e, s) \<Rightarrow> (Inl e, s)
        | (Inr v, s) \<Rightarrow> (Inr (fallback_value v), s))"

fun fallback_chain :: "mw list \<Rightarrow> mcode \<Rightarrow> mcode" where
  "fallback_chain [] handler s = handler s"
| "fallback_chain (m # ms) handler s =
     (if coro_fn m then await_all (mbody m (effects s)) (fallback_chain ms handler) s
      else if coro_call m then (Inr VCoro, s)
      else call_plain (mbody m (effects s)) s)"

definition drive_async_fallback :: "endpoint \<Rightarrow> mw list \<Rightarrow> mcode" where
  "drive_async_fallback ep ms s = fallback_chain ms (call_handler_fallback ep) s"

section \<open>The wrapped endpoint\<close>

text \<open>
  The \<open>finally\<close> of the wrapper: if tear-downs are pending, the background tasks of the request run
  first, up to the first that raises, and then the tear-downs, whose exceptions are swallowed.
\<close>

fun run_bg_tasks :: "(nat list \<Rightarrow> unit act) list \<Rightarrow> nat list \<Rightarrow> exc option \<times> nat list" where
  "run_bg_tasks [] l = (None, l)"
| "run_bg_tasks (t # ts) l =
     (case to_end (t l) l of (Inl e, l) \<Rightarrow> (Some e, l) | (Inr _, l) \<Rightarrow> run_bg_tasks ts l)"

definition drain_request :: "(nat list \<Rightarrow> unit act) list \<Rightarrow> val ended \<times> req \<Rightarrow> val ended \<times> req" where
  "drain_request bg res =
     (case res of
        (r, s) \<Rightarrow>
          if pending s = [] then (r, s)
          else
            (case run_bg_tasks bg (effects s) of
               (Some e, l) \<Rightarrow> (Inl e, s\<lparr>effects := l\<rparr>)
             | (None, l) \<Rightarrow> (r, s\<lparr>effects := l @ pending s, pending := []\<rparr>)))"

definition wrap_with_http_middlewares ::
  "val handlers \<Rightarrow> endpoint \<Rightarrow> mw list \<Rightarrow> nat option \<Rightarrow> (nat list \<Rightarrow> unit act) list \<Rightarrow> mcode"
where
  "wrap_with_http_middlewares hs ep mws extraction_errors bg s =
     (if mws = [] then call_endpoint False ep s
      else
        drain_request bg
          (case make_runner (rev mws) (call_handler_sync hs ep extraction_errors) s of
             (Inl e, s) \<Rightarrow>
               if is_instance e SuspendedC then drive_async_fallback ep (rev mws) s else (Inl e, s)
           | (Inr v, s) \<Rightarrow> (Inr v, s)))"

section \<open>The chain as an onion\<close>

text \<open>
  The specification: each middleware is a layer around everything registered before it, run as an
  event loop would run it.
\<close>

definition around :: "mw \<Rightarrow> mcode \<Rightarrow> mcode" where
  "around m inner s = await_all (mbody m (effects s)) inner s"

definition onion :: "mw list \<Rightarrow> mcode \<Rightarrow> mcode" where
  "onion mws handler = fold around mws handler"

definition is_suspension :: "val ended \<Rightarrow> bool" where
  "is_suspension r = (case r of Inl e \<Rightarrow> is_instance e SuspendedC | Inr _ \<Rightarrow> False)"

text \<open>A middleware that never suspends on a request whose inner layers do not.\<close>

primrec straight :: "mact \<Rightarrow> bool" where
  "straight (MReturn v) = True"
| "straight (MRaise e) = (\<not> is_instance e SuspendedC)"
| "straight (MEffect n a) = straight a"
| "straight (MSuspend a) = False"
| "straight (MNext k) = (\<forall>r. \<not> is_suspension r \<longrightarrow> straight (k r))"

lemma drive_straight:
  assumes "\<And>s. \<not> is_suspension (fst (inner s))"
  shows "straight a \<Longrightarrow> drive a inner s = await_all a inner s \<and> \<not> is_suspension (fst (await_all a inner s))"
proof (induction a arbitrary: s)
  case (MNext k)
  obtain r s' where r: "inner s = (r, s')" by fastforce
  then have "\<not> is_suspension r" using assms [of s] by simp
  with MNext.prems have "straight (k r)" by simp
  from MNext.IH [OF _ this, of s'] r show ?case by simp
qed (simp_all add: is_suspension_def)

lemma runner_onion:
  assumes "\<And>s. \<not> is_suspension (fst (handler s))"
    and "\<forall>m\<in>set ms. (coro_fn m \<or> coro_call m) \<and> (\<forall>l. straight (mbody m l))"
  shows "make_runner ms handler s = foldr around ms handler s \<and> \<not> is_suspension (fst (foldr around ms handler s))"
  using assms(2)
proof (induction ms arbitrary: s)
  case Nil
  show ?case using assms(1) by simp
next
  case (Cons m ms)
  then have IH: "make_runner ms handler s = foldr around ms handler s \<and>
      \<not> is_suspension (fst (foldr around ms handler s))" for s by simp
  then have ok: "\<not> is_suspension (fst (foldr around ms handler s))" for s by blast
  have eq: "make_runner ms handler = foldr around ms handler" using IH by (intro ext) blast
  from Cons.prems have "coro_fn m \<or> coro_call m" and "straight (mbody m (effects s))" by auto
  with drive_straight [of "foldr around ms handler", OF ok this(2)] eq show ?case
    by (simp add: around_def [of m "foldr around ms handler" s])
qed

text \<open>An endpoint that does not suspend under the driver.\<close>

definition straight_endpoint :: "endpoint \<Rightarrow> bool" where
  "straight_endpoint ep \<longleftrightarrow>
     (\<forall>s. \<not> is_suspension (fst (call_endpoint (ep_mw_flag ep \<or> ep_defers ep) ep s)))"

lemma invoke_not_suspension:
  assumes "\<forall>kh\<in>set hs. \<forall>l. tame (hbody (snd kh) l e)"
  shows "\<exists>r l'. invoke_exception_handler hs e l = (Inr r, l')"
proof (cases "lookup_exception_handler hs e")
  case None
  then show ?thesis by (simp add: invoke_exception_handler_def)
next
  case (Some h)
  have "walk_mro hs cs = Some h \<Longrightarrow> h \<in> snd ` set hs" for cs
    by (induction cs) (auto split: option.splits dest: map_of_SomeD simp: rev_image_eqI)
  with Some have "h \<in> snd ` set hs"
    by (auto simp: lookup_exception_handler_def rev_image_eqI split: option.splits dest!: map_of_SomeD)
  with assms have "tame (hbody h l e)" by auto
  from invoke_tame(1) [OF Some this] show ?thesis by blast
qed

lemma handler_not_suspension:
  assumes "straight_endpoint ep" and "\<forall>kh\<in>set hs. \<forall>l e. tame (hbody (snd kh) l e)"
  shows "\<not> is_suspension (fst (call_handler_sync hs ep errs s))"
proof -
  have conv: "\<not> is_suspension (fst (convert_exception hs e t))" if "\<not> is_instance e SuspendedC" for e t
    using invoke_not_suspension [of hs e "effects t"] assms(2) that
    by (auto simp: convert_exception_def is_suspension_def split: option.splits)
  have resp: "\<not> is_suspension (as_response v)" for v
    by (cases v) (simp_all add: is_suspension_def value_error_def is_instance_def)
  show ?thesis
  proof (cases "if ep_defers ep then None else errs")
    case None
    obtain r t where r: "call_endpoint (ep_mw_flag ep \<or> ep_defers ep) ep s = (r, t)" by fastforce
    with assms(1) have plain: "\<not> is_suspension r" unfolding straight_endpoint_def by (metis fst_conv)
    show ?thesis
    proof (cases r)
      case (Inl e)
      with plain have e: "\<not> is_instance e SuspendedC" by (simp add: is_suspension_def)
      obtain r' t' where "convert_exception hs e t = (r', t')" by fastforce
      with conv [OF e, of t] resp r None Inl e show ?thesis
        by (cases r') (simp_all add: call_handler_sync_def is_suspension_def)
    next
      case (Inr v)
      with r None resp show ?thesis by (simp add: call_handler_sync_def)
    qed
  qed (simp add: call_handler_sync_def is_suspension_def)
qed

text \<open>
  C36.  When nothing suspends, driving the chain synchronously is exactly running it on an event
  loop: the middleware registered last is the outermost layer, each layer sees the response or the
  exception of the ones inside, the innermost layer is the handler with its exceptions turned into
  responses, and the pending tear-downs of the request run once, after the outermost layer.
\<close>

theorem middleware_onion:
  assumes "mws \<noteq> []"
    and "\<forall>m\<in>set mws. (coro_fn m \<or> coro_call m) \<and> (\<forall>l. straight (mbody m l))"
    and "straight_endpoint ep" and "\<forall>kh\<in>set hs. \<forall>l e. tame (hbody (snd kh) l e)"
  shows "wrap_with_http_middlewares hs ep mws errs bg s =
    drain_request bg (onion mws (call_handler_sync hs ep errs) s)"
proof -
  note runner = runner_onion [of "call_handler_sync hs ep errs" "rev mws" s, OF handler_not_suspension [OF assms(3,4)]]
  have run: "make_runner (rev mws) (call_handler_sync hs ep errs) s = onion mws (call_handler_sync hs ep errs) s"
    and ok: "\<not> is_suspension (fst (onion mws (call_handler_sync hs ep errs) s))"
    using runner assms(2) by (simp_all add: onion_def foldr_conv_fold)
  obtain r t where "onion mws (call_handler_sync hs ep errs) s = (r, t)" by fastforce
  with run ok assms(1) show ?thesis
    by (cases r) (simp_all add: wrap_with_http_middlewares_def is_suspension_def)
qed

definition tagging :: "nat \<Rightarrow> mw" where
  "tagging n =
     \<lparr>coro_fn = True, coro_call = False, mbody = (\<lambda>l. MEffect n (MNext (\<lambda>r. MEffect (n + 10)
        (case r of Inr v \<Rightarrow> MReturn v | Inl e \<Rightarrow> MRaise e))))\<rparr>"

definition plain_endpoint :: "mcode \<Rightarrow> endpoint" where
  "plain_endpoint f =
     \<lparr>ep_async = False, ep_defers = False, ep_mw_flag = False, ep_kwargs = False,
      ep_coro = (\<lambda>l. AReturn VNone), ep_call = f\<rparr>"

definition req_start :: req where
  "req_start = \<lparr>effects = [], captured = [], pending = []\<rparr>"

definition demo_call :: mcode where
  "demo_call s = (Inl not_found, s\<lparr>effects := effects s @ [7], pending := [9]\<rparr>)"

theorem middleware_onion_witness:
  "wrap_with_http_middlewares [] (plain_endpoint demo_call) [tagging 1, tagging 2] None [] req_start =
     drain_request [] (onion [tagging 1, tagging 2] (call_handler_sync [] (plain_endpoint demo_call) None) req_start) \<and>
   wrap_with_http_middlewares [] (plain_endpoint demo_call) [tagging 1, tagging 2] None [] req_start =
     (Inr (VResp 404 [] [PDetail not_found]), \<lparr>effects = [2, 1, 7, 11, 12, 9], captured = [], pending = []\<rparr>)"
proof
  have "straight_endpoint (plain_endpoint demo_call)"
    by (simp add: straight_endpoint_def plain_endpoint_def call_endpoint_def demo_call_def is_suspension_def
        not_found_def is_instance_def)
  moreover have "straight (mbody (tagging n) l)" for n l
    by (auto simp: tagging_def is_suspension_def split: sum.splits)
  ultimately show "wrap_with_http_middlewares [] (plain_endpoint demo_call) [tagging 1, tagging 2] None [] req_start =
     drain_request [] (onion [tagging 1, tagging 2] (call_handler_sync [] (plain_endpoint demo_call) None) req_start)"
    by (intro middleware_onion) (auto simp: tagging_def)
  show "wrap_with_http_middlewares [] (plain_endpoint demo_call) [tagging 1, tagging 2] None [] req_start =
     (Inr (VResp 404 [] [PDetail not_found]), \<lparr>effects = [2, 1, 7, 11, 12, 9], captured = [], pending = []\<rparr>)"
    by code_simp
qed

section \<open>Chains that suspend\<close>

text \<open>
  A middleware that awaits after \<open>call_next\<close> has run the handler already when the driver gives up on
  it; the fallback runs the handler a second time.
\<close>

definition sleepy :: mw where
  "sleepy =
     \<lparr>coro_fn = True, coro_call = False,
      mbody = (\<lambda>l. MNext (\<lambda>r. MSuspend (case r of Inr v \<Rightarrow> MReturn v | Inl e \<Rightarrow> MRaise e)))\<rparr>"

definition takes_all :: "mcode \<Rightarrow> endpoint" where
  "takes_all f = (plain_endpoint f)\<lparr>ep_kwargs := True\<rparr>"

lemma suspended_chain_runs_handler_twice:
  "wrap_with_http_middlewares [] (takes_all (\<lambda>s. (Inr (VDict 1), effect n s))) [sleepy] None [] req_start =
     (Inr (VResp 200 [] [PJson 1]), req_start\<lparr>effects := [n, n]\<rparr>)"
  by (simp add: wrap_with_http_middlewares_def sleepy_def takes_all_def plain_endpoint_def call_handler_sync_def
      call_endpoint_def drain_request_def drive_async_fallback_def call_handler_fallback_def req_start_def
      suspended_error_def is_instance_def)

text \<open>The fallback hands the private arguments to an endpoint that the driver would have spared them.\<close>

lemma fallback_breaks_plain_endpoint:
  "fst (wrap_with_http_middlewares [] (plain_endpoint (\<lambda>s. (Inr (VDict 1), s))) [sleepy] None [] req_start) =
     Inl type_error"
  by (simp add: wrap_with_http_middlewares_def sleepy_def plain_endpoint_def call_handler_sync_def
      call_endpoint_def drain_request_def drive_async_fallback_def call_handler_fallback_def req_start_def
      suspended_error_def is_instance_def)

text \<open>It does not await a middleware object whose \<open>__call__\<close> is a coroutine function.\<close>

lemma fallback_skips_middleware_objects:
  assumes "\<not> coro_fn m" and "coro_call m"
  shows "fallback_chain (m # ms) handler s = (Inr VCoro, s)"
  using assms by simp

text \<open>
  An outer middleware that guards \<open>call_next\<close> with \<open>except Exception\<close> catches the driver's own signal:
  the request fails although the inner middleware only awaited.
\<close>

definition guarding :: mw where
  "guarding =
     \<lparr>coro_fn = True, coro_call = False,
      mbody = (\<lambda>l. MNext (\<lambda>r. case r of Inr v \<Rightarrow> MReturn v
        | Inl e \<Rightarrow> if is_exception e then MReturn (VResp 500 [] []) else MRaise e))\<rparr>"

lemma guard_swallows_suspension:
  "fst (wrap_with_http_middlewares [] (takes_all (\<lambda>s. (Inr (VDict 1), s))) [sleepy, guarding] None [] req_start) =
     Inr (VResp 500 [] [])"
  by (simp add: wrap_with_http_middlewares_def sleepy_def guarding_def takes_all_def plain_endpoint_def
      call_handler_sync_def call_endpoint_def drain_request_def req_start_def suspended_error_def is_instance_def)

text \<open>
  The wrapper around the endpoint and the conversion inside the chain both treat an unhandled
  exception: its handler runs twice and it is captured twice.
\<close>

lemma unhandled_exception_captured_twice:
  fixes hs :: "val handlers"
  defines "hs \<equiv> [(KCls (UserC 3), \<lparr>hcoro = False, hbody = (\<lambda>l e. AEffect 4 (AReturn None))\<rparr>)]"
  shows "call_handler_sync hs (takes_all (wrap_with_exception_handlers hs (\<lambda>s. (Inl user_exc, s)))) None req_start =
    (Inl user_exc, req_start\<lparr>effects := [4, 4], captured := [user_exc, user_exc]\<rparr>)"
  by (simp add: hs_def call_handler_sync_def takes_all_def plain_endpoint_def call_endpoint_def convert_exception_def
      wrap_with_exception_handlers_def settle_exception_def invoke_exception_handler_def lookup_exception_handler_def
      run_handler_probed_def none_on_exception_def capture_unless_handled_def handled_specific_def
      user_exc_def is_instance_def req_start_def)

text \<open>A failing background task keeps the pending tear-downs from running.\<close>

lemma failing_background_leaks:
  assumes "to_end (t (effects s)) (effects s) = (Inl e, l)" and "pending s \<noteq> []"
  shows "drain_request (t # ts) (r, s) = (Inl e, s\<lparr>effects := l\<rparr>)"
  using assms by (simp add: drain_request_def)

section \<open>Raw ASGI middleware as a link of the chain\<close>

text \<open>
  A raw ASGI middleware sends messages of its own and may call the application inside it, whose
  messages pass through the \<open>send\<close> it handed in: its continuation gets those messages and how the
  inner application ended.
\<close>

datatype rmsg = RStart int headers | RBody "piece list"

datatype ract =
    RDone
  | RThrow exc
  | REffect nat ract
  | RSuspend ract
  | RSend rmsg ract
  | RInner "rmsg list \<times> exc option \<Rightarrow> ract"

text \<open>What the bridge has captured of the messages sent to it.\<close>

record cap =
  cstatus :: "int option"
  cheaders :: headers
  cbody :: "piece list"

definition no_capture :: cap where
  "no_capture = \<lparr>cstatus = None, cheaders = [], cbody = []\<rparr>"

fun capture_message :: "rmsg \<Rightarrow> cap \<Rightarrow> cap" where
  "capture_message (RStart c h) k = k\<lparr>cstatus := Some c, cheaders := h\<rparr>"
| "capture_message (RBody b) k = k\<lparr>cbody := cbody k @ b\<rparr>"

definition text_plain :: headers where
  "text_plain = [(''content-type'', ''text/plain; charset=utf-8'')]"

definition json_type :: headers where
  "json_type = [(''content-type'', ''application/json'')]"

text \<open>The inner application: the rest of the chain, with a 500 response before its exception goes on.\<close>

fun inner_messages :: "val ended \<Rightarrow> rmsg list \<times> exc option" where
  "inner_messages (Inl e) = ([RStart 500 text_plain, RBody [PText ''Internal Server Error'']], Some e)"
| "inner_messages (Inr (VResp c h b)) = ([RStart c h, RBody b], None)"
| "inner_messages (Inr _) = ([RStart 200 [], RBody []], None)"

definition next_result :: mact where
  "next_result = MNext (\<lambda>r. case r of Inr v \<Rightarrow> MReturn v | Inl e \<Rightarrow> MRaise e)"

fun act_result :: "val option act \<Rightarrow> mact" where
  "act_result (AReturn v) = MReturn (case v of None \<Rightarrow> VNone | Some v \<Rightarrow> v)"
| "act_result (ARaise e) = MRaise e"
| "act_result (AEffect n a) = MEffect n (act_result a)"
| "act_result (ASuspend a) = MSuspend (act_result a)"

definition http_answer :: "(exc \<Rightarrow> val option act) option \<Rightarrow> exc \<Rightarrow> mact" where
  "http_answer registered e =
     (case registered of
        Some h \<Rightarrow> act_result (h e)
      | None \<Rightarrow> MReturn (VResp (case status e of Some c \<Rightarrow> c | None \<Rightarrow> 500) json_type [PDetail e]))"

primrec shim_run :: "ract \<Rightarrow> (exc \<Rightarrow> mact) \<Rightarrow> cap \<Rightarrow> mact" where
  "shim_run RDone = (\<lambda>answer k.
     case cstatus k of Some c \<Rightarrow> MReturn (VResp c (cheaders k) (cbody k)) | None \<Rightarrow> next_result)"
| "shim_run (RThrow e) = (\<lambda>answer k. if is_http e then answer e else MRaise e)"
| "shim_run (REffect n a) = (\<lambda>answer k. MEffect n (shim_run a answer k))"
| "shim_run (RSuspend a) = (\<lambda>answer k. MSuspend (shim_run a answer k))"
| "shim_run (RSend m a) = (\<lambda>answer k. shim_run a answer (capture_message m k))"
| "shim_run (RInner f) = (\<lambda>answer k. MNext (\<lambda>r. shim_run (f (inner_messages r)) answer k))"

text \<open>Sentry's middleware steps aside when an enclosing one already drives the request.\<close>

definition make_asgi_middleware_shim ::
  "bool \<Rightarrow> (exc \<Rightarrow> val option act) option \<Rightarrow> (nat list \<Rightarrow> ract) \<Rightarrow> mw" where
  "make_asgi_middleware_shim step_aside registered asgi =
     \<lparr>coro_fn = True, coro_call = False,
      mbody = (\<lambda>l. if step_aside then next_result else shim_run (asgi l) (http_answer registered) no_capture)\<rparr>"

text \<open>A middleware that forwards what the application inside it does.\<close>

primrec send_all :: "rmsg list \<Rightarrow> ract \<Rightarrow> ract" where
  "send_all [] = (\<lambda>a. a)"
| "send_all (m # ms) = (\<lambda>a. RSend m (send_all ms a))"

definition forwarding :: "nat list \<Rightarrow> ract" where
  "forwarding l = RInner (\<lambda>(ms, e). send_all ms (case e of None \<Rightarrow> RDone | Some x \<Rightarrow> RThrow x))"

lemma shim_transparent:
  assumes "inner s = (r, t)" and "\<exists>c h b. r = Inr (VResp c h b) \<or> (\<exists>e. r = Inl e \<and> \<not> is_http e)"
  shows "drive (mbody (make_asgi_middleware_shim False reg forwarding) l) inner s = (r, t)"
  using assms by (auto simp: make_asgi_middleware_shim_def forwarding_def no_capture_def)

text \<open>
  A middleware that calls the application but sends nothing itself makes the bridge call the rest
  of the chain once more.
\<close>

lemma silent_middleware_runs_handler_twice:
  "drive (mbody (make_asgi_middleware_shim False reg (\<lambda>l. RInner (\<lambda>_. RDone))) l) (\<lambda>s. (Inr v, effect n s)) req_start =
     (Inr v, req_start\<lparr>effects := [n, n]\<rparr>)"
  by (simp add: make_asgi_middleware_shim_def no_capture_def next_result_def req_start_def)

section \<open>The server address of the request\<close>

text \<open>
  \<open>_make_scope\<close> takes the server's name and port from the first \<open>Host\<close> header: what follows the last
  colon is the port, 80 if that is no number, and an empty name becomes \<open>testserver\<close>.
\<close>

definition rsplit_colon :: "string \<Rightarrow> string \<times> string" where
  "rsplit_colon h =
     (rev (tl (dropWhile (\<lambda>c. c \<noteq> CHR '':'') (rev h))), rev (takeWhile (\<lambda>c. c \<noteq> CHR '':'') (rev h)))"

fun host_header :: "headers \<Rightarrow> string" where
  "host_header [] = []"
| "host_header ((k, v) # hs) = (if py_lower k = ''host'' then v else host_header hs)"

definition scope_server :: "headers \<Rightarrow> string \<times> int" where
  "scope_server hs =
     (let h = host_header hs;
          (name, port) =
            (if CHR '':'' \<in> set h
             then (case rsplit_colon h of (a, p) \<Rightarrow> (a, case py_int_str p of Inr n \<Rightarrow> n | Inl _ \<Rightarrow> 80))
             else (h, 80))
      in (if name = [] then ''testserver'' else name, port))"

lemma rsplit_colon_append:
  assumes "CHR '':'' \<notin> set p"
  shows "rsplit_colon (a @ CHR '':'' # p) = (a, p)"
proof -
  have *: "c \<noteq> CHR '':''" if "c \<in> set (rev p)" for c using assms that by auto
  have "takeWhile (\<lambda>c. c \<noteq> CHR '':'') (rev p @ CHR '':'' # rev a) = rev p"
    using takeWhile_append2 [of "rev p" "\<lambda>c. c \<noteq> CHR '':''"] * by simp
  moreover have "dropWhile (\<lambda>c. c \<noteq> CHR '':'') (rev p @ CHR '':'' # rev a) = CHR '':'' # rev a"
    using dropWhile_append2 [of "rev p" "\<lambda>c. c \<noteq> CHR '':''"] * by simp
  ultimately show ?thesis by (simp add: rsplit_colon_def)
qed

lemma scope_server_host_port:
  assumes "name \<noteq> []"
  shows "scope_server ((''Host'', name @ CHR '':'' # dec_int n) # hs) = (name, n)"
proof -
  have "py_lower ''Host'' = ''host''" by code_simp
  with rsplit_colon_append [OF dec_int_no_colon, of name n] assms show ?thesis
    by (simp add: scope_server_def py_int_str_dec_int)
qed

end
