(* ===== verification/Middleware_Stack.thy ===== *)
theory Middleware_Stack
  imports Middleware_Chain
begin

text \<open>
  How middleware is registered (\<open>applications.py\<close>): the classification of \<open>add_middleware\<close>, the
  \<open>middleware\<close> decorator, the reordering that keeps Sentry outermost, the configuration handed to the
  engine, host-based dispatch, and the answer to a request that no route matches.
\<close>

section \<open>Middleware classes and their types\<close>

text \<open>
  A class as registration sees it: the marker attribute, the names along its method resolution
  order, and the link of the chain that an instance, a dispatch wrapper or the ASGI bridge makes of
  it.
\<close>

record mw_class =
  marker :: "string option"
  mro_names :: "string list"
  is_base_http :: bool
  is_type :: bool
  accepts_app :: bool
  sentry_class :: bool
  link :: mw

datatype mw_arg = MwName string | MwClass mw_class

definition real_mw_types :: "(string \<times> string) list" where
  "real_mw_types =
     [(''CORSMiddleware'', ''cors''), (''GZipMiddleware'', ''gzip''),
      (''HTTPSRedirectMiddleware'', ''httpsredirect''), (''TrustedHostMiddleware'', ''trustedhost''),
      (''SessionMiddleware'', ''python_http_session''), (''AuthenticationMiddleware'', ''python_http_auth''),
      (''BaseHTTPMiddleware'', ''base_http'')]"

fun first_tag :: "string list \<Rightarrow> string option" where
  "first_tag [] = None"
| "first_tag (n # ns) = (case map_of real_mw_types n of Some t \<Rightarrow> Some t | None \<Rightarrow> first_tag ns)"

fun tower_type_for :: "mw_arg \<Rightarrow> string option" where
  "tower_type_for (MwName s) = Some s"
| "tower_type_for (MwClass c) =
     (case marker c of Some (x # xs) \<Rightarrow> Some (x # xs) | _ \<Rightarrow> first_tag (mro_names c))"

text \<open>The classes that the in-process dispatcher replaces by Starlette's own.\<close>

definition resolve_tower_bound_to_asgi_class :: "(string \<Rightarrow> 'c option) \<Rightarrow> mw_arg \<Rightarrow> 'c option" where
  "resolve_tower_bound_to_asgi_class load a =
     (case tower_type_for a of
        Some t \<Rightarrow>
          if t = ''cors'' then load ''CORSMiddleware''
          else if t = ''gzip'' then load ''GZipMiddleware''
          else if t = ''httpsredirect'' then load ''HTTPSRedirectMiddleware''
          else None
      | None \<Rightarrow> None)"

section \<open>Registration\<close>

record chain_entry =
  elink :: mw
  esentry :: bool
  eshim :: bool

record registry =
  http_middlewares :: "chain_entry list"
  middleware_stack :: "mw_arg list"
  raw_asgi_middlewares :: "mw_class list"
  mw_registration_seq :: nat
  mw_registration_log :: "(string \<times> mw_arg \<times> nat) list"

definition log_registration :: "string \<Rightarrow> mw_arg \<Rightarrow> registry \<Rightarrow> registry" where
  "log_registration kind a g =
     g\<lparr>mw_registration_seq := Suc (mw_registration_seq g),
       mw_registration_log := mw_registration_log g @ [(kind, a, Suc (mw_registration_seq g))]\<rparr>"

definition push_tower :: "mw_arg \<Rightarrow> registry \<Rightarrow> registry" where
  "push_tower a g = log_registration ''tower'' a (g\<lparr>middleware_stack := middleware_stack g @ [a]\<rparr>)"

definition push_http :: "mw \<Rightarrow> bool \<Rightarrow> bool \<Rightarrow> registry \<Rightarrow> registry" where
  "push_http m sentry shim g =
     g\<lparr>http_middlewares := http_middlewares g @ [\<lparr>elink = m, esentry = sentry, eshim = shim\<rparr>]\<rparr>"

fun add_middleware_impl :: "mw_arg \<Rightarrow> registry \<Rightarrow> registry" where
  "add_middleware_impl (MwName s) g = push_tower (MwName s) g"
| "add_middleware_impl (MwClass c) g =
     (let t = tower_type_for (MwClass c)
      in if (case t of Some t \<Rightarrow> prefix ''python_http_'' t | None \<Rightarrow> False)
         then push_http (link c) (sentry_class c) False g
         else if t \<in> {Some ''cors'', Some ''gzip'', Some ''httpsredirect''} then push_tower (MwClass c) g
         else if is_type c \<and> is_base_http c then push_http (link c) False False g
         else if is_type c \<and> accepts_app c
         then log_registration ''raw'' (MwClass c)
                ((push_http (link c) (sentry_class c) True g)
                   \<lparr>raw_asgi_middlewares := raw_asgi_middlewares g @ [c]\<rparr>)
         else g\<lparr>middleware_stack := middleware_stack g @ [MwClass c]\<rparr>)"

text \<open>Without the Sentry package the order is left alone.\<close>

definition keep_sentry_outermost :: "bool \<Rightarrow> registry \<Rightarrow> registry" where
  "keep_sentry_outermost installed g =
     (if installed
      then g\<lparr>http_middlewares :=
             filter (\<lambda>e. \<not> esentry e) (http_middlewares g) @ filter esentry (http_middlewares g)\<rparr>
      else g)"

definition add_middleware :: "bool \<Rightarrow> mw_arg \<Rightarrow> registry \<Rightarrow> registry" where
  "add_middleware installed a g = keep_sentry_outermost installed (add_middleware_impl a g)"

definition middleware :: "string \<Rightarrow> mw \<Rightarrow> registry \<Rightarrow> registry py" where
  "middleware middleware_type f g =
     (if middleware_type \<noteq> ''http'' then Inl ValueError else Inr (push_http f False False g))"

text \<open>The layers the engine is configured with; unknown classes are skipped.\<close>

definition build_middleware_config :: "registry \<Rightarrow> (string \<times> mw_arg) list" where
  "build_middleware_config g =
     List.map_filter (\<lambda>a. map_option (\<lambda>t. (t, a)) (case tower_type_for a of Some [] \<Rightarrow> None | t \<Rightarrow> t))
       (middleware_stack g)"

section \<open>Host dispatch\<close>

text \<open>
  \<open>_match_host\<close>: the header without its port, compared without case; a registered name without a
  dot also matches as the first label of the header.  The sub-application may be \<open>None\<close>.
\<close>

definition host_part :: "string \<Rightarrow> string" where
  "host_part h = py_lower (takeWhile (\<lambda>c. c \<noteq> CHR '':'') h)"

definition host_matches :: "string \<Rightarrow> string \<Rightarrow> bool" where
  "host_matches hn hs \<longleftrightarrow> hn = hs \<or> CHR ''.'' \<notin> set hn \<and> takeWhile (\<lambda>c. c \<noteq> CHR ''.'') hs = hn"

fun match_hosts :: "(string \<times> 'a option) list \<Rightarrow> string \<Rightarrow> 'a option" where
  "match_hosts [] hs = None"
| "match_hosts ((hn, None) # es) hs = match_hosts es hs"
| "match_hosts ((hn, Some sub) # es) hs =
     (if host_matches (py_lower hn) hs then Some sub else match_hosts es hs)"

definition match_host :: "(string \<times> 'a option) list \<Rightarrow> string \<Rightarrow> 'a option" where
  "match_host hosts header = (if header = [] then None else match_hosts hosts (host_part header))"

text \<open>
  The link that forwards to a sub-application, and \<open>host\<close>, which records the sub-application and
  installs the link on its first call, at the front of the list.
\<close>

definition host_dispatch :: "(string \<times> 'a option) list \<Rightarrow> string \<Rightarrow> ('a \<Rightarrow> mact) \<Rightarrow> mw" where
  "host_dispatch hosts header dispatch_to_subapp =
     \<lparr>coro_fn = True, coro_call = False,
      mbody = (\<lambda>l. case match_host hosts header of Some sub \<Rightarrow> dispatch_to_subapp sub | None \<Rightarrow> next_result)\<rparr>"

definition install_host :: "chain_entry \<Rightarrow> bool \<Rightarrow> registry \<Rightarrow> registry" where
  "install_host e installed g =
     (if installed then g else g\<lparr>http_middlewares := e # http_middlewares g\<rparr>)"

section \<open>Requests that no route matches\<close>

fun await_chain :: "mw list \<Rightarrow> mcode \<Rightarrow> mcode" where
  "await_chain [] handler s = handler s"
| "await_chain (m # ms) handler s =
     (if coro_fn m \<or> coro_call m then await_all (mbody m (effects s)) (await_chain ms handler) s
      else call_plain (mbody m (effects s)) s)"

definition not_found_response :: val where
  "not_found_response = VResp 404 json_type [PText ''Not Found'']"

definition dispatch_404_via_middleware :: "bool \<Rightarrow> registry \<Rightarrow> req \<Rightarrow> val option ended \<times> req" where
  "dispatch_404_via_middleware strip_shims g s =
     (if http_middlewares g = [] then (Inr None, s)
      else
        let ms = (if strip_shims then filter (\<lambda>e. \<not> eshim e) (http_middlewares g) else http_middlewares g)
        in case await_chain (rev (map elink ms)) (\<lambda>s. (Inr not_found_response, s)) s of
             (Inl e, s) \<Rightarrow> (Inl e, s)
           | (Inr VNone, s) \<Rightarrow> (Inr None, s)
           | (Inr v, s) \<Rightarrow> (Inr (Some v), s))"

text \<open>
  The engine's fallback: low-priority routes, a registered handler, the middleware chain around a
  404, and the default body.
\<close>

definition rust_404_handler ::
  "(req \<Rightarrow> val option ended \<times> req) \<Rightarrow> val handlers \<Rightarrow> bool \<Rightarrow> registry \<Rightarrow> req \<Rightarrow> val ended \<times> req"
where
  "rust_404_handler low_priority hs strip_shims g s =
     (case low_priority s of
        (Inl e, s) \<Rightarrow> (Inl e, s)
      | (Inr (Some v), s) \<Rightarrow> (Inr v, s)
      | (Inr None, s) \<Rightarrow>
          (case dispatch_404_via_handler hs (effects s) of
             (Some (Inl e), l) \<Rightarrow> (Inl e, s\<lparr>effects := l\<rparr>)
           | (Some (Inr v), l) \<Rightarrow> (Inr (case v of Some v \<Rightarrow> v | None \<Rightarrow> not_found_response), s\<lparr>effects := l\<rparr>)
           | (None, l) \<Rightarrow>
               (case dispatch_404_via_middleware strip_shims g s of
                  (Inl e, s) \<Rightarrow> (Inl e, s)
                | (Inr (Some v), s) \<Rightarrow> (Inr v, s)
                | (Inr None, s) \<Rightarrow> (Inr not_found_response, s))))"

section \<open>Order\<close>

text \<open>Sentry's entries form the end of the list, so that they are outermost once it is reversed.\<close>

definition sentry_last :: "registry \<Rightarrow> bool" where
  "sentry_last g \<longleftrightarrow>
     http_middlewares g =
       filter (\<lambda>e. \<not> esentry e) (http_middlewares g) @ filter esentry (http_middlewares g)"

lemma add_middleware_sentry_last: "sentry_last (add_middleware True a g)"
  by (simp add: sentry_last_def add_middleware_def keep_sentry_outermost_def)

text \<open>The entries of the chain that registering a class makes.\<close>

definition entries_of :: "mw_arg \<Rightarrow> chain_entry list" where
  "entries_of a =
     http_middlewares
       (add_middleware_impl a
          \<lparr>http_middlewares = [], middleware_stack = [], raw_asgi_middlewares = [],
           mw_registration_seq = 0, mw_registration_log = []\<rparr>)"

lemma impl_entries: "http_middlewares (add_middleware_impl a g) = http_middlewares g @ entries_of a"
  by (cases a) (simp_all add: entries_of_def push_tower_def push_http_def log_registration_def Let_def)

text \<open>
  However classes are registered, the chain keeps the order of registration among the others and
  puts Sentry outside of them.
\<close>

lemma registration_order:
  "http_middlewares (fold (add_middleware True) as (add_middleware True a g)) =
     filter (\<lambda>e. \<not> esentry e) (http_middlewares g @ concat (map entries_of (a # as))) @
     filter esentry (http_middlewares g @ concat (map entries_of (a # as)))"
proof (induction as arbitrary: a g)
  case Nil
  show ?case by (simp add: add_middleware_def keep_sentry_outermost_def impl_entries)
next
  case (Cons b as)
  show ?case
    by (simp add: Cons.IH)
      (simp add: add_middleware_def keep_sentry_outermost_def impl_entries)
qed

text \<open>Every class gets one place at most, and what the engine or the bridge gets is logged in order.\<close>

lemma one_place: "length (entries_of a) + length (middleware_stack (add_middleware_impl a g))
    = Suc (length (middleware_stack g))"
  by (cases a) (simp_all add: entries_of_def push_tower_def push_http_def log_registration_def Let_def)

definition numbered :: "registry \<Rightarrow> bool" where
  "numbered g \<longleftrightarrow>
     map (\<lambda>(_, _, n). n) (mw_registration_log g) = [1..<Suc (mw_registration_seq g)]"

lemma numbered_simps [simp]:
  "numbered (g\<lparr>http_middlewares := x\<rparr>) = numbered g"
  "numbered (g\<lparr>middleware_stack := y\<rparr>) = numbered g"
  "numbered (g\<lparr>raw_asgi_middlewares := z\<rparr>) = numbered g"
  by (simp_all add: numbered_def)

lemma numbered_log: "numbered g \<Longrightarrow> numbered (log_registration k a g)"
  by (simp add: numbered_def log_registration_def del: upt_Suc) simp

lemma add_middleware_numbered: "numbered g \<Longrightarrow> numbered (add_middleware inst a g)"
  by (cases a)
    (simp_all add: add_middleware_def keep_sentry_outermost_def push_tower_def push_http_def numbered_log Let_def)

text \<open>The decorator does not reorder: a function registered after Sentry ends up outside of it.\<close>

lemma decorator_buries_sentry:
  assumes "http_middlewares g = es @ [e]" and "esentry e"
  shows "\<exists>g'. middleware ''http'' f g = Inr g' \<and> \<not> sentry_last g'"
proof -
  have "filter (\<lambda>e. \<not> esentry e) (es @ [e, \<lparr>elink = f, esentry = False, eshim = False\<rparr>])
      @ filter esentry (es @ [e, \<lparr>elink = f, esentry = False, eshim = False\<rparr>])
      = (filter (\<lambda>e. \<not> esentry e) es @ [\<lparr>elink = f, esentry = False, eshim = False\<rparr>] @ filter esentry es) @ [e]"
    using assms(2) by simp
  moreover have "e \<noteq> \<lparr>elink = f, esentry = False, eshim = False\<rparr>" using assms(2) by auto
  ultimately show ?thesis
    using assms by (auto simp: middleware_def push_http_def sentry_last_def)
qed

text \<open>The host link stands first in the list, which makes it the innermost layer of the chain.\<close>

lemma host_dispatch_innermost:
  "onion (map elink (http_middlewares (install_host e False g))) handler =
     onion (map elink (http_middlewares g)) (around (elink e) handler)"
  by (simp add: install_host_def onion_def)

text \<open>A chain that does not suspend answers a routing miss as it would answer a handler that returns 404.\<close>

lemma await_chain_onion:
  assumes "\<forall>m\<in>set ms. coro_fn m \<or> coro_call m"
  shows "await_chain ms handler s = foldr around ms handler s"
  using assms
proof (induction ms arbitrary: s)
  case (Cons m ms)
  then have "await_chain ms handler = foldr around ms handler" by (intro ext) simp
  with Cons.prems show ?case by (simp add: around_def [of m "foldr around ms handler" s])
qed simp

lemma missing_route_passes_middleware:
  assumes "http_middlewares g \<noteq> []" and "\<forall>e\<in>set (http_middlewares g). coro_fn (elink e) \<or> coro_call (elink e)"
    and "onion (map elink (http_middlewares g)) (\<lambda>s. (Inr not_found_response, s)) s = (Inr (VResp c h b), t)"
  shows "rust_404_handler (\<lambda>s. (Inr None, s)) [] False g s = (Inr (VResp c h b), t)"
proof -
  have "await_chain (rev (map elink (http_middlewares g))) (\<lambda>s. (Inr not_found_response, s)) s = (Inr (VResp c h b), t)"
    using await_chain_onion [of "rev (map elink (http_middlewares g))"] assms(2,3)
    by (auto simp: onion_def foldr_conv_fold)
  with assms(1) show ?thesis
    by (simp add: rust_404_handler_def dispatch_404_via_handler_def dispatch_404_via_middleware_def)
qed

text \<open>The first registered host that matches serves the request, whatever the port and the case.\<close>

lemma match_host_first:
  "match_hosts es hs = Some sub \<longleftrightarrow>
     (\<exists>i<length es. snd (es ! i) = Some sub \<and> host_matches (py_lower (fst (es ! i))) hs \<and>
        (\<forall>j<i. snd (es ! j) = None \<or> \<not> host_matches (py_lower (fst (es ! j))) hs))"
proof (induction es hs rule: match_hosts.induct)
  case (2 hn es hs)
  then show ?case by (simp add: Ex_less_Suc2 All_less_Suc2)
next
  case (3 hn s es hs)
  then show ?case by (auto simp: Ex_less_Suc2 All_less_Suc2)
qed simp

lemma host_part_ignores_port:
  "CHR '':'' \<notin> set h \<Longrightarrow> host_part (h @ CHR '':'' # p) = host_part h"
  by (simp add: host_part_def takeWhile_tail)

end
