(* ===== verification/Json.thy ===== *)
theory Json
  imports Resp "HOL-Library.AList"
begin

text \<open>
  The part of Python's \<open>json\<close> module that the sources rely on: \<open>dumps\<close> with compact separators and
  \<open>ensure_ascii=False\<close>, and \<open>loads\<close>.  Text is a list of code points.  A float is represented by its
  literal.  Nesting beyond the interpreter's recursion limit is not represented.
\<close>

datatype jv =
    JNull
  | JBool bool
  | JInt int
  | JFloat codepoints
  | JStr codepoints
  | JList "jv list"
  | JObj "(codepoints \<times> jv) list"

abbreviation ascii :: "string \<Rightarrow> codepoints" where
  "ascii s \<equiv> map of_char s"

section \<open>Printing\<close>

definition hex_lower :: "nat \<Rightarrow> nat" where
  "hex_lower n = (if n < 10 then 48 + n else 87 + n)"

definition esc :: "nat \<Rightarrow> codepoints" where
  "esc c =
     (if c = 34 then [92, 34]
      else if c = 92 then [92, 92]
      else if c = 10 then [92, 110]
      else if c = 13 then [92, 114]
      else if c = 9 then [92, 116]
      else if c = 12 then [92, 102]
      else if c = 8 then [92, 98]
      else if c < 32 then [92, 117, 48, 48, hex_lower (c div 16), hex_lower (c mod 16)]
      else [c])"

definition jquote :: "codepoints \<Rightarrow> codepoints" where
  "jquote s = 34 # concat (map esc s) @ [34]"

fun joined :: "codepoints list \<Rightarrow> codepoints" where
  "joined [] = []"
| "joined [x] = x"
| "joined (x # y # ys) = x @ 44 # joined (y # ys)"

fun dumps :: "jv \<Rightarrow> codepoints" where
  "dumps JNull = ascii ''null''"
| "dumps (JBool b) = (if b then ascii ''true'' else ascii ''false'')"
| "dumps (JInt i) = ascii (dec_int i)"
| "dumps (JFloat t) = t"
| "dumps (JStr s) = jquote s"
| "dumps (JList xs) = 91 # joined (map dumps xs) @ [93]"
| "dumps (JObj kvs) = 123 # joined (map (\<lambda>(k, v). jquote k @ 58 # dumps v) kvs) @ [125]"

section \<open>Parsing\<close>

definition jws :: "nat \<Rightarrow> bool" where
  "jws c \<longleftrightarrow> c = 32 \<or> c = 9 \<or> c = 10 \<or> c = 13"

definition skip :: "codepoints \<Rightarrow> codepoints" where
  "skip s = dropWhile jws s"

definition hexval :: "nat \<Rightarrow> nat option" where
  "hexval c =
     (if 48 \<le> c \<and> c \<le> 57 then Some (c - 48)
      else if 97 \<le> c \<and> c \<le> 102 then Some (c - 87)
      else if 65 \<le> c \<and> c \<le> 70 then Some (c - 55)
      else None)"

definition hex4 :: "nat \<Rightarrow> nat \<Rightarrow> nat \<Rightarrow> nat \<Rightarrow> nat option" where
  "hex4 a b c d =
     (case (hexval a, hexval b, hexval c, hexval d) of
        (Some w, Some x, Some y, Some z) \<Rightarrow> Some (4096 * w + 256 * x + 16 * y + z)
      | _ \<Rightarrow> None)"

definition unescape :: "nat \<Rightarrow> nat option" where
  "unescape c =
     (if c = 34 \<or> c = 92 \<or> c = 47 then Some c
      else if c = 98 then Some 8
      else if c = 102 then Some 12
      else if c = 110 then Some 10
      else if c = 114 then Some 13
      else if c = 116 then Some 9
      else None)"

text \<open>The characters of a string after its opening quote, with the text after the closing one.\<close>

fun pstr :: "codepoints \<Rightarrow> (codepoints \<times> codepoints) option" where
  "pstr [] = None"
| "pstr (c # s) =
     (if c = 34 then Some ([], s)
      else if c = 92 then
        (case s of
           [] \<Rightarrow> None
         | e # r \<Rightarrow>
             if e = 117 then
               (case r of
                  h1 # h2 # h3 # h4 # r1 \<Rightarrow>
                    (case hex4 h1 h2 h3 h4 of
                       None \<Rightarrow> None
                     | Some u \<Rightarrow>
                         if 0xD800 \<le> u \<and> u \<le> 0xDBFF then
                           (case r1 of
                              p # q # l1 # l2 # l3 # l4 # r2 \<Rightarrow>
                                if p = 92 \<and> q = 117 then
                                  (case hex4 l1 l2 l3 l4 of
                                     None \<Rightarrow> None
                                   | Some v \<Rightarrow>
                                       if 0xDC00 \<le> v \<and> v \<le> 0xDFFF
                                       then map_option (apfst ((#) (0x10000 + (u - 0xD800) * 1024 + (v - 0xDC00)))) (pstr r2)
                                       else map_option (apfst ((#) u)) (pstr r1))
                                else map_option (apfst ((#) u)) (pstr r1)
                            | _ \<Rightarrow> map_option (apfst ((#) u)) (pstr r1))
                         else map_option (apfst ((#) u)) (pstr r1))
                | _ \<Rightarrow> None)
             else
               (case unescape e of None \<Rightarrow> None | Some x \<Rightarrow> map_option (apfst ((#) x)) (pstr r)))
      else if c < 32 then None
      else map_option (apfst ((#) c)) (pstr s))"

definition jdigit :: "nat \<Rightarrow> bool" where
  "jdigit c \<longleftrightarrow> 48 \<le> c \<and> c \<le> 57"

definition digits_val :: "codepoints \<Rightarrow> nat" where
  "digits_val ds = foldl (\<lambda>n d. 10 * n + (d - 48)) 0 ds"

definition frac_part :: "codepoints \<Rightarrow> codepoints" where
  "frac_part s =
     (case s of
        c # r \<Rightarrow> if c = 46 \<and> takeWhile jdigit r \<noteq> [] then c # takeWhile jdigit r else []
      | [] \<Rightarrow> [])"

definition exp_part :: "codepoints \<Rightarrow> codepoints" where
  "exp_part s =
     (case s of
        c # r \<Rightarrow>
          if c = 101 \<or> c = 69 then
            let sign = (case r of d # _ \<Rightarrow> if d = 43 \<or> d = 45 then [d] else [] | [] \<Rightarrow> []);
                ds = takeWhile jdigit (drop (length sign) r)
            in if ds \<noteq> [] then c # sign @ ds else []
          else []
      | [] \<Rightarrow> [])"

definition int_part :: "codepoints \<Rightarrow> codepoints" where
  "int_part s =
     (case s of
        [] \<Rightarrow> []
      | c # r \<Rightarrow> if c = 48 then [c] else takeWhile jdigit s)"

definition pnum :: "codepoints \<Rightarrow> (jv \<times> codepoints) option" where
  "pnum s =
     (let neg = (case s of c # _ \<Rightarrow> c = 45 | [] \<Rightarrow> False);
          s1 = (if neg then tl s else s);
          ip = int_part s1;
          fp = frac_part (drop (length ip) s1);
          ep = exp_part (drop (length ip + length fp) s1);
          rest = drop (length ip + length fp + length ep) s1
      in if ip = [] then None
         else if fp = [] \<and> ep = []
         then Some (JInt (if neg then - int (digits_val ip) else int (digits_val ip)), rest)
         else Some (JFloat ((if neg then [45] else []) @ ip @ fp @ ep), rest))"

definition keyword :: "string \<Rightarrow> jv \<Rightarrow> codepoints \<Rightarrow> (jv \<times> codepoints) option" where
  "keyword w v s = (if prefix (ascii w) s then Some (v, drop (length w) s) else None)"

definition patom :: "codepoints \<Rightarrow> (jv \<times> codepoints) option" where
  "patom s =
     List.find (\<lambda>_. True)
       (concat (map (\<lambda>r. case r of Some x \<Rightarrow> [x] | None \<Rightarrow> [])
         [keyword ''null'' JNull s, keyword ''true'' (JBool True) s, keyword ''false'' (JBool False) s, pnum s,
          keyword ''NaN'' (JFloat (ascii ''NaN'')) s, keyword ''Infinity'' (JFloat (ascii ''Infinity'')) s,
          keyword ''-Infinity'' (JFloat (ascii ''-Infinity'')) s]))"

text \<open>A dictionary keeps the place of the first occurrence of a key and its last value.\<close>

definition as_dict :: "(codepoints \<times> jv) list \<Rightarrow> (codepoints \<times> jv) list" where
  "as_dict kvs = foldl (\<lambda>d (k, v). AList.update k v d) [] kvs"

fun pval :: "nat \<Rightarrow> codepoints \<Rightarrow> (jv \<times> codepoints) option"
  and pelems :: "nat \<Rightarrow> codepoints \<Rightarrow> (jv list \<times> codepoints) option"
  and pmembers :: "nat \<Rightarrow> codepoints \<Rightarrow> ((codepoints \<times> jv) list \<times> codepoints) option"
where
  "pval 0 s = None"
| "pval (Suc n) s =
     (case s of
        [] \<Rightarrow> None
      | c # r \<Rightarrow>
          if c = 34 then map_option (apfst JStr) (pstr r)
          else if c = 123 then
            (case skip r of
               [] \<Rightarrow> None
             | x # r1 \<Rightarrow>
                 if x = 125 then Some (JObj [], r1)
                 else if x = 34 then map_option (apfst (\<lambda>kvs. JObj (as_dict kvs))) (pmembers n r1)
                 else None)
          else if c = 91 then
            (case skip r of
               [] \<Rightarrow> None
             | x # r1 \<Rightarrow>
                 if x = 93 then Some (JList [], r1) else map_option (apfst JList) (pelems n (x # r1)))
          else patom s)"
| "pelems 0 s = None"
| "pelems (Suc n) s =
     (case pval n s of
        None \<Rightarrow> None
      | Some (v, r) \<Rightarrow>
          (case skip r of
             [] \<Rightarrow> None
           | x # r1 \<Rightarrow>
               if x = 93 then Some ([v], r1)
               else if x = 44 then map_option (apfst ((#) v)) (pelems n (skip r1))
               else None))"
| "pmembers 0 s = None"
| "pmembers (Suc n) s =
     (case pstr s of
        None \<Rightarrow> None
      | Some (k, r) \<Rightarrow>
          (case skip r of
             [] \<Rightarrow> None
           | c # r1 \<Rightarrow>
               if c \<noteq> 58 then None
               else
                 (case pval n (skip r1) of
                    None \<Rightarrow> None
                  | Some (v, r2) \<Rightarrow>
                      (case skip r2 of
                         [] \<Rightarrow> None
                       | x # r3 \<Rightarrow>
                           if x = 125 then Some ([(k, v)], r3)
                           else if x = 44 then
                             (case skip r3 of
                                [] \<Rightarrow> None
                              | q # r4 \<Rightarrow> if q = 34 then map_option (apfst ((#) (k, v))) (pmembers n r4) else None)
                           else None))))"

text \<open>The text has to be one value between white space; its length bounds the calls.\<close>

definition loads :: "codepoints \<Rightarrow> jv option" where
  "loads s =
     (case pval (length s) (skip s) of
        Some (v, r) \<Rightarrow> if skip r = [] then Some v else None
      | None \<Rightarrow> None)"

section \<open>What is printed is read back\<close>

lemma hexval_lower [simp]: "n < 16 \<Longrightarrow> hexval (hex_lower n) = Some n"
  by (auto simp: hexval_def hex_lower_def)

lemma hex4_control: "c < 32 \<Longrightarrow> hex4 48 48 (hex_lower (c div 16)) (hex_lower (c mod 16)) = Some c"
proof -
  assume "c < 32"
  then have "c div 16 < 16" and "c mod 16 < 16" by auto
  moreover have "hexval 48 = Some 0" by (simp add: hexval_def)
  ultimately show ?thesis by (simp add: hex4_def)
qed

lemma pstr_esc: "pstr (esc c @ r) = map_option (apfst ((#) c)) (pstr r)"
proof (cases "c < 32 \<and> c \<notin> {8, 9, 10, 12, 13}")
  case True
  with hex4_control [of c] show ?thesis by (simp add: esc_def)
next
  case False
  then show ?thesis by (auto simp: esc_def unescape_def)
qed

lemma pstr_quoted: "pstr (concat (map esc s) @ 34 # r) = Some (s, r)"
  by (induction s) (simp_all add: pstr_esc)

lemma digits_val_snoc: "digits_val (ds @ [d]) = 10 * digits_val ds + (d - 48)"
  by (simp add: digits_val_def)

lemma of_digit_char: "k < 10 \<Longrightarrow> of_char (digit_char k) = 48 + k"
  by (simp add: digit_char_def)

lemma digits_val_dec_nat: "digits_val (ascii (dec_nat n)) = n"
proof (induction n rule: dec_nat.induct)
  case (1 n)
  show ?case
  proof (cases "n < 10")
    case True
    then show ?thesis by (simp add: dec_nat.simps [of n] digits_val_def of_digit_char)
  next
    case False
    with 1 have "digits_val (ascii (dec_nat (n div 10))) = n div 10" by simp
    with False show ?thesis
      by (simp add: dec_nat.simps [of n] digits_val_snoc of_digit_char)
  qed
qed

lemma dec_nat_digits: "c \<in> set (ascii (dec_nat n)) \<Longrightarrow> jdigit c"
  by (auto dest!: dec_nat_chars simp: of_digit_char jdigit_def)

lemma dec_nat_head:
  "\<exists>k cs. dec_nat n = digit_char k # cs \<and> k < 10 \<and> (k = 0 \<longrightarrow> cs = [])"
proof (induction n rule: dec_nat.induct)
  case (1 n)
  show ?case
  proof (cases "n < 10")
    case False
    with 1 obtain k cs where IH: "dec_nat (n div 10) = digit_char k # cs" "k < 10" "k = 0 \<longrightarrow> cs = []" by blast
    have "k \<noteq> 0"
    proof
      assume "k = 0"
      with IH have "dec_nat (n div 10) = [digit_char 0]" by simp
      then have "n div 10 = 0" using digits_val_dec_nat [of "n div 10"] by (simp add: digits_val_def of_digit_char)
      with False show False by simp
    qed
    with IH False show ?thesis
      by (intro exI [of _ k] exI [of _ "cs @ [digit_char (n mod 10)]"]) (simp add: dec_nat.simps [of n])
  qed (auto simp: dec_nat.simps [of n])
qed

text \<open>What may follow a value: no digit, point or exponent.\<close>

definition ends_value :: "codepoints \<Rightarrow> bool" where
  "ends_value r = (case r of [] \<Rightarrow> True | c # _ \<Rightarrow> \<not> jdigit c \<and> c \<noteq> 46 \<and> c \<noteq> 101 \<and> c \<noteq> 69)"

lemma ends_value_parts: "ends_value r \<Longrightarrow> frac_part r = [] \<and> exp_part r = [] \<and> takeWhile jdigit r = []"
  by (cases r) (auto simp: ends_value_def frac_part_def exp_part_def)

lemma int_part_dec_nat: "ends_value r \<Longrightarrow> int_part (ascii (dec_nat n) @ r) = ascii (dec_nat n)"
proof -
  assume r: "ends_value r"
  obtain k cs where n: "dec_nat n = digit_char k # cs" and k: "k < 10" "k = 0 \<longrightarrow> cs = []"
    using dec_nat_head by blast
  have "takeWhile jdigit (ascii (dec_nat n) @ r) = ascii (dec_nat n)"
    using takeWhile_append2 [of "ascii (dec_nat n)" jdigit r] dec_nat_digits ends_value_parts [OF r] by auto
  with n k show ?thesis by (cases "k = 0") (simp_all add: int_part_def of_digit_char)
qed

lemma pnum_dec_int: "ends_value r \<Longrightarrow> pnum (ascii (dec_int i) @ r) = Some (JInt i, r)"
proof -
  assume r: "ends_value r"
  obtain k cs where n: "dec_nat (nat i) = digit_char k # cs" "k < 10" using dec_nat_head by blast
  have ne: "ascii (dec_nat m) \<noteq> []" for m using dec_nat_head [of m] by auto
  have drop: "drop (length (ascii (dec_nat m))) (ascii (dec_nat m) @ r) = r" for m by simp
  show ?thesis
  proof (cases "i < 0")
    case True
    then show ?thesis
      using int_part_dec_nat [OF r] ends_value_parts [OF r] ne
      by (simp add: dec_int_def pnum_def Let_def digits_val_dec_nat)
  next
    case False
    have "(case ascii (dec_nat (nat i)) @ r of c # _ \<Rightarrow> c = 45 | [] \<Rightarrow> False) = False"
      using n by (simp add: of_digit_char)
    with False show ?thesis
      using int_part_dec_nat [OF r] ends_value_parts [OF r] ne
      by (simp add: dec_int_def pnum_def digits_val_dec_nat)
  qed
qed

lemma skip_nonws: "\<not> jws c \<Longrightarrow> skip (c # s) = c # s"
  by (simp add: skip_def)

lemma skip_punct [simp]:
  "skip (34 # s) = 34 # s" "skip (44 # s) = 44 # s" "skip (58 # s) = 58 # s" "skip (91 # s) = 91 # s"
  "skip (93 # s) = 93 # s" "skip (123 # s) = 123 # s" "skip (125 # s) = 125 # s" "skip [] = []"
  by (simp_all add: skip_def jws_def)

lemma ends_value_punct [simp]:
  "ends_value (44 # s)" "ends_value (93 # s)" "ends_value (125 # s)" "ends_value []"
  by (simp_all add: ends_value_def jdigit_def)

lemma dumps_head:
  assumes "v \<noteq> JFloat []"
  shows "dumps v \<noteq> []"
proof -
  have "dec_nat n \<noteq> []" for n using dec_nat_head [of n] by auto
  with assms show ?thesis by (cases v) (auto simp: jquote_def dec_int_def)
qed

text \<open>Values that \<open>dumps\<close> prints as JSON: encodable text, distinct keys, no floats.\<close>

fun jwf :: "jv \<Rightarrow> bool" where
  "jwf (JFloat t) = False"
| "jwf (JStr s) = list_all valid_cp s"
| "jwf (JList xs) = list_all jwf xs"
| "jwf (JObj kvs) = (distinct (map fst kvs) \<and> list_all (\<lambda>(k, v). list_all valid_cp k \<and> jwf v) kvs)"
| "jwf _ = True"

lemma dumps_no_ws: "jwf v \<Longrightarrow> skip (dumps v @ r) = dumps v @ r"
proof (cases v)
  case (JInt i)
  obtain k cs where "dec_nat (nat \<bar>i\<bar>) = digit_char k # cs" "k < 10" using dec_nat_head by blast
  with JInt show ?thesis
    by (cases "i < 0") (auto simp: dec_int_def skip_def jws_def of_digit_char)
qed (auto simp: jquote_def skip_def jws_def)

lemma patom_dumps:
  assumes "ends_value r"
  shows "patom (ascii ''null'' @ r) = Some (JNull, r)"
    and "patom (ascii ''true'' @ r) = Some (JBool True, r)"
    and "patom (ascii ''false'' @ r) = Some (JBool False, r)"
    and "patom (ascii (dec_int i) @ r) = Some (JInt i, r)"
proof -
  show "patom (ascii ''null'' @ r) = Some (JNull, r)" "patom (ascii ''true'' @ r) = Some (JBool True, r)"
    "patom (ascii ''false'' @ r) = Some (JBool False, r)"
    by (simp_all add: patom_def keyword_def)
  obtain k cs where n: "dec_nat (nat \<bar>i\<bar>) = digit_char k # cs" "k < 10" using dec_nat_head by blast
  have "keyword w v (ascii (dec_int i) @ r) = None" if "w \<in> {''null'', ''true'', ''false''}" for w v
    using that n by (cases "i < 0") (auto simp: keyword_def dec_int_def of_digit_char)
  with pnum_dec_int [OF assms] show "patom (ascii (dec_int i) @ r) = Some (JInt i, r)"
    by (simp add: patom_def)
qed

lemma as_dict_distinct: "distinct (map fst kvs) \<Longrightarrow> as_dict kvs = kvs"
proof -
  have "foldl (\<lambda>d (k, v). AList.update k v d) d kvs = d @ kvs"
    if "distinct (map fst (d @ kvs))" for d
    using that
  proof (induction kvs arbitrary: d)
    case (Cons kv kvs)
    obtain k v where kv: "kv = (k, v)" by fastforce
    with Cons.prems have "k \<notin> fst ` set d" by auto
    then have "AList.update k v d = d @ [(k, v)]" by (induction d) auto
    with Cons kv show ?case by simp
  qed simp
  from this [of "[]"] show "distinct (map fst kvs) \<Longrightarrow> as_dict kvs = kvs" by (simp add: as_dict_def)
qed

text \<open>\<open>reads v\<close>: whatever follows it, the printed value is read back, given fuel for its length.\<close>

definition reads :: "jv \<Rightarrow> bool" where
  "reads v \<longleftrightarrow> (\<forall>n r. length (dumps v) \<le> n \<longrightarrow> ends_value r \<longrightarrow> pval n (dumps v @ r) = Some (v, r))"

lemma readsD: "reads v \<Longrightarrow> length (dumps v) \<le> n \<Longrightarrow> ends_value r \<Longrightarrow> pval n (dumps v @ r) = Some (v, r)"
  by (simp add: reads_def)

lemma joined_nonempty: "xs \<noteq> [] \<Longrightarrow> joined (x # xs) = x @ 44 # joined xs"
  by (cases xs) simp_all

lemma pelems_reads:
  assumes "\<forall>v\<in>set vs. reads v \<and> jwf v" and "vs \<noteq> []" and "length (joined (map dumps vs)) < n"
  shows "pelems n (joined (map dumps vs) @ 93 # r) = Some (vs, r)"
  using assms
proof (induction vs arbitrary: n)
  case (Cons v vs)
  then obtain m where n: "n = Suc m" by (cases n) auto
  show ?case
  proof (cases "vs = []")
    case True
    with Cons.prems n readsD [of v m "93 # r"] show ?thesis by simp
  next
    case False
    then have j: "joined (map dumps (v # vs)) = dumps v @ 44 # joined (map dumps vs)"
      by (simp add: joined_nonempty)
    have "pval m (dumps v @ 44 # joined (map dumps vs) @ 93 # r) = Some (v, 44 # joined (map dumps vs) @ 93 # r)"
      using Cons.prems n j by (intro readsD) auto
    moreover have "skip (joined (map dumps vs) @ 93 # r) = joined (map dumps vs) @ 93 # r"
    proof -
      obtain w ws where "vs = w # ws" using False by (cases vs) auto
      with Cons.prems dumps_no_ws [of w] show ?thesis by (cases ws) auto
    qed
    moreover have "pelems m (joined (map dumps vs) @ 93 # r) = Some (vs, r)"
      using Cons.prems n j False by (intro Cons.IH) auto
    ultimately show ?thesis using n j by simp
  qed
qed simp

lemma pmembers_reads:
  assumes "\<forall>kv\<in>set kvs. reads (snd kv) \<and> jwf (snd kv)" and "kvs \<noteq> []"
    and "length (joined (map (\<lambda>(k, v). jquote k @ 58 # dumps v) kvs)) < n"
  shows "\<exists>t. joined (map (\<lambda>(k, v). jquote k @ 58 # dumps v) kvs) @ 125 # r = 34 # t \<and>
    pmembers n t = Some (kvs, r)"
  using assms
proof (induction kvs arbitrary: n)
  case (Cons kv kvs)
  obtain k v where kv: "kv = (k, v)" by fastforce
  obtain m where n: "n = Suc m" using Cons.prems by (cases n) auto
  have v: "reads v" "jwf v" using Cons.prems kv by auto
  have key: "pstr (concat (map esc k) @ 34 # s) = Some (k, s)" for s by (rule pstr_quoted)
  show ?case
  proof (cases "kvs = []")
    case True
    with Cons.prems n kv have "pval m (dumps v @ 125 # r) = Some (v, 125 # r)"
      by (intro readsD v) auto
    then show ?thesis using True n kv key dumps_no_ws [OF v(2), of "125 # r"]
      by (simp add: jquote_def)
  next
    case False
    let ?rest = "joined (map (\<lambda>(k, v). jquote k @ 58 # dumps v) kvs)"
    have j: "joined (map (\<lambda>(k, v). jquote k @ 58 # dumps v) (kv # kvs)) = jquote k @ 58 # dumps v @ 44 # ?rest"
      using False kv by (simp add: joined_nonempty)
    then have len: "length ?rest < m" "length (dumps v) \<le> m" using Cons.prems n by auto
    have "\<exists>t. ?rest @ 125 # r = 34 # t \<and> pmembers m t = Some (kvs, r)"
      using Cons.prems False len by (intro Cons.IH) auto
    then obtain t where t: "?rest @ 125 # r = 34 # t" "pmembers m t = Some (kvs, r)" by blast
    have "pval m (dumps v @ 44 # 34 # t) = Some (v, 44 # 34 # t)" by (intro readsD v len) simp
    with t n kv key dumps_no_ws [OF v(2)] j show ?thesis by (simp add: jquote_def)
  qed
qed simp

lemma jwf_reads: "jwf v \<Longrightarrow> reads v"
proof (induction v rule: dumps.induct)
  case 1
  show ?case by (auto simp: reads_def patom_dumps(1) [simplified] neq_Nil_conv elim!: less_natE dest!: Suc_le_D)
next
  case (2 b)
  show ?case by (auto simp: reads_def patom_dumps(2,3) [simplified] dest!: Suc_le_D)
next
  case (3 i)
  obtain k cs where d: "dec_nat (nat \<bar>i\<bar>) = digit_char k # cs" "k < 10" using dec_nat_head by blast
  show ?case
  proof (unfold reads_def, intro allI impI)
    fix n r
    assume n: "length (dumps (JInt i)) \<le> n" and r: "ends_value r"
    have "\<exists>c s. ascii (dec_int i) @ r = c # s \<and> c \<noteq> 34 \<and> c \<noteq> 123 \<and> c \<noteq> 91"
      using d by (cases "i < 0") (simp_all add: dec_int_def of_digit_char)
    moreover from n d obtain m where "n = Suc m" by (cases n) (auto simp: dec_int_def split: if_splits)
    ultimately show "pval n (dumps (JInt i) @ r) = Some (JInt i, r)" using patom_dumps(4) [OF r, of i] by auto
  qed
next
  case (4 t)
  then show ?case by simp
next
  case (5 s)
  show ?case by (auto simp: reads_def jquote_def pstr_quoted dest!: Suc_le_D)
next
  case (6 xs)
  then have xs: "\<forall>v\<in>set xs. reads v \<and> jwf v" by (auto simp: list_all_iff)
  show ?case
  proof (unfold reads_def, intro allI impI)
    fix n r
    assume n: "length (dumps (JList xs)) \<le> n"
    then obtain m where m: "n = Suc m" "length (joined (map dumps xs)) < m" by (cases n) auto
    show "pval n (dumps (JList xs) @ r) = Some (JList xs, r)"
    proof (cases xs)
      case (Cons w ws)
      have sk: "skip (joined (map dumps xs) @ 93 # r) = joined (map dumps xs) @ 93 # r"
        using Cons xs dumps_no_ws [of w] by (cases ws) auto
      have "\<exists>c s. dumps w = c # s \<and> c \<noteq> 93"
        using xs Cons dec_nat_head [of "nat \<bar>case w of JInt i \<Rightarrow> i | _ \<Rightarrow> 0\<bar>"]
        by (cases w) (auto simp: jquote_def dec_int_def of_digit_char)
      then obtain c s where "joined (map dumps xs) @ 93 # r = c # s" "c \<noteq> 93"
        using Cons by (cases ws) auto
      with pelems_reads [OF xs _ m(2), of r] Cons sk m(1) show ?thesis by simp
    qed (use m in simp)
  qed
next
  case (7 kvs)
  then have kvs: "\<forall>kv\<in>set kvs. reads (snd kv) \<and> jwf (snd kv)" by (fastforce simp: list_all_iff)
  show ?case
  proof (unfold reads_def, intro allI impI)
    fix n r
    assume n: "length (dumps (JObj kvs)) \<le> n"
    then obtain m where m: "n = Suc m" "length (joined (map (\<lambda>(k, v). jquote k @ 58 # dumps v) kvs)) < m"
      by (cases n) auto
    show "pval n (dumps (JObj kvs) @ r) = Some (JObj kvs, r)"
    proof (cases "kvs = []")
      case False
      from pmembers_reads [OF kvs this m(2), of r] m(1) 7 show ?thesis
        by (auto simp: as_dict_distinct)
    qed (use m in simp)
  qed
qed

lemma loads_dumps: "jwf v \<Longrightarrow> loads (dumps v) = Some v"
  using readsD [OF jwf_reads, of v "length (dumps v)" "[]"] dumps_no_ws [of v "[]"]
  by (simp add: loads_def)

lemma dumps_valid: "jwf v \<Longrightarrow> list_all valid_cp (dumps v)"
proof -
  have esc: "list_all valid_cp (esc c)" if "valid_cp c" for c
    using that by (auto simp: esc_def valid_cp_def hex_lower_def)
  then have quote: "list_all valid_cp (jquote s)" if "list_all valid_cp s" for s
    using that by (induction s) (auto simp: jquote_def valid_cp_def)
  have dec: "list_all valid_cp (ascii (dec_int i))" for i
  proof -
    have "c < 128" if "c \<in> set (ascii (dec_int i))" for c
      using that by (auto dest!: dec_int_chars simp: is_digit_def)
    then show ?thesis by (fastforce simp: list_all_iff valid_cp_def)
  qed
  have join: "list_all valid_cp (joined xs)" if "list_all (list_all valid_cp) xs" for xs
    using that by (induction xs rule: joined.induct) (auto simp: valid_cp_def)
  show "jwf v \<Longrightarrow> list_all valid_cp (dumps v)"
  proof (induction v rule: dumps.induct)
    case (6 xs)
    then have "list_all (list_all valid_cp) (map dumps xs)" by (auto simp: list_all_iff)
    from join [OF this] show ?case by (simp add: valid_cp_def [of 91] valid_cp_def [of 93])
  next
    case (7 kvs)
    then have "list_all (list_all valid_cp) (map (\<lambda>(k, v). jquote k @ 58 # dumps v) kvs)"
      using quote by (fastforce simp: list_all_iff valid_cp_def)
    from join [OF this] show ?case by (simp add: valid_cp_def [of 123] valid_cp_def [of 125])
  qed (use quote dec in \<open>auto simp: valid_cp_def\<close>)
qed

end
