(* ===== verification/Session_Cookie.thy ===== *)
theory Session_Cookie
  imports Json
begin

text \<open>
  Signed cookie sessions (\<open>middleware/sessions.py\<close>): the cookie format, its verification, and the
  middleware that loads the session before the request and stores it after.  HMAC-SHA256, the cookie
  parser and the decoding of JSON that is not UTF-8 are parameters.
\<close>

section \<open>URL-safe base64\<close>

definition b64_char :: "nat \<Rightarrow> char" where
  "b64_char n =
     (if n < 26 then char_of (65 + n)
      else if n < 52 then char_of (71 + n)
      else if n < 62 then char_of (n - 4)
      else if n = 62 then CHR ''-'' else CHR ''_'')"

text \<open>Decoding maps \<open>-\<close> and \<open>_\<close> to \<open>+\<close> and \<open>/\<close> first, so that it takes both alphabets.\<close>

definition b64_val :: "char \<Rightarrow> nat option" where
  "b64_val c =
     (let n = of_char c
      in if 65 \<le> n \<and> n \<le> 90 then Some (n - 65)
         else if 97 \<le> n \<and> n \<le> 122 then Some (n - 71)
         else if 48 \<le> n \<and> n \<le> 57 then Some (n + 4)
         else if c = CHR ''-'' \<or> c = CHR ''+'' then Some 62
         else if c = CHR ''_'' \<or> c = CHR ''/'' then Some 63
         else None)"

fun b64_digits :: "nat list \<Rightarrow> nat list" where
  "b64_digits [] = []"
| "b64_digits [a] = [a div 4, (a mod 4) * 16]"
| "b64_digits [a, b] = [a div 4, (a mod 4) * 16 + b div 16, (b mod 16) * 4]"
| "b64_digits (a # b # c # r) =
     [a div 4, (a mod 4) * 16 + b div 16, (b mod 16) * 4 + c div 64, c mod 64] @ b64_digits r"

definition pad :: "nat \<Rightarrow> bytes" where
  "pad len = replicate ((4 - len mod 4) mod 4) (CHR ''='')"

definition urlsafe_b64encode :: "bytes \<Rightarrow> bytes" where
  "urlsafe_b64encode s =
     (let ds = b64_digits (map of_char s) in map b64_char ds @ pad (length ds))"

text \<open>
  \<open>binascii.a2b_base64\<close> without validation: characters outside the alphabet are skipped, a complete
  padding ends the input, and a left-over group is an error.  \<open>q\<close> is the position in the group,
  \<open>lft\<close> the bits carried over, \<open>pads\<close> the padding seen in a row.
\<close>

fun a2b :: "nat \<Rightarrow> nat \<Rightarrow> nat \<Rightarrow> bytes \<Rightarrow> nat list option" where
  "a2b q lft pads [] = (if q = 0 then Some [] else None)"
| "a2b q lft pads (c # cs) =
     (if c = CHR ''='' then
        (if 2 \<le> q then (if 4 \<le> q + Suc pads then Some [] else a2b q lft (Suc pads) cs) else a2b q lft pads cs)
      else
        (case b64_val c of
           None \<Rightarrow> a2b q lft pads cs
         | Some v \<Rightarrow>
             if q = 0 then a2b 1 v 0 cs
             else if q = 1 then map_option ((#) (lft * 4 + v div 16)) (a2b 2 (v mod 16) 0 cs)
             else if q = 2 then map_option ((#) (lft * 16 + v div 4)) (a2b 3 (v mod 4) 0 cs)
             else map_option ((#) (lft * 64 + v)) (a2b 0 0 0 cs)))"

definition urlsafe_b64decode :: "bytes \<Rightarrow> bytes option" where
  "urlsafe_b64decode s = map_option (map char_of) (a2b 0 0 0 s)"

lemma b64_val_char [simp]: "n < 64 \<Longrightarrow> b64_val (b64_char n) = Some n"
  by (auto simp: b64_char_def b64_val_def Let_def)

lemma b64_char_plain:
  assumes "n < 64"
  shows "b64_char n \<noteq> CHR ''=''" and "b64_char n \<noteq> CHR ''.''" and "of_char (b64_char n) < (128 :: nat)"
proof -
  have "b64_val (b64_char n) \<noteq> None" using assms by simp
  moreover have "b64_val (CHR ''='') = None" and "b64_val (CHR ''.'') = None"
    by (simp_all add: b64_val_def)
  ultimately show "b64_char n \<noteq> CHR ''=''" and "b64_char n \<noteq> CHR ''.''" by metis+
  show "of_char (b64_char n) < (128 :: nat)" using assms by (auto simp: b64_char_def)
qed

lemma b64_digits_lt: "\<forall>b\<in>set bs. b < 256 \<Longrightarrow> d \<in> set (b64_digits bs) \<Longrightarrow> d < 64"
proof (induction bs rule: b64_digits.induct)
  case (2 a)
  then show ?case by auto
next
  case (3 a b)
  then have "(a mod 4) * 16 + b div 16 < 64" "a div 4 < 64" "(b mod 16) * 4 < 64" by auto
  with 3 show ?case by auto
next
  case (4 a b c r)
  then have "(a mod 4) * 16 + b div 16 < 64" "a div 4 < 64" "(b mod 16) * 4 + c div 64 < 64" by auto
  with 4 show ?case by auto
qed simp

lemma a2b_Some:
  "v < 64 \<Longrightarrow> a2b q l p (b64_char v # cs) =
     (if q = 0 then a2b 1 v 0 cs
      else if q = 1 then map_option ((#) (l * 4 + v div 16)) (a2b 2 (v mod 16) 0 cs)
      else if q = 2 then map_option ((#) (l * 16 + v div 4)) (a2b 3 (v mod 4) 0 cs)
      else map_option ((#) (l * 64 + v)) (a2b 0 0 0 cs))"
  by (simp add: b64_char_plain(1))

lemma pad_2: "pad 2 = [CHR ''='', CHR ''='']" and pad_3: "pad 3 = [CHR ''='']"
  by code_simp+

lemma a2b_pad: "a2b 2 l 0 [CHR ''='', CHR ''=''] = Some []" "a2b 3 l 0 [CHR ''=''] = Some []"
  by simp_all

lemma a2b_digits:
  assumes "\<forall>b\<in>set bs. b < 256"
  shows "a2b 0 l p (map b64_char (b64_digits bs) @ pad (length (b64_digits bs))) = Some bs"
  using assms
proof (induction bs arbitrary: l p rule: b64_digits.induct)
  case 1
  show ?case by (simp add: pad_def)
next
  case (2 a)
  then have "a div 4 < 64" "(a mod 4) * 16 < 64" by auto
  moreover have "length (b64_digits [a]) = 2" by simp
  ultimately show ?case
    unfolding \<open>length (b64_digits [a]) = 2\<close> pad_2 by (simp add: a2b_Some a2b_pad del: a2b.simps(2))
next
  case (3 a b)
  then have "a div 4 < 64" "(a mod 4) * 16 + b div 16 < 64" "(b mod 16) * 4 < 64" by auto
  moreover have "((a mod 4) * 16 + b div 16) div 16 = a mod 4" "((a mod 4) * 16 + b div 16) mod 16 = b div 16"
    using 3 by auto
  moreover have len: "length (b64_digits [a, b]) = 3" by simp
  ultimately show ?case unfolding len pad_3 by (simp add: a2b_Some a2b_pad del: a2b.simps(2))
next
  case (4 a b c r)
  then have "a div 4 < 64" "(a mod 4) * 16 + b div 16 < 64" "(b mod 16) * 4 + c div 64 < 64" "c mod 64 < 64" by auto
  moreover have "((a mod 4) * 16 + b div 16) div 16 = a mod 4" "((a mod 4) * 16 + b div 16) mod 16 = b div 16"
    "((b mod 16) * 4 + c div 64) div 4 = b mod 16" "((b mod 16) * 4 + c div 64) mod 4 = c div 64"
    using 4 by auto
  moreover have "pad (length (b64_digits (a # b # c # r))) = pad (length (b64_digits r))"
    by (simp add: pad_def)
  ultimately show ?case using 4 by (simp add: a2b_Some del: a2b.simps(2))
qed

lemma byte_lt: "\<forall>b\<in>set (map of_char s). (b :: nat) < 256"
  by (auto simp: of_char_def)

lemma urlsafe_b64_roundtrip:
  "urlsafe_b64decode (map b64_char (b64_digits (map of_char s)) @ pad (length (b64_digits (map of_char s)))) = Some s"
proof -
  from a2b_digits [OF byte_lt] show ?thesis by (simp add: urlsafe_b64decode_def comp_def)
qed

text \<open>The encoded text without its padding, as the cookie carries it.\<close>

definition b64_plain :: "bytes \<Rightarrow> bytes" where
  "b64_plain s = rstrip_by (\<lambda>c. c = CHR ''='') (urlsafe_b64encode s)"

lemma b64_plain_eq: "b64_plain s = map b64_char (b64_digits (map of_char s))"
proof -
  have no_eq: "c \<noteq> CHR ''=''" if "c \<in> set (map b64_char (b64_digits (map of_char s)))" for c
    using that b64_digits_lt [OF byte_lt] b64_char_plain(1) by auto
  have strip: "rstrip_by (\<lambda>c. c = CHR ''='') (xs @ replicate n (CHR ''='')) = xs"
    if "\<forall>c\<in>set xs. c \<noteq> CHR ''=''" for xs n
  proof (induction n)
    case 0
    show ?case using that by (cases xs rule: rev_cases) (simp_all add: rstrip_by_append_keep, simp add: rstrip_by_def)
  next
    case (Suc n)
    have "xs @ replicate (Suc n) (CHR ''='') = (xs @ replicate n (CHR ''='')) @ [CHR ''='']"
      by (simp add: replicate_append_same)
    with Suc show ?case by (simp only: rstrip_by_snoc_drop)
  qed
  show ?thesis
    using strip no_eq by (simp add: b64_plain_def urlsafe_b64encode_def Let_def pad_def)
qed

lemma b64_plain_decode: "urlsafe_b64decode (b64_plain s @ pad (length (b64_plain s))) = Some s"
  using urlsafe_b64_roundtrip by (simp add: b64_plain_eq)

lemma b64_plain_chars: "c \<in> set (b64_plain s) \<Longrightarrow> c \<noteq> CHR ''.'' \<and> of_char c < (128 :: nat)"
proof -
  show "c \<in> set (b64_plain s) \<Longrightarrow> c \<noteq> CHR ''.'' \<and> of_char c < (128 :: nat)"
    using b64_digits_lt [OF byte_lt] b64_char_plain(2,3) by (auto simp: b64_plain_eq)
qed

section \<open>JSON of bytes\<close>

text \<open>
  \<open>json.loads\<close> of bytes: the encoding is guessed from byte order marks and zero bytes; text that is
  not strict UTF-8 is left to the parameter \<open>other\<close>.
\<close>

definition plain_utf8 :: "bytes \<Rightarrow> bool" where
  "plain_utf8 b \<longleftrightarrow>
     \<not> prefix [CHR 0xFF, CHR 0xFE] b \<and> \<not> prefix [CHR 0xFE, CHR 0xFF] b \<and> \<not> prefix [CHR 0xEF, CHR 0xBB, CHR 0xBF] b \<and>
     (4 \<le> length b \<or> length b = 2 \<longrightarrow> CHR 0x00 \<notin> set (take 2 b))"

definition json_loads :: "(bytes \<Rightarrow> jv option) \<Rightarrow> bytes \<Rightarrow> jv option" where
  "json_loads other b =
     (if plain_utf8 b then (case utf8_decode b of Inr s \<Rightarrow> loads s | Inl _ \<Rightarrow> other b) else other b)"

definition json_dumps :: "jv \<Rightarrow> bytes py" where
  "json_dumps v = utf8_encode (dumps v)"

section \<open>The cookie\<close>

record session_env =
  mac :: "bytes \<Rightarrow> bytes \<Rightarrow> bytes"
  other_json :: "bytes \<Rightarrow> jv option"
  zero_float :: "codepoints \<Rightarrow> bool"
  load_cookies :: "string \<Rightarrow> (string \<times> string) list"

record session_cfg =
  secret_key :: bytes
  session_cookie :: string
  max_age :: "int option"
  path :: string
  same_site :: string
  https_only :: bool
  domain :: "string option"

abbreviation dot :: char where
  "dot \<equiv> CHR ''.''"

definition encode_session :: "session_env \<Rightarrow> session_cfg \<Rightarrow> int \<Rightarrow> jv \<Rightarrow> string py" where
  "encode_session env cfg now data =
     (case json_dumps data of
        Inl e \<Rightarrow> Inl e
      | Inr raw \<Rightarrow>
          let payload = b64_plain raw @ dot # dec_int now
          in Inr (payload @ dot # b64_plain (mac env (secret_key cfg) payload)))"

definition fresh_enough :: "session_cfg \<Rightarrow> int \<Rightarrow> bytes \<Rightarrow> bool" where
  "fresh_enough cfg now ts =
     (case max_age cfg of
        None \<Rightarrow> True
      | Some a \<Rightarrow> (case py_int ts of Inl _ \<Rightarrow> False | Inr t \<Rightarrow> now - t \<le> a))"

text \<open>Every exception inside \<open>_decode\<close> becomes \<open>None\<close>.\<close>

definition decode_session :: "session_env \<Rightarrow> session_cfg \<Rightarrow> int \<Rightarrow> string \<Rightarrow> jv option" where
  "decode_session env cfg now v =
     (if \<not> list_all (\<lambda>c. of_char c < (128 :: nat)) v then None
      else
        case split_on dot v of
          [b64, ts, sig_b64] \<Rightarrow>
            (case urlsafe_b64decode (sig_b64 @ pad (length sig_b64)) of
               None \<Rightarrow> None
             | Some actual \<Rightarrow>
                 if mac env (secret_key cfg) (b64 @ dot # ts) \<noteq> actual then None
                 else if \<not> fresh_enough cfg now ts then None
                 else Option.bind (urlsafe_b64decode (b64 @ pad (length b64))) (json_loads (other_json env)))
        | _ \<Rightarrow> None)"

section \<open>The middleware\<close>

fun truthy :: "session_env \<Rightarrow> jv \<Rightarrow> bool" where
  "truthy env JNull = False"
| "truthy env (JBool b) = b"
| "truthy env (JInt i) = (i \<noteq> 0)"
| "truthy env (JFloat t) = (\<not> zero_float env t)"
| "truthy env (JStr s) = (s \<noteq> [])"
| "truthy env (JList xs) = (xs \<noteq> [])"
| "truthy env (JObj kvs) = (kvs \<noteq> [])"

definition load_session :: "session_env \<Rightarrow> session_cfg \<Rightarrow> int \<Rightarrow> string \<Rightarrow> jv" where
  "load_session env cfg now cookie_header =
     (if cookie_header = [] then JObj []
      else
        case map_of (load_cookies env cookie_header) (session_cookie cfg) of
          None \<Rightarrow> JObj []
        | Some v \<Rightarrow>
            (case decode_session env cfg now v of
               None \<Rightarrow> JObj []
             | Some d \<Rightarrow> if truthy env d then d else JObj []))"

definition capitalize :: "string \<Rightarrow> string" where
  "capitalize s =
     (case s of
        [] \<Rightarrow> []
      | c # cs \<Rightarrow>
          (let n = of_char c :: nat in if 97 \<le> n \<and> n \<le> 122 then char_of (n - 32) else c) # py_lower cs)"

fun join_parts :: "string list \<Rightarrow> string" where
  "join_parts [] = []"
| "join_parts [x] = x"
| "join_parts (x # y # ys) = x @ ''; '' @ join_parts (y # ys)"

definition attach_cookie :: "session_cfg \<Rightarrow> string \<Rightarrow> bool \<Rightarrow> string" where
  "attach_cookie cfg value clear =
     join_parts
       ([session_cookie cfg @ ''='' @ (if clear then [] else value)] @
        (if clear then [''Max-Age=0'']
         else (case max_age cfg of Some a \<Rightarrow> [''Max-Age='' @ dec_int a] | None \<Rightarrow> [])) @
        [''Path='' @ path cfg] @
        (case domain cfg of Some (c # d) \<Rightarrow> [''Domain='' @ c # d] | _ \<Rightarrow> []) @
        (if https_only cfg then [''Secure''] else []) @
        [''HttpOnly'', ''SameSite='' @ capitalize (same_site cfg)])"

text \<open>
  Dictionaries are objects: the request's \<open>scope["session"]\<close> and the local \<open>initial\<close> of the middleware
  are two names of object 0 until the application rebinds the scope.  The application is a function
  of the objects that returns the objects, what the scope refers to, and how it ended.  The result
  is the \<open>Set-Cookie\<close> header, if any, as the value and whether it clears.
\<close>

type_synonym 'r app = "(nat \<Rightarrow> jv) \<Rightarrow> (nat \<Rightarrow> jv) \<times> nat option \<times> (py_exn + 'r)"

definition session_call ::
  "session_env \<Rightarrow> session_cfg \<Rightarrow> int \<Rightarrow> int \<Rightarrow> string \<Rightarrow> 'r app \<Rightarrow> py_exn + 'r \<times> (string \<times> bool) option"
where
  "session_call env cfg now later cookie_header app =
     (case app ((\<lambda>_. JObj [])(0 := load_session env cfg now cookie_header)) of
        (heap, ref, Inl e) \<Rightarrow> Inl e
      | (heap, ref, Inr r) \<Rightarrow>
          let session = (case ref of Some a \<Rightarrow> heap a | None \<Rightarrow> JObj []);
              initial = heap 0
          in if truthy env session \<or> truthy env initial
             then (case encode_session env cfg later session of
                     Inl e \<Rightarrow> Inl e
                   | Inr v \<Rightarrow> Inr (r, Some (v, \<not> truthy env session)))
             else Inr (r, None))"

text \<open>What the browser keeps of the cookie.\<close>

definition jar_after :: "string option \<Rightarrow> (string \<times> bool) option \<Rightarrow> string option" where
  "jar_after jar h = (case h of None \<Rightarrow> jar | Some (v, clear) \<Rightarrow> if clear then None else Some v)"

section \<open>What the cookie carries\<close>

lemma json_bytes_roundtrip:
  assumes "jwf (JObj kvs)"
  shows "\<exists>raw. json_dumps (JObj kvs) = Inr raw \<and> json_loads other raw = Some (JObj kvs)"
proof -
  have valid: "list_all valid_cp (dumps (JObj kvs))" using dumps_valid [OF assms] .
  obtain c t where d: "dumps (JObj kvs) = 123 # c # t" and c: "c = 34 \<or> c = 125"
  proof (cases kvs)
    case Nil
    then show ?thesis using that [of 125 "[]"] by simp
  next
    case (Cons kv kvs')
    then show ?thesis using that [of 34] by (cases kv; cases kvs') (auto simp: jquote_def)
  qed
  moreover have "char_of (123 :: nat) = CHR 0x7B" by code_simp
  ultimately have "utf8 (dumps (JObj kvs)) = CHR 0x7B # char_of c # utf8 t"
    by (auto simp: utf8_def utf8_cp_def)
  moreover have "char_of (34 :: nat) = CHR 0x22" and "char_of (125 :: nat) = CHR 0x7D" by code_simp+
  ultimately have "plain_utf8 (utf8 (dumps (JObj kvs)))" using c by (auto simp: plain_utf8_def)
  with valid assms show ?thesis
    by (simp add: json_dumps_def utf8_encode_def json_loads_def utf8_decode_utf8 loads_dumps del: dumps.simps)
qed

lemma encode_wf: "jwf (JObj kvs) \<Longrightarrow> \<exists>v. encode_session env cfg t (JObj kvs) = Inr v"
  using json_bytes_roundtrip [of kvs "\<lambda>_. None"] by (auto simp: encode_session_def Let_def)

lemma dec_int_ascii: "c \<in> set (dec_int i) \<Longrightarrow> of_char c < (128 :: nat)"
  by (auto dest!: dec_int_chars simp: is_digit_def)

lemma decode_encoded:
  assumes "json_dumps data = Inr raw" and "encode_session env cfg t data = Inr v"
  shows "decode_session env cfg now v =
    (if fresh_enough cfg now (dec_int t) then json_loads (other_json env) raw else None)"
proof -
  let ?b = "b64_plain raw" and ?p = "b64_plain raw @ dot # dec_int t"
  let ?s = "b64_plain (mac env (secret_key cfg) ?p)"
  from assms have v: "v = ?b @ dot # dec_int t @ dot # ?s" by (simp add: encode_session_def)
  have nodot: "dot \<notin> set (b64_plain x)" for x using b64_plain_chars by blast
  have parts: "split_on dot v = [?b, dec_int t, ?s]"
    using nodot dec_int_no_dot by (simp add: v split_on_append split_on_plain)
  have "list_all (\<lambda>c. of_char c < (128 :: nat)) v"
    by (auto simp: v list_all_iff dest: b64_plain_chars dec_int_ascii)
  with parts show ?thesis by (simp add: decode_session_def b64_plain_decode)
qed

text \<open>
  C37.  A session survives the round trip through its cookie: what was encoded at time \<open>t\<close> is decoded
  unchanged as long as it is not older than \<open>max_age\<close>, and not at all afterwards; and whatever cookie
  is accepted carries, after its second dot, the signature of what precedes it under the secret
  key.  Through the middleware, the next request of a browser that keeps cookies finds the session
  that the last one left.
\<close>

theorem session_roundtrip:
  assumes "jwf (JObj kvs)" and "max_age cfg = Some a"
  shows "\<exists>v. encode_session env cfg t (JObj kvs) = Inr v \<and>
    decode_session env cfg now v = (if now - t \<le> a then Some (JObj kvs) else None) \<and>
    (\<forall>u d. decode_session env cfg now u = Some d \<longrightarrow>
       (\<exists>b64 ts sig. u = b64 @ dot # ts @ dot # sig \<and>
          urlsafe_b64decode (sig @ pad (length sig)) = Some (mac env (secret_key cfg) (b64 @ dot # ts)))) \<and>
    (kvs \<noteq> [] \<and> now - t \<le> a \<and> load_cookies env header = [(session_cookie cfg, v)] \<and> header \<noteq> [] \<longrightarrow>
       load_session env cfg now header = JObj kvs)"
proof -
  obtain raw where raw: "json_dumps (JObj kvs) = Inr raw" "json_loads (other_json env) raw = Some (JObj kvs)"
    using json_bytes_roundtrip [OF assms(1)] by blast
  then obtain v where v: "encode_session env cfg t (JObj kvs) = Inr v"
    by (auto simp: encode_session_def)
  have dec: "decode_session env cfg now v = (if now - t \<le> a then Some (JObj kvs) else None)"
    using decode_encoded [OF raw(1) v] raw(2) assms(2) by (simp add: fresh_enough_def py_int_dec_int)
  have auth: "\<exists>b64 ts sig. u = b64 @ dot # ts @ dot # sig \<and>
      urlsafe_b64decode (sig @ pad (length sig)) = Some (mac env (secret_key cfg) (b64 @ dot # ts))"
    if "decode_session env cfg now u = Some d" for u d
  proof -
    from that obtain b64 ts sig where "split_on dot u = [b64, ts, sig]"
      by (auto simp: decode_session_def split: if_splits list.splits)
    with that split_on_three [OF this] show ?thesis
      by (auto simp: decode_session_def split: if_splits option.splits)
  qed
  have "load_session env cfg now header = JObj kvs"
    if "kvs \<noteq> []" "now - t \<le> a" "load_cookies env header = [(session_cookie cfg, v)]" "header \<noteq> []"
    using that dec by (simp add: load_session_def)
  with v dec auth show ?thesis by blast
qed

definition demo_env :: session_env where
  "demo_env =
     \<lparr>mac = (\<lambda>k p. k @ take 4 p), other_json = (\<lambda>_. None), zero_float = (\<lambda>_. False),
      load_cookies = (\<lambda>h. [(''session'', h)])\<rparr>"

definition demo_cfg :: session_cfg where
  "demo_cfg =
     \<lparr>secret_key = ''key'', session_cookie = ''session'', max_age = Some 60, path = ''/'', same_site = ''lax'',
      https_only = True, domain = None\<rparr>"

definition demo_session :: "(codepoints \<times> jv) list" where
  "demo_session = [(ascii ''user'', JInt 42), (ascii ''tags'', JList [JStr [233, 34], JNull])]"

theorem session_roundtrip_witness:
  "load_session demo_env demo_cfg 150 (projr (encode_session demo_env demo_cfg 100 (JObj demo_session)))
     = JObj demo_session \<and>
   decode_session demo_env demo_cfg 161 (projr (encode_session demo_env demo_cfg 100 (JObj demo_session))) = None"
proof -
  let ?v = "projr (encode_session demo_env demo_cfg 100 (JObj demo_session))"
  have wf: "jwf (JObj demo_session)" by (simp add: demo_session_def valid_cp_def)
  have age: "max_age demo_cfg = Some 60" by (simp add: demo_cfg_def)
  obtain v where v: "encode_session demo_env demo_cfg 100 (JObj demo_session) = Inr v"
    and load: "demo_session \<noteq> [] \<and> (150 :: int) - 100 \<le> 60 \<and> load_cookies demo_env ?v = [(session_cookie demo_cfg, v)] \<and> ?v \<noteq> [] \<longrightarrow>
      load_session demo_env demo_cfg 150 ?v = JObj demo_session"
    using session_roundtrip [OF wf age, of demo_env 100 150 ?v] by blast
  obtain v' where "encode_session demo_env demo_cfg 100 (JObj demo_session) = Inr v'"
    and "decode_session demo_env demo_cfg 161 v' = None"
    using session_roundtrip [OF wf age, of demo_env 100 161 ?v] by auto
  moreover have "v \<noteq> []" using v by (auto simp: encode_session_def Let_def split: sum.splits)
  ultimately show ?thesis
    using v load by (simp add: demo_session_def demo_env_def demo_cfg_def)
qed

section \<open>Clearing a session\<close>

text \<open>
  The session that a request leaves is the one the next finds, unless it was emptied in place:
  then the middleware's own reference is empty too, no cookie is set, and the browser keeps the old
  one.  Rebinding the scope to a new dictionary clears the cookie.
\<close>

lemma cleared_session_survives:
  assumes "app ((\<lambda>_. JObj [])(0 := load_session env cfg now header)) = (heap, Some 0, Inr r)" and "heap 0 = JObj []"
  shows "session_call env cfg now later header app = Inr (r, None) \<and> jar_after jar None = jar"
  using assms by (simp add: session_call_def jar_after_def)

lemma rebound_session_cleared:
  assumes "app ((\<lambda>_. JObj [])(0 := load_session env cfg now header)) = (heap, Some 1, Inr r)" and "heap 1 = JObj []"
    and "truthy env (heap 0)"
  shows "\<exists>v. session_call env cfg now later header app = Inr (r, Some (v, True)) \<and> jar_after jar (Some (v, True)) = None"
proof -
  obtain v where "encode_session env cfg later (JObj []) = Inr v" using encode_wf [of "[]" env cfg later] by auto
  with assms show ?thesis by (auto simp: session_call_def jar_after_def)
qed

lemma untouched_session_stored:
  assumes "app ((\<lambda>_. JObj [])(0 := load_session env cfg now header)) = (heap, Some 0, Inr r)"
    and "heap 0 = JObj kvs" and "kvs \<noteq> []" and "jwf (JObj kvs)"
  shows "\<exists>v. session_call env cfg now later header app = Inr (r, Some (v, False)) \<and>
    encode_session env cfg later (JObj kvs) = Inr v"
proof -
  obtain v where "encode_session env cfg later (JObj kvs) = Inr v" using encode_wf [OF assms(4)] by blast
  with assms show ?thesis by (auto simp: session_call_def)
qed

end
