(* ===== verification/Param_Plan.thy ===== *)
theory Param_Plan
  imports Turbo_Prelude "HOL-Library.Word"
begin

text \<open>
  The plan of a route (\<open>_introspect_from_real_fastapi.py\<close>, and \<open>_get_type_name\<close> of
  \<open>_door_support.py\<close>): FastAPI's tree of dependencies becomes the flat list of parameters that the
  Rust engine walks.  What FastAPI has found out about a route (the tree, the buckets of its
  parameters, the fields of a model) is the input.  Callables, pydantic adapters and default values
  are numbered objects.
\<close>

unbundle bit_operations_syntax

section \<open>Annotations\<close>

datatype pycls =
    TInt | TFloat | TBool | TStr | TBytes | TList | TTuple | TSet | TFrozenset | TDict | TMapping | TNone
  | TModel nat | TDataclass nat | TEnum nat "pycls list" | TUpload | TOther nat

text \<open>
  \<open>AClass\<close> is a class, \<open>AGeneric\<close> a subscripted one, \<open>AForm\<close> any other object used as an annotation
  (\<open>Annotated\<close>, \<open>Literal\<close>, a type variable).
\<close>

datatype ann = AEmpty | ANone | AClass pycls | AGeneric pycls "ann list" | AUnion "ann list" | AForm nat

definition non_none :: "ann list \<Rightarrow> ann list" where
  "non_none args = filter (\<lambda>a. a \<noteq> AClass TNone) args"

lemma non_none_member: "non_none args = a # xs \<Longrightarrow> a \<in> set args"
  by (metis filter_is_subset list.set_intros(1) non_none_def subsetD)

fun type_map :: "pycls \<Rightarrow> string option" where
  "type_map TInt = Some ''int''"
| "type_map TFloat = Some ''float''"
| "type_map TBool = Some ''bool''"
| "type_map TStr = Some ''str''"
| "type_map TBytes = Some ''bytes''"
| "type_map _ = None"

definition is_container :: "pycls \<Rightarrow> bool" where
  "is_container c \<longleftrightarrow> c \<in> {TList, TTuple, TSet, TFrozenset}"

fun first_mapped :: "pycls list \<Rightarrow> string" where
  "first_mapped [] = ''str''"
| "first_mapped (b # bs) = (case type_map b of Some t \<Rightarrow> t | None \<Rightarrow> first_mapped bs)"

fun class_type_name :: "pycls \<Rightarrow> string" where
  "class_type_name (TEnum n mro) = first_mapped mro"
| "class_type_name c =
     (if is_container c then ''list_str'' else case type_map c of Some t \<Rightarrow> t | None \<Rightarrow> ''str'')"

function get_type_name :: "ann \<Rightarrow> string" where
  "get_type_name AEmpty = ''str''"
| "get_type_name ANone = ''str''"
| "get_type_name (AUnion args) = (case non_none args of a # _ \<Rightarrow> get_type_name a | [] \<Rightarrow> ''str'')"
| "get_type_name (AGeneric c args) =
     (if is_container c
      then ''list_'' @ (case args of a # _ \<Rightarrow> get_type_name a | [] \<Rightarrow> ''str'')
      else ''str'')"
| "get_type_name (AClass c) = class_type_name c"
| "get_type_name (AForm n) = ''str''"
  by pat_completeness auto

termination
  by (relation "measure size") (auto dest!: non_none_member size_list_estimation' [where f = size, OF _ order_refl])

definition unwrap_optional :: "ann \<Rightarrow> ann" where
  "unwrap_optional a =
     (case a of
        AUnion args \<Rightarrow> (case non_none args of [b] \<Rightarrow> b | _ \<Rightarrow> a)
      | _ \<Rightarrow> a)"

definition is_basemodel :: "ann \<Rightarrow> bool" where
  "is_basemodel a = (case a of AClass (TModel _) \<Rightarrow> True | _ \<Rightarrow> False)"

definition is_dataclass :: "ann \<Rightarrow> bool" where
  "is_dataclass a = (case a of AClass (TDataclass _) \<Rightarrow> True | _ \<Rightarrow> False)"

definition is_union_of_basemodels :: "ann \<Rightarrow> bool" where
  "is_union_of_basemodels a =
     (case a of
        AUnion args \<Rightarrow> 2 \<le> length (non_none args) \<and> list_all is_basemodel (non_none args)
      | _ \<Rightarrow> False)"

definition typed_mapping :: "ann \<Rightarrow> bool" where
  "typed_mapping a =
     (case a of AGeneric c args \<Rightarrow> c \<in> {TDict, TMapping} \<and> args \<noteq> [] | _ \<Rightarrow> False)"

section \<open>Fields and parameters\<close>

datatype pv =
    PvNone | PvStr string | PvInt int | PvBool bool | PvFloat string | PvList "pv list" | PvObj nat | PvMissing

datatype fi_class = FiForm | FiFile | FiBody | FiOther

datatype alias_v = AliasStr string | AliasPath

record field =
  f_name :: string
  f_ann :: ann
  f_class :: fi_class
  f_required :: bool
  f_default :: "pv option"
  f_validation_alias :: "alias_v option"
  f_alias :: "string option"
  f_json :: bool
  f_metadata :: bool
  f_embed :: bool
  f_adapter :: "nat option"
  f_rebuilt :: "nat option"

datatype kind =
    KPath | KQuery | KHeader | KCookie | KBody | KForm | KFile | KDependency
  | KInjectRequest | KInjectResponse | KInjectBackground | KInjectScopes

datatype model_ref = MModel ann | MProxy ann

datatype callable =
    CallUser nat
  | CallOverride nat bool
  | CallBridge nat
  | CallParamModel string kind
  | CallFormModel string
  | CallBuilder ann string
  | CallGetter string

record param_info =
  p_name :: string
  p_kind :: kind
  type_hint :: string
  required :: bool
  default_value :: pv
  has_default :: bool
  model_class :: "model_ref option"
  p_alias :: "string option"
  dep_callable :: "callable option"
  dep_callable_id :: "64 word option"
  is_async_dep :: bool
  is_generator_dep :: bool
  dep_input_names :: "(string \<times> string) list"
  is_handler_param :: bool
  scalar_validator :: "nat option"
  p_oauth_scopes :: "string list"
  is_function_scope :: bool
  fast_path_coerce :: bool

datatype decline = Undelegable | TypeErr

definition truthy_name :: "string option \<Rightarrow> string option" where
  "truthy_name n = (if n = Some [] then None else n)"

text \<open>\<open>_alias_of\<close>: the first true one of the two aliases, if it is a string.\<close>

definition alias_of :: "field \<Rightarrow> string option" where
  "alias_of f =
     (case f_validation_alias f of
        Some AliasPath \<Rightarrow> None
      | Some (AliasStr s) \<Rightarrow> if s \<noteq> [] then Some s else truthy_name (f_alias f)
      | None \<Rightarrow> truthy_name (f_alias f))"

definition default_of :: "field \<Rightarrow> pv" where
  "default_of f = (case f_default f of Some d \<Rightarrow> d | None \<Rightarrow> PvNone)"

definition field_validator :: "field \<Rightarrow> bool \<Rightarrow> kind \<Rightarrow> nat option" where
  "field_validator f is_body_model k =
     (if is_body_model \<or> k = KFile then None
      else case f_adapter f of Some ta \<Rightarrow> Some ta | None \<Rightarrow> f_rebuilt f)"

definition scalar_bucket :: "kind \<Rightarrow> bool" where
  "scalar_bucket k \<longleftrightarrow> k \<in> {KPath, KQuery, KHeader, KCookie}"

definition hint_of :: "field \<Rightarrow> kind \<Rightarrow> string" where
  "hint_of f k =
     (let b = unwrap_optional (f_ann f) in
      if k = KBody \<and> (is_basemodel b \<or> is_dataclass b) then ''model''
      else if k \<in> {KQuery, KHeader, KCookie, KForm} \<and> f_json f then ''str''
      else if k = KBody \<and> typed_mapping b then ''dict''
      else get_type_name (f_ann f))"

definition param_from_field :: "field \<Rightarrow> kind \<Rightarrow> string option \<Rightarrow> decline + param_info" where
  "param_from_field f k nm =
     (let b = unwrap_optional (f_ann f); body_model = (k = KBody \<and> is_basemodel b) in
      if scalar_bucket k \<and> is_basemodel b then Inl Undelegable
      else Inr
        \<lparr>p_name = (case nm of Some n \<Rightarrow> n | None \<Rightarrow> f_name f),
         p_kind = k,
         type_hint = hint_of f k,
         required = f_required f,
         default_value = default_of f,
         has_default = (\<not> f_required f),
         model_class =
           (if body_model then Some (MModel b)
            else if k = KBody \<and> is_dataclass b then Some (MProxy b) else None),
         p_alias =
           (case nm of
              Some _ \<Rightarrow> (case alias_of f of Some a \<Rightarrow> Some a | None \<Rightarrow> Some (f_name f))
            | None \<Rightarrow> alias_of f),
         dep_callable = None, dep_callable_id = None, is_async_dep = False, is_generator_dep = False,
         dep_input_names = [],
         is_handler_param = (nm = None),
         scalar_validator = field_validator f body_model k,
         p_oauth_scopes = [], is_function_scope = False,
         fast_path_coerce = (k = KPath \<and> \<not> f_metadata f \<and> f_ann f \<in> {AClass TInt, AClass TStr})\<rparr>)"

text \<open>The two literals that the emitters repeat: an injected object and a dependency.\<close>

definition inject_param :: "string \<Rightarrow> kind \<Rightarrow> bool \<Rightarrow> string list \<Rightarrow> param_info" where
  "inject_param n k handler scopes =
     \<lparr>p_name = n, p_kind = k, type_hint = ''any'', required = False, default_value = PvNone,
      has_default = False, model_class = None, p_alias = None, dep_callable = None, dep_callable_id = None,
      is_async_dep = False, is_generator_dep = False, dep_input_names = [], is_handler_param = handler,
      scalar_validator = None, p_oauth_scopes = scopes, is_function_scope = False, fast_path_coerce = False\<rparr>"

definition dep_param :: "string \<Rightarrow> callable \<Rightarrow> bool \<Rightarrow> (string \<times> string) list \<Rightarrow> bool \<Rightarrow> param_info" where
  "dep_param n c async wiring handler =
     \<lparr>p_name = n, p_kind = KDependency, type_hint = ''any'', required = True, default_value = PvNone,
      has_default = False, model_class = None, p_alias = None, dep_callable = Some c, dep_callable_id = None,
      is_async_dep = async, is_generator_dep = False, dep_input_names = wiring, is_handler_param = handler,
      scalar_validator = None, p_oauth_scopes = [], is_function_scope = False, fast_path_coerce = False\<rparr>"

section \<open>Models taken apart\<close>

definition emit_request_param_model :: "field \<Rightarrow> kind \<Rightarrow> string \<Rightarrow> string \<Rightarrow> bool \<Rightarrow> param_info list" where
  "emit_request_param_model f k uid result_key handler =
     (let req_src = ''_pmreq'' @ uid in
      [inject_param req_src KInjectRequest False [],
       dep_param result_key (CallParamModel (f_name f) k) False [(''request'', req_src)] handler])"

definition emit_form_param_model :: "field \<Rightarrow> string \<Rightarrow> bool \<Rightarrow> param_info list" where
  "emit_form_param_model f result_key handler =
     (let req_src = ''_fmreq_'' @ f_name f in
      [inject_param req_src KInjectRequest False [],
       dep_param result_key (CallFormModel (f_name f)) True [(''request'', req_src)] handler])"

definition field_key :: "string \<Rightarrow> field \<Rightarrow> string" where
  "field_key fname fi =
     (case f_validation_alias fi of
        Some AliasPath \<Rightarrow> fname
      | Some (AliasStr s) \<Rightarrow> if s \<noteq> [] then s else (case truthy_name (f_alias fi) of Some a \<Rightarrow> a | None \<Rightarrow> fname)
      | None \<Rightarrow> (case truthy_name (f_alias fi) of Some a \<Rightarrow> a | None \<Rightarrow> fname))"

definition dashed :: "string \<Rightarrow> string" where
  "dashed s = map (\<lambda>c. if c = CHR ''_'' then CHR ''-'' else c) s"

definition wire_name :: "kind \<Rightarrow> string \<Rightarrow> field \<Rightarrow> string" where
  "wire_name k fname fi =
     (if k = KHeader \<and> field_key fname fi = fname then dashed fname else field_key fname fi)"

definition expanded_field :: "kind \<Rightarrow> string \<Rightarrow> string \<times> field \<Rightarrow> param_info" where
  "expanded_field k uid nf =
     (case nf of
        (fname, fi) \<Rightarrow>
          \<lparr>p_name = ''_pm'' @ uid @ ''__'' @ fname, p_kind = k, type_hint = get_type_name (f_ann fi),
           required = False, default_value = PvMissing, has_default = True, model_class = None,
           p_alias = Some (wire_name k fname fi), dep_callable = None, dep_callable_id = None,
           is_async_dep = False, is_generator_dep = False, dep_input_names = [], is_handler_param = False,
           scalar_validator = None, p_oauth_scopes = [], is_function_scope = False, fast_path_coerce = False\<rparr>)"

fun kind_name :: "kind \<Rightarrow> string" where
  "kind_name KPath = ''path''"
| "kind_name KQuery = ''query''"
| "kind_name KHeader = ''header''"
| "kind_name KCookie = ''cookie''"
| "kind_name KBody = ''body''"
| "kind_name KForm = ''form''"
| "kind_name KFile = ''file''"
| "kind_name KDependency = ''dependency''"
| "kind_name KInjectRequest = ''inject_request''"
| "kind_name KInjectResponse = ''inject_response''"
| "kind_name KInjectBackground = ''inject_background_tasks''"
| "kind_name KInjectScopes = ''inject_security_scopes''"

definition expand_param_model ::
  "ann \<Rightarrow> (string \<times> field) list \<Rightarrow> kind \<Rightarrow> string \<Rightarrow> string \<Rightarrow> bool \<Rightarrow> param_info list"
where
  "expand_param_model model mfs k uid result_key handler =
     map (expanded_field k uid) mfs @
     [dep_param result_key (CallBuilder model (if k = KForm then ''body'' else kind_name k)) False
        (map (\<lambda>(fname, fi). (field_key fname fi, ''_pm'' @ uid @ ''__'' @ fname)) mfs) handler]"

section \<open>The tree of dependencies\<close>

record dep_info =
  request_param_name :: "string option"
  http_connection_param_name :: "string option"
  response_param_name :: "string option"
  background_tasks_param_name :: "string option"
  security_scopes_param_name :: "string option"
  websocket_param_name :: "string option"
  path_params :: "field list"
  query_params :: "field list"
  header_params :: "field list"
  cookie_params :: "field list"
  body_params :: "field list"
  d_oauth_scopes :: "string list"
  use_cache :: bool
  cache_scopes :: "string list"
  d_scope :: "string option"
  is_gen_callable :: bool
  is_async_gen_callable :: bool
  is_coroutine_callable :: bool

datatype dependant = Dep (dep_name: "string option") (dep_call: nat) (dep_info: dep_info) (dep_subs: "dependant list")

text \<open>\<open>_SPECIAL_PARAM_KINDS\<close>: the special parameters a callable takes, with their names.\<close>

definition special_param :: "string option \<Rightarrow> kind \<Rightarrow> (string \<times> kind) list" where
  "special_param n k = (case truthy_name n of Some n \<Rightarrow> [(n, k)] | None \<Rightarrow> [])"

definition special_params :: "dep_info \<Rightarrow> (string \<times> kind) list" where
  "special_params i =
     special_param (request_param_name i) KInjectRequest @
     special_param (http_connection_param_name i) KInjectRequest @
     special_param (response_param_name i) KInjectResponse @
     special_param (background_tasks_param_name i) KInjectBackground @
     special_param (security_scopes_param_name i) KInjectScopes"

definition scopes_for :: "dep_info \<Rightarrow> kind \<Rightarrow> string list" where
  "scopes_for i k = (if k \<noteq> KInjectScopes then [] else d_oauth_scopes i)"

definition scalar_fields :: "dep_info \<Rightarrow> (kind \<times> nat \<times> field) list" where
  "scalar_fields i =
     map (Pair KPath) (enumerate 0 (path_params i)) @ map (Pair KQuery) (enumerate 0 (query_params i)) @
     map (Pair KHeader) (enumerate 0 (header_params i)) @ map (Pair KCookie) (enumerate 0 (cookie_params i))"

text \<open>
  \<open>_dep_cache_id\<close>: the identity of the callable, mixed with a hash of its scopes unless it has none
  and lives for the request.
\<close>

definition dep_cache_id :: "(nat \<Rightarrow> 64 word) \<Rightarrow> (string list \<times> string \<Rightarrow> 64 word) \<Rightarrow> dep_info \<Rightarrow> nat \<Rightarrow> 64 word option" where
  "dep_cache_id ident hash_of i call =
     (if \<not> use_cache i then None
      else
        let scope = (case truthy_name (d_scope i) of Some s \<Rightarrow> s | None \<Rightarrow> ''request'') in
        if cache_scopes i = [] \<and> scope = ''request'' then Some (ident call)
        else Some (ident call XOR hash_of (cache_scopes i, scope)))"

definition dep_key :: "string \<Rightarrow> string \<Rightarrow> string" where
  "dep_key uid n = ''_dep'' @ uid @ ''__'' @ n"

definition emit_dep_special_params :: "string \<Rightarrow> dep_info \<Rightarrow> param_info list" where
  "emit_dep_special_params uid i =
     map (\<lambda>(n, k). inject_param (dep_key uid n) k False (scopes_for i k)) (special_params i)"

definition emit_dep_input :: "string \<Rightarrow> kind \<times> nat \<times> field \<Rightarrow> decline + param_info list" where
  "emit_dep_input uid kf =
     (case kf of
        (k, idx, f) \<Rightarrow>
          if k \<in> {KQuery, KHeader, KCookie} \<and> is_basemodel (unwrap_optional (f_ann f))
          then Inr (emit_request_param_model f k (uid @ ''_'' @ f_name f) (dep_key uid (f_name f)) False)
          else map_sum id (\<lambda>p. [p]) (param_from_field f k (Some (dep_key uid (f_name f)))))"

fun concat_sum :: "('e + 'a list) list \<Rightarrow> 'e + 'a list" where
  "concat_sum [] = Inr []"
| "concat_sum (x # xs) =
     (case x of Inl e \<Rightarrow> Inl e | Inr ys \<Rightarrow> (case concat_sum xs of Inl e \<Rightarrow> Inl e | Inr zs \<Rightarrow> Inr (ys @ zs)))"

text \<open>The inputs of a dependency that come from the request, and how they are wired.\<close>

definition input_names :: "dep_info \<Rightarrow> string list" where
  "input_names i = map fst (special_params i) @ map (\<lambda>(k, idx, f). f_name f) (scalar_fields i)"

definition input_wiring :: "string \<Rightarrow> dep_info \<Rightarrow> (string \<times> string) list" where
  "input_wiring uid i = map (\<lambda>n. (n, dep_key uid n)) (input_names i)"

definition wrap_dep :: "bool \<Rightarrow> dep_info \<Rightarrow> nat \<Rightarrow> callable" where
  "wrap_dep has_app i call =
     (if is_async_gen_callable i then CallBridge call
      else if has_app then CallOverride call (is_coroutine_callable i)
      else CallUser call)"

definition result_key :: "string \<Rightarrow> bool \<Rightarrow> string option \<Rightarrow> string" where
  "result_key uid handler nm =
     (case truthy_name nm of Some n \<Rightarrow> if handler then n else ''_dep'' @ uid | None \<Rightarrow> ''_dep'' @ uid)"

type_synonym ids = "dep_info \<Rightarrow> nat \<Rightarrow> 64 word option"

definition dep_entry ::
  "ids \<Rightarrow> bool \<Rightarrow> string \<Rightarrow> bool \<Rightarrow> string option \<Rightarrow> nat \<Rightarrow> dep_info \<Rightarrow> (string \<times> string) list \<Rightarrow> param_info"
where
  "dep_entry ids has_app uid handler nm call i wiring =
     (dep_param (result_key uid handler nm) (wrap_dep has_app i call) (is_coroutine_callable i) wiring handler)
       \<lparr>dep_callable_id := ids i call,
        is_generator_dep := is_gen_callable i \<or> is_async_gen_callable i,
        is_function_scope := (d_scope i = Some ''function'')\<rparr>"

text \<open>
  \<open>_emit_dep\<close>: in post-order, the special parameters, the inputs from the request, the dependencies
  of the dependency, and then itself.  A dependency of a dependency without a name cannot be wired:
  the constructor of the Rust class refuses it.
\<close>

definition sub_wiring :: "string \<Rightarrow> dependant list \<Rightarrow> (string \<times> string) list" where
  "sub_wiring uid subs = map (\<lambda>(k, s). (the (dep_name s), ''_dep'' @ uid @ ''_'' @ dec_nat k)) (enumerate 0 subs)"

fun emit_dep :: "ids \<Rightarrow> bool \<Rightarrow> string \<Rightarrow> bool \<Rightarrow> dependant \<Rightarrow> decline + param_info list"
and emit_subs :: "ids \<Rightarrow> bool \<Rightarrow> string \<Rightarrow> nat \<Rightarrow> dependant list \<Rightarrow> decline + param_info list"
where
  "emit_dep ids has_app uid handler (Dep nm call i subs) =
     (if body_params i \<noteq> [] \<or> websocket_param_name i \<noteq> None then Inl Undelegable
      else
        case concat_sum (map (emit_dep_input uid) (scalar_fields i)) of
          Inl e \<Rightarrow> Inl e
        | Inr inputs \<Rightarrow>
            (case emit_subs ids has_app uid 0 subs of
               Inl e \<Rightarrow> Inl e
             | Inr below \<Rightarrow>
                 if list_ex (\<lambda>s. dep_name s = None) subs then Inl TypeErr
                 else Inr
                   (emit_dep_special_params uid i @ inputs @ below @
                    [dep_entry ids has_app uid handler nm call i (input_wiring uid i @ sub_wiring uid subs)])))"
| "emit_subs ids has_app uid k [] = Inr []"
| "emit_subs ids has_app uid k (s # ss) =
     (case emit_dep ids has_app (uid @ ''_'' @ dec_nat k) False s of
        Inl e \<Rightarrow> Inl e
      | Inr ps \<Rightarrow>
          (case emit_subs ids has_app uid (Suc k) ss of
             Inl e \<Rightarrow> Inl e
           | Inr qs \<Rightarrow> Inr (ps @ qs)))"

section \<open>The plan of a route\<close>

record route =
  r_info :: dep_info
  r_deps :: "dependant list"
  r_body_field :: "field option"

text \<open>The fields of a model class, by the annotation that names it.\<close>

type_synonym models = "ann \<Rightarrow> (string \<times> field) list"

definition emit_special_params :: "dep_info \<Rightarrow> param_info list" where
  "emit_special_params i = map (\<lambda>(n, k). inject_param n k True (scopes_for i k)) (special_params i)"

definition combined_body :: "field \<Rightarrow> param_info" where
  "combined_body bf =
     \<lparr>p_name = ''_combined_body'', p_kind = KBody, type_hint = ''model'', required = f_required bf,
      default_value = PvNone, has_default = (\<not> f_required bf), model_class = Some (MModel (f_ann bf)),
      p_alias = None, dep_callable = None, dep_callable_id = None, is_async_dep = False,
      is_generator_dep = False, dep_input_names = [], is_handler_param = False, scalar_validator = None,
      p_oauth_scopes = [], is_function_scope = False, fast_path_coerce = False\<rparr>"

definition emit_combined_body :: "field option \<Rightarrow> dep_info \<Rightarrow> decline + param_info list" where
  "emit_combined_body bf i =
     (case bf of
        None \<Rightarrow> Inl Undelegable
      | Some f \<Rightarrow>
          if \<not> is_basemodel (f_ann f) then Inl Undelegable
          else Inr
            (combined_body f #
             map (\<lambda>b. dep_param (f_name b) (CallGetter (f_name b)) False [(''cb'', ''_combined_body'')] True)
               (body_params i)))"

definition emit_form_field :: "models \<Rightarrow> field \<Rightarrow> decline + param_info list" where
  "emit_form_field models f =
     (let k = (if f_class f = FiFile then KFile else KForm); a = unwrap_optional (f_ann f) in
      if k = KForm \<and> is_basemodel a
      then Inr (expand_param_model a (models a) KForm (''_fm_'' @ f_name f) (f_name f) True)
      else map_sum id (\<lambda>p. [p]) (param_from_field f k None))"

definition emit_body :: "models \<Rightarrow> field option \<Rightarrow> dep_info \<Rightarrow> decline + param_info list" where
  "emit_body models bf i =
     (let fs = body_params i; classes = f_class ` set fs in
      if fs = [] then Inr []
      else if classes \<subseteq> {FiForm, FiFile} then
        (case fs of
           [f] \<Rightarrow>
             if f_class f = FiForm \<and> (is_basemodel (unwrap_optional (f_ann f)) \<or> is_union_of_basemodels (f_ann f))
             then Inr (emit_form_param_model f (f_name f) True)
             else emit_form_field models f
         | _ \<Rightarrow> concat_sum (map (emit_form_field models) fs))
      else
        (case fs of
           [f] \<Rightarrow>
             if f_class f = FiBody \<and> \<not> f_embed f then map_sum id (\<lambda>p. [p]) (param_from_field f KBody None)
             else emit_combined_body bf i
         | _ \<Rightarrow> emit_combined_body bf i))"

definition emit_handler_field :: "models \<Rightarrow> kind \<times> nat \<times> field \<Rightarrow> decline + param_info list" where
  "emit_handler_field models kf =
     (case kf of
        (k, idx, f) \<Rightarrow>
          let a = unwrap_optional (f_ann f); uid = ''_'' @ kind_name k @ dec_nat idx @ ''_'' @ f_name f in
          if \<not> is_basemodel a then map_sum id (\<lambda>p. [p]) (param_from_field f k None)
          else if k \<in> {KQuery, KHeader, KCookie} then Inr (emit_request_param_model f k uid (f_name f) True)
          else Inr (expand_param_model a (models a) k uid (f_name f) True))"

fun emit_handler_deps :: "ids \<Rightarrow> bool \<Rightarrow> nat \<Rightarrow> dependant list \<Rightarrow> decline + param_info list" where
  "emit_handler_deps ids has_app n [] = Inr []"
| "emit_handler_deps ids has_app n (s # ss) =
     (case emit_dep ids has_app (dec_nat n) (dep_name s \<noteq> None) s of
        Inl e \<Rightarrow> Inl e
      | Inr ps \<Rightarrow>
          (case emit_handler_deps ids has_app (Suc n) ss of
             Inl e \<Rightarrow> Inl e
           | Inr qs \<Rightarrow> Inr (ps @ qs)))"

definition emit_handler :: "models \<Rightarrow> route \<Rightarrow> decline + param_info list" where
  "emit_handler models r =
     concat_sum
       (map (emit_handler_field models) (scalar_fields (r_info r)) @
        [emit_body models (r_body_field r) (r_info r), Inr (emit_special_params (r_info r))])"

definition extract_params_from_route :: "ids \<Rightarrow> models \<Rightarrow> bool \<Rightarrow> route \<Rightarrow> decline + param_info list" where
  "extract_params_from_route ids models has_app r =
     concat_sum [emit_handler models r, emit_handler_deps ids has_app 0 (r_deps r)]"

section \<open>Well-formed plans\<close>

text \<open>The type hints the engine knows: a scalar, repeated lists of one, and three tags.\<close>

inductive scalar_hint :: "string \<Rightarrow> bool" where
  base: "type_map c = Some t \<Longrightarrow> scalar_hint t"
| list: "scalar_hint t \<Longrightarrow> scalar_hint (''list_'' @ t)"

definition known_hint :: "string \<Rightarrow> bool" where
  "known_hint t \<longleftrightarrow> scalar_hint t \<or> t \<in> {''any'', ''model'', ''dict''}"

lemma scalar_hint_str [simp]: "scalar_hint ''str''"
  using scalar_hint.base [of TStr] by simp

lemma scalar_hint_class: "scalar_hint (class_type_name c)"
proof -
  have "scalar_hint (first_mapped mro)" for mro
    by (induction mro) (auto split: option.split intro: scalar_hint.base)
  moreover have "scalar_hint ''list_str''"
    using scalar_hint.list [OF scalar_hint_str] by simp
  ultimately show ?thesis
    using scalar_hint.base [of c]
    by (cases c) (auto simp: is_container_def)
qed

lemma scalar_hint_get_type_name: "scalar_hint (get_type_name a)"
proof (induction a rule: get_type_name.induct)
  case (4 c args)
  then show ?case
    using scalar_hint.list by (fastforce split: list.split)
qed (auto simp: scalar_hint_class split: list.split)

text \<open>What a parameter leaves in the engine's table of resolved values, and the order of definitions and uses.\<close>

definition produces :: "param_info \<Rightarrow> bool" where
  "produces p \<longleftrightarrow> p_kind p = KDependency \<or> \<not> is_handler_param p"

definition produced :: "param_info list \<Rightarrow> string list" where
  "produced ps = map p_name (filter produces ps)"

definition dep_ok :: "string set \<Rightarrow> param_info \<Rightarrow> bool" where
  "dep_ok S p \<longleftrightarrow>
     (p_kind p = KDependency \<longleftrightarrow> dep_callable p \<noteq> None) \<and> (\<forall>w\<in>set (dep_input_names p). snd w \<in> S)"

fun wired :: "string set \<Rightarrow> param_info list \<Rightarrow> bool" where
  "wired S [] \<longleftrightarrow> True"
| "wired S (p # ps) \<longleftrightarrow> dep_ok S p \<and> wired (if produces p then insert (p_name p) S else S) ps"

lemma produced_simps [simp]:
  "produced [] = []"
  "produced (p # ps) = (if produces p then p_name p # produced ps else produced ps)"
  "produced (ps @ qs) = produced ps @ produced qs"
  by (simp_all add: produced_def)

lemma wired_mono: "wired S ps \<Longrightarrow> S \<subseteq> T \<Longrightarrow> wired T ps"
proof (induction ps arbitrary: S T)
  case (Cons p ps)
  have "wired (insert (p_name p) S) ps \<Longrightarrow> wired (insert (p_name p) T) ps"
    using Cons.IH Cons.prems(2) by (metis insert_mono)
  with Cons show ?case by (auto simp: dep_ok_def split: if_splits)
qed simp

lemma wired_append: "wired S (ps @ qs) \<longleftrightarrow> wired S ps \<and> wired (S \<union> set (produced ps)) qs"
  by (induction ps arbitrary: S) auto

lemma wired_plain:
  "(\<And>p. p \<in> set ps \<Longrightarrow> p_kind p \<noteq> KDependency \<and> dep_callable p = None \<and> dep_input_names p = []) \<Longrightarrow> wired S ps"
proof (induction ps arbitrary: S)
  case (Cons p ps)
  from Cons.prems [of p] show ?case by (auto simp: dep_ok_def intro!: Cons.IH Cons.prems)
qed simp

lemma concat_sumE:
  assumes "concat_sum xs = Inr ps"
  obtains pss where "ps = concat pss" "xs = map Inr pss"
proof -
  have "\<exists>pss. ps = concat pss \<and> xs = map Inr pss"
    using assms
  proof (induction xs arbitrary: ps)
    case (Cons x xs)
    then obtain ys zs where *: "x = Inr ys" "concat_sum xs = Inr zs" "ps = ys @ zs"
      by (auto split: sum.splits)
    with Cons.IH obtain pss where "zs = concat pss" "xs = map Inr pss" by blast
    with * show ?case by (intro exI [of _ "ys # pss"]) simp
  qed simp
  with that show thesis by blast
qed

lemma wired_concat:
  assumes "\<And>ps. ps \<in> set pss \<Longrightarrow> wired {} ps"
  shows "wired S (concat pss)"
  using assms by (induction pss arbitrary: S) (auto simp: wired_append intro: wired_mono)

lemma map_sum_Inr: "map_sum id g x = Inr y \<longleftrightarrow> (\<exists>z. x = Inr z \<and> y = g z)"
  by (cases x) auto

lemmas emit_defs = inject_param_def dep_param_def emit_request_param_model_def emit_form_param_model_def
  expanded_field_def expand_param_model_def combined_body_def dep_entry_def Let_def

lemma param_from_field_Inr:
  assumes "param_from_field f k nm = Inr p"
  shows "p_name p = (case nm of Some n \<Rightarrow> n | None \<Rightarrow> f_name f)" "p_kind p = k"
    "is_handler_param p = (nm = None)" "dep_callable p = None" "dep_input_names p = []"
    "type_hint p = hint_of f k"
  using assms by (auto simp: param_from_field_def Let_def split: if_splits)

lemma known_hint_any [simp]: "known_hint ''any''" "known_hint ''model''"
  by (simp_all add: known_hint_def)

lemma known_hint_of [simp]: "known_hint (hint_of f k)"
  by (auto simp: known_hint_def hint_of_def Let_def scalar_hint_get_type_name)

text \<open>One input of a dependency: its last parameter is stored under the key the wiring names.\<close>

lemma emit_dep_input_ok:
  assumes "emit_dep_input uid (k, idx, f) = Inr ps" and "k \<noteq> KDependency"
  shows "wired {} ps" "dep_key uid (f_name f) \<in> set (produced ps)"
    "set (map p_name ps) \<subseteq> {dep_key uid (f_name f), ''_pmreq'' @ uid @ ''_'' @ f_name f}"
    "distinct (map p_name ps)" "\<forall>p\<in>set ps. \<not> is_handler_param p \<and> known_hint (type_hint p)"
  using assms param_from_field_Inr [of f k "Some (dep_key uid (f_name f))"]
  by (auto simp: emit_dep_input_def emit_defs dep_ok_def produces_def dep_key_def map_sum_Inr
      split: if_splits)

lemma emit_dep_special_ok:
  "wired S (emit_dep_special_params uid i)"
  "set (produced (emit_dep_special_params uid i)) = (\<lambda>n. dep_key uid n) ` fst ` set (special_params i)"
  "map p_name (emit_dep_special_params uid i) = map (dep_key uid) (map fst (special_params i))"
  "\<forall>p\<in>set (emit_dep_special_params uid i). \<not> is_handler_param p \<and> known_hint (type_hint p)"
proof -
  have "k \<noteq> KDependency" if "(n, k) \<in> set (special_params i)" for n k
    using that by (auto simp: special_params_def special_param_def split: option.splits)
  then show "wired S (emit_dep_special_params uid i)"
    by (intro wired_plain) (auto simp: emit_dep_special_params_def emit_defs)
qed (auto simp: emit_dep_special_params_def emit_defs produced_def produces_def comp_def
    image_image case_prod_beta)

lemma scalar_fields_kinds: "(k, idx, f) \<in> set (scalar_fields i) \<Longrightarrow> scalar_bucket k"
  by (auto simp: scalar_fields_def scalar_bucket_def)

text \<open>Keys: what is stored below the dependency \<open>uid\<close>.\<close>

definition under :: "string \<Rightarrow> string \<Rightarrow> bool" where
  "under uid x \<longleftrightarrow> prefix (''_dep'' @ uid @ ''_'') x \<or> prefix (''_pmreq'' @ uid @ ''_'') x"

definition at_or_under :: "string \<Rightarrow> string \<Rightarrow> bool" where
  "at_or_under uid x \<longleftrightarrow> x = ''_dep'' @ uid \<or> under uid x"

definition ident_name :: "string \<Rightarrow> bool" where
  "ident_name n \<longleftrightarrow> n \<noteq> [] \<and> \<not> is_digit (hd n)"

fun good_tree :: "dependant \<Rightarrow> bool" where
  "good_tree (Dep nm call i subs) \<longleftrightarrow>
     list_all ident_name (input_names i) \<and> distinct (input_names i) \<and> (\<forall>s\<in>set subs. good_tree s)"

lemma dec_nat_inj: "dec_nat j = dec_nat k \<Longrightarrow> j = k"
  using py_int_dec_int [of "int j"] py_int_dec_int [of "int k"] by (simp add: dec_int_def)

lemma dec_nat_all_digits: "list_all is_digit (dec_nat n)"
  by (auto simp: list_all_iff dest!: dec_nat_chars)

lemma dec_nat_sep:
  assumes "dec_nat j @ x = dec_nat k @ y" and "x = [] \<or> \<not> is_digit (hd x)" and "y = [] \<or> \<not> is_digit (hd y)"
  shows "j = k \<and> x = y"
proof -
  have "takeWhile is_digit (dec_nat n @ z) = dec_nat n" if "z = [] \<or> \<not> is_digit (hd z)" for n z
    using that dec_nat_all_digits [of n] by (cases z) (auto simp: list_all_iff takeWhile_append)
  with assms have "dec_nat j = dec_nat k" by metis
  with assms show ?thesis by (auto dest: dec_nat_inj)
qed

lemma underscore_no_digit [simp]: "\<not> is_digit (CHR ''_'')"
  by (simp add: is_digit_def)

lemma dec_nat_nonempty [simp]: "dec_nat n \<noteq> []" "is_digit (hd (dec_nat n))"
  using dec_nat_Cons [of n] by auto

text \<open>The keys of two branches are different.\<close>

lemma at_or_underE:
  assumes "at_or_under uid x"
  obtains p a where "x = p @ uid @ a" "a = [] \<or> prefix ''_'' a" "p \<in> {''_dep'', ''_pmreq''}"
proof -
  consider "x = ''_dep'' @ uid @ []" | zs where "x = ''_dep'' @ uid @ ''_'' @ zs" | zs where "x = ''_pmreq'' @ uid @ ''_'' @ zs"
    using assms unfolding at_or_under_def under_def by (auto simp: prefix_def)
  then show thesis
    by cases (erule that; simp)+
qed

lemma branches_disjoint:
  assumes "at_or_under (uid @ dec_nat j) x" and "at_or_under (uid @ dec_nat k) x"
  shows "j = k"
proof -
  obtain p a where x: "x = p @ (uid @ dec_nat j) @ a" "a = [] \<or> prefix ''_'' a" "p \<in> {''_dep'', ''_pmreq''}"
    using assms(1) by (rule at_or_underE)
  obtain q b where y: "x = q @ (uid @ dec_nat k) @ b" "b = [] \<or> prefix ''_'' b" "q \<in> {''_dep'', ''_pmreq''}"
    using assms(2) by (rule at_or_underE)
  from x y have "dec_nat j @ a = dec_nat k @ b" by auto
  then show ?thesis
    using dec_nat_sep x(2) y(2) by (metis append_Cons append_Nil list.sel(1) prefix_def underscore_no_digit)
qed

definition own_keys :: "string \<Rightarrow> string \<Rightarrow> string set" where
  "own_keys uid n = {dep_key uid n, ''_pmreq'' @ uid @ ''_'' @ n}"

lemma own_keys_disjoint: "m \<noteq> n \<Longrightarrow> own_keys uid m \<inter> own_keys uid n = {}"
  by (auto simp: own_keys_def dep_key_def)

lemma own_keys_apart:
  assumes "A \<inter> B = {}"
  shows "(\<Union>n\<in>A. own_keys uid n) \<inter> (\<Union>n\<in>B. own_keys uid n) = {}"
proof -
  have False if "m \<in> A" "n \<in> B" "x \<in> own_keys uid m" "x \<in> own_keys uid n" for m n x
    using that own_keys_disjoint [of m n uid] assms by (cases "m = n") auto
  then show ?thesis by auto
qed

lemma own_keys_under: "x \<in> own_keys uid n \<Longrightarrow> under uid x"
  by (auto simp: own_keys_def dep_key_def under_def)

lemma own_not_below:
  assumes "x \<in> own_keys uid n" and "ident_name n" and "at_or_under (uid @ ''_'' @ dec_nat j) x"
  shows False
proof -
  obtain p a where x: "x = p @ (uid @ ''_'' @ dec_nat j) @ a" "p \<in> {''_dep'', ''_pmreq''}"
    using assms(3) by (rule at_or_underE)
  with assms(1) have "dec_nat j @ a = CHR ''_'' # n \<or> dec_nat j @ a = n"
    by (auto simp: own_keys_def dep_key_def)
  then have "hd (dec_nat j) = CHR ''_'' \<or> hd (dec_nat j) = hd n"
    by (metis dec_nat_nonempty(1) hd_append2 list.sel(1))
  with assms(2) show False
    by (metis dec_nat_nonempty(2) ident_name_def underscore_no_digit)
qed


section \<open>Segments of a plan\<close>

text \<open>
  A segment of a plan that gives the handler the arguments \<open>ns\<close>, stores everything else under keys
  in \<open>P\<close>, each once, and uses only what it defines.
\<close>

definition shown :: "param_info list \<Rightarrow> string list" where
  "shown ps = map p_name (filter is_handler_param ps)"

definition hidden :: "param_info list \<Rightarrow> string list" where
  "hidden ps = map p_name (filter (\<lambda>p. \<not> is_handler_param p) ps)"

definition segment :: "(string \<Rightarrow> bool) \<Rightarrow> string list \<Rightarrow> param_info list \<Rightarrow> bool" where
  "segment P ns ps \<longleftrightarrow>
     wired {} ps \<and> (\<forall>p\<in>set ps. known_hint (type_hint p)) \<and> shown ps = ns \<and>
     distinct (hidden ps) \<and> (\<forall>x\<in>set (hidden ps). P x)"

lemma shown_hidden_simps [simp]:
  "shown [] = []" "hidden [] = []"
  "shown (p # ps) = (if is_handler_param p then p_name p # shown ps else shown ps)"
  "hidden (p # ps) = (if is_handler_param p then hidden ps else p_name p # hidden ps)"
  "shown (ps @ qs) = shown ps @ shown qs" "hidden (ps @ qs) = hidden ps @ hidden qs"
  by (simp_all add: shown_def hidden_def)

lemma names_split: "set (map p_name ps) = set (shown ps) \<union> set (hidden ps)"
  by (induction ps) auto

lemma names_distinct:
  "distinct (shown ps) \<Longrightarrow> distinct (hidden ps) \<Longrightarrow> set (shown ps) \<inter> set (hidden ps) = {} \<Longrightarrow> distinct (map p_name ps)"
proof (induction ps)
  case (Cons p ps)
  then show ?case
    using names_split [of ps] by (auto split: if_splits)
qed simp

lemma segment_Nil [simp]: "segment P [] []"
  by (simp add: segment_def)

lemma segment_mono: "segment P ns ps \<Longrightarrow> (\<And>x. P x \<Longrightarrow> Q x) \<Longrightarrow> segment Q ns ps"
  by (auto simp: segment_def)

lemma segment_append:
  assumes "segment P ns ps" and "segment Q ms qs" and "\<And>x. P x \<Longrightarrow> Q x \<Longrightarrow> False"
  shows "segment (\<lambda>x. P x \<or> Q x) (ns @ ms) (ps @ qs)"
proof -
  have "wired (set (produced ps)) qs"
    using assms(2) wired_mono [of "{}" qs] by (simp add: segment_def)
  with assms show ?thesis
    unfolding segment_def wired_append shown_hidden_simps distinct_append set_append by auto blast
qed

text \<open>Segments of a list of parts, whose keys are apart.\<close>

lemma segment_concat:
  assumes "concat_sum (map g xs) = Inr ps"
    and "\<And>x ps. x \<in> set xs \<Longrightarrow> g x = Inr ps \<Longrightarrow> segment (P x) (N x) ps"
    and "distinct (map c xs)"
    and "\<And>x y z. x \<in> set xs \<Longrightarrow> y \<in> set xs \<Longrightarrow> P x z \<Longrightarrow> P y z \<Longrightarrow> c x = c y"
  shows "segment (\<lambda>z. \<exists>x\<in>set xs. P x z) (concat (map N xs)) ps"
  using assms
proof (induction xs arbitrary: ps)
  case (Cons x xs)
  from Cons.prems(1) obtain qs rs where qs: "g x = Inr qs" and rs: "concat_sum (map g xs) = Inr rs" and ps: "ps = qs @ rs"
    by (auto split: sum.splits)
  have "segment (P x) (N x) qs" using Cons.prems(2) qs by simp
  moreover have "segment (\<lambda>z. \<exists>x\<in>set xs. P x z) (concat (map N xs)) rs"
    using Cons.IH [OF rs] Cons.prems(2-4) by simp
  moreover have False if "P x z" "\<exists>y\<in>set xs. P y z" for z
    using that Cons.prems(3) Cons.prems(4) [of x _ z] by force
  ultimately have "segment (\<lambda>z. P x z \<or> (\<exists>y\<in>set xs. P y z)) (N x @ concat (map N xs)) ps"
    unfolding ps by (rule segment_append)
  then show ?case by (simp add: segment_def)
qed simp

lemma produced_concat:
  assumes "concat_sum (map g xs) = Inr ps" and "x \<in> set xs" and "\<And>qs. g x = Inr qs \<Longrightarrow> n \<in> set (produced qs)"
  shows "n \<in> set (produced ps)"
  using assms by (induction xs arbitrary: ps) (auto split: sum.splits)

text \<open>A dependency at the end of a segment.\<close>

lemma segment_snoc:
  assumes "segment P ns ps" and "dep_ok (set (produced ps)) e" and "known_hint (type_hint e)"
    and "\<not> is_handler_param e \<Longrightarrow> \<not> P (p_name e)"
  shows "segment (\<lambda>x. P x \<or> \<not> is_handler_param e \<and> x = p_name e) (if is_handler_param e then ns @ [p_name e] else ns) (ps @ [e])"
  using assms by (auto simp: segment_def wired_append)

abbreviation field_name :: "kind \<times> nat \<times> field \<Rightarrow> string" where
  "field_name kf \<equiv> f_name (snd (snd kf))"

lemma input_names_alt: "input_names i = map fst (special_params i) @ map field_name (scalar_fields i)"
  by (simp add: input_names_def case_prod_beta)

lemma own_keys_eq: "x \<in> own_keys uid m \<Longrightarrow> x \<in> own_keys uid n \<Longrightarrow> m = n"
  using own_keys_disjoint [of m n uid] by blast

lemma scalar_not_dep: "x \<in> set (scalar_fields i) \<Longrightarrow> fst x \<noteq> KDependency"
  by (auto simp: scalar_fields_def)

lemma concat_map_Nil [simp]: "concat (map (\<lambda>x. []) xs) = []"
  by (induction xs) simp_all

lemma key_own: "dep_key uid n \<in> own_keys uid n"
  by (simp add: own_keys_def)

lemma hidden_all: "\<forall>p\<in>set ps. \<not> is_handler_param p \<Longrightarrow> hidden ps = map p_name ps \<and> shown ps = []"
  by (induction ps) auto

lemma special_segment:
  assumes "distinct (map fst (special_params i))"
  shows "segment (\<lambda>x. \<exists>n\<in>set (map fst (special_params i)). x \<in> own_keys uid n) [] (emit_dep_special_params uid i)"
proof -
  have "distinct (map (dep_key uid) (map fst (special_params i)))"
    using assms by (intro distinct_map [THEN iffD2]) (auto simp: inj_on_def dep_key_def)
  then show ?thesis
    using emit_dep_special_ok(1) [of "{}" uid i] emit_dep_special_ok(3,4) [of uid i]
      hidden_all [of "emit_dep_special_params uid i"]
    using key_own by (fastforce simp: segment_def)
qed

lemma input_segment:
  assumes "emit_dep_input uid (k, idx, f) = Inr ps" and "k \<noteq> KDependency"
  shows "segment (\<lambda>z. z \<in> own_keys uid (f_name f)) [] ps"
proof -
  have "set (map p_name ps) \<subseteq> own_keys uid (f_name f)"
    using emit_dep_input_ok(3) [OF assms] by (simp add: own_keys_def)
  then show ?thesis
    using emit_dep_input_ok(1,4,5) [OF assms] hidden_all [of ps] by (auto simp: segment_def)
qed

lemma inputs_segment:
  assumes "concat_sum (map (emit_dep_input uid) (scalar_fields i)) = Inr ps"
    and "distinct (map field_name (scalar_fields i))"
  shows "segment (\<lambda>x. \<exists>n\<in>set (map field_name (scalar_fields i)). x \<in> own_keys uid n) [] ps"
proof -
  have "segment (\<lambda>z. \<exists>x\<in>set (scalar_fields i). z \<in> own_keys uid (field_name x)) (concat (map (\<lambda>x. []) (scalar_fields i))) ps"
    using assms(1)
  proof (rule segment_concat [where c = field_name])
    fix x ps assume "x \<in> set (scalar_fields i)" and "emit_dep_input uid x = Inr ps"
    then show "segment (\<lambda>z. z \<in> own_keys uid (field_name x)) [] ps"
      using input_segment [of uid "fst x" "fst (snd x)" "snd (snd x)" ps] scalar_not_dep by simp
  qed (use assms(2) own_keys_eq in auto)
  then show ?thesis by simp
qed

lemma input_produced:
  assumes "concat_sum (map (emit_dep_input uid) (scalar_fields i)) = Inr ins" and "w \<in> set (input_wiring uid i)"
  shows "snd w \<in> set (produced (emit_dep_special_params uid i @ ins))"
proof -
  from assms(2) have w: "fst w \<in> set (input_names i)" "snd w = dep_key uid (fst w)"
    by (auto simp: input_wiring_def)
  then consider "fst w \<in> fst ` set (special_params i)" | x where "x \<in> set (scalar_fields i)" "fst w = field_name x"
    by (auto simp: input_names_alt)
  then show ?thesis
  proof cases
    case 2
    then have "dep_key uid (field_name x) \<in> set (produced qs)" if "emit_dep_input uid x = Inr qs" for qs
      using that emit_dep_input_ok(2) [of uid "fst x" "fst (snd x)" "snd (snd x)" qs] scalar_not_dep by simp
    with 2 show ?thesis
      using produced_concat [OF assms(1)] w(2) by simp
  qed (simp add: emit_dep_special_ok(2) w(2))
qed

lemma not_at_own: "\<not> under u (''_dep'' @ u)"
  by (auto simp: under_def prefix_def)

lemma segment_append3:
  assumes "segment P ns ps" and "segment Q ms qs" and "segment T ls rs"
    and "\<And>x. P x \<Longrightarrow> Q x \<Longrightarrow> False" and "\<And>x. P x \<Longrightarrow> T x \<Longrightarrow> False" and "\<And>x. Q x \<Longrightarrow> T x \<Longrightarrow> False"
  shows "segment (\<lambda>x. P x \<or> Q x \<or> T x) (ns @ ms @ ls) (ps @ qs @ rs)"
  using assms by (intro segment_append) blast+

lemma sub_key: "result_key u False nm = ''_dep'' @ u"
  by (simp add: result_key_def split: option.split)

lemma sub_key_apart: "\<not> h \<Longrightarrow> \<not> under uid (result_key uid h nm)"
  using not_at_own [of uid] sub_key [of uid nm] by simp

text \<open>One dependency, given the segment of those below it.\<close>

lemma dep_segment:
  assumes ins: "concat_sum (map (emit_dep_input uid) (scalar_fields i)) = Inr ins"
    and names: "list_all ident_name (input_names i)" "distinct (input_names i)"
    and below: "segment (\<lambda>x. \<exists>j\<ge>0. at_or_under (uid @ ''_'' @ dec_nat j) x) [] below"
    and made: "\<forall>j<length subs. ''_dep'' @ uid @ ''_'' @ dec_nat (0 + j) \<in> set (produced below)"
    and e: "e = dep_entry ids has_app uid h nm call i (input_wiring uid i @ sub_wiring uid subs)"
  shows "segment (\<lambda>x. under uid x \<or> \<not> h \<and> x = result_key uid h nm) (if h then [result_key uid h nm] else [])
    ((emit_dep_special_params uid i @ ins @ below) @ [e])"
proof -
  let ?A = "\<lambda>x. \<exists>n\<in>set (map fst (special_params i)). x \<in> own_keys uid n"
  let ?B = "\<lambda>x. \<exists>n\<in>set (map field_name (scalar_fields i)). x \<in> own_keys uid n"
  let ?C = "\<lambda>x. \<exists>j\<ge>0. at_or_under (uid @ ''_'' @ dec_nat j) x"
  have own: "ident_name n" if "n \<in> set (map fst (special_params i)) \<union> set (map field_name (scalar_fields i))" for n
    using names(1) that unfolding input_names_alt list_all_iff set_append by blast
  have "?B x \<Longrightarrow> ?C x \<Longrightarrow> False" and AC: "?A x \<Longrightarrow> ?C x \<Longrightarrow> False" for x
    using own own_not_below [of x uid] by blast+
  moreover have "?A x \<Longrightarrow> ?B x \<Longrightarrow> False" for x
    using names(2) own_keys_eq [of x uid] unfolding input_names_alt distinct_append by blast
  moreover have "distinct (map fst (special_params i))" "distinct (map field_name (scalar_fields i))"
    using names(2) by (simp_all add: input_names_alt)
  ultimately have "segment (\<lambda>x. ?A x \<or> ?B x \<or> ?C x) ([] @ [] @ []) (emit_dep_special_params uid i @ ins @ below)"
    by (intro segment_append3 special_segment inputs_segment [OF ins] below)
  then have "segment (\<lambda>x. ?A x \<or> ?B x \<or> ?C x) [] (emit_dep_special_params uid i @ ins @ below)"
    unfolding append_Nil .
  then have seg: "segment (under uid) [] (emit_dep_special_params uid i @ ins @ below)"
  proof (rule segment_mono)
    fix x assume "?A x \<or> ?B x \<or> ?C x"
    then show "under uid x"
      by (auto simp: at_or_under_def under_def prefix_def dest: own_keys_under)
  qed
  have "snd ` set (sub_wiring uid subs) \<subseteq> set (produced below)"
    using made by (auto simp: sub_wiring_def in_set_enumerate_eq)
  then have "dep_ok (set (produced (emit_dep_special_params uid i @ ins @ below))) e"
    using input_produced [OF ins] by (auto simp: e dep_ok_def dep_entry_def dep_param_def)
  then show ?thesis
    using segment_snoc [OF seg, of e] sub_key_apart [of h uid nm] by (auto simp: e dep_entry_def dep_param_def segment_def)
qed

text \<open>What the emitters of the tree return, when they do.\<close>

lemma emit_dep_InrE:
  assumes "emit_dep ids has_app uid h (Dep nm call i subs) = Inr ps"
  obtains ins below where "concat_sum (map (emit_dep_input uid) (scalar_fields i)) = Inr ins"
    and "emit_subs ids has_app uid 0 subs = Inr below" and "\<forall>s\<in>set subs. dep_name s \<noteq> None"
    and "ps = (emit_dep_special_params uid i @ ins @ below) @
      [dep_entry ids has_app uid h nm call i (input_wiring uid i @ sub_wiring uid subs)]"
  using assms by (auto split: if_splits sum.splits simp: list_ex_iff)

lemma emit_subs_InrE:
  assumes "emit_subs ids has_app uid k (s # ss) = Inr ps"
  obtains qs rs where "emit_dep ids has_app (uid @ ''_'' @ dec_nat k) False s = Inr qs"
    and "emit_subs ids has_app uid (Suc k) ss = Inr rs" and "ps = qs @ rs"
  using assms by (auto split: sum.splits)

lemma result_key_produced:
  assumes "emit_dep ids has_app uid h d = Inr ps"
  shows "result_key uid h (dep_name d) \<in> set (produced ps)"
proof (cases d)
  case (Dep nm call i subs)
  with assms show ?thesis
    by (auto elim!: emit_dep_InrE simp del: emit_dep.simps simp: dep_entry_def dep_param_def produces_def)
qed

lemma emit_dep_segment:
  "emit_dep ids has_app uid h d = Inr ps \<Longrightarrow> good_tree d \<Longrightarrow>
     segment (\<lambda>x. under uid x \<or> \<not> h \<and> x = result_key uid h (dep_name d)) (if h then [result_key uid h (dep_name d)] else []) ps"
  "emit_subs ids has_app uid k ss = Inr ps \<Longrightarrow> \<forall>s\<in>set ss. good_tree s \<Longrightarrow>
     segment (\<lambda>x. \<exists>j\<ge>k. at_or_under (uid @ ''_'' @ dec_nat j) x) [] ps \<and>
     (\<forall>j<length ss. ''_dep'' @ uid @ ''_'' @ dec_nat (k + j) \<in> set (produced ps))"
proof (induction ids has_app uid h d and ids has_app uid k ss arbitrary: ps and ps
    rule: emit_dep_emit_subs.induct)
  case (1 ids has_app uid h nm call i subs)
  from "1.prems"(1) obtain ins below where ins: "concat_sum (map (emit_dep_input uid) (scalar_fields i)) = Inr ins"
    and below: "emit_subs ids has_app uid 0 subs = Inr below"
    and ps: "ps = (emit_dep_special_params uid i @ ins @ below) @
      [dep_entry ids has_app uid h nm call i (input_wiring uid i @ sub_wiring uid subs)]"
    by (rule emit_dep_InrE)
  have "\<not> (body_params i \<noteq> [] \<or> websocket_param_name i \<noteq> None)"
    using "1.prems"(1) by (auto split: if_splits)
  from "1.IH" [OF this ins below] "1.prems"(2)
  show ?case
    using "1.prems"(2) unfolding ps
    by (intro dep_segment [OF ins, simplified dependant.sel]) auto
next
  case (3 ids has_app uid k s ss)
  from "3.prems"(1) obtain qs rs where qs: "emit_dep ids has_app (uid @ ''_'' @ dec_nat k) False s = Inr qs"
    and rs: "emit_subs ids has_app uid (Suc k) ss = Inr rs" and ps: "ps = qs @ rs"
    by (rule emit_subs_InrE)
  let ?u = "\<lambda>j. uid @ ''_'' @ dec_nat j"
  have Q: "segment (at_or_under (?u k)) [] qs"
    using "3.IH"(1) [OF qs] "3.prems"(2) segment_mono unfolding at_or_under_def sub_key by fastforce
  have R: "segment (\<lambda>x. \<exists>j\<ge>Suc k. at_or_under (?u j) x) [] rs"
    "\<forall>j<length ss. ''_dep'' @ uid @ ''_'' @ dec_nat (Suc k + j) \<in> set (produced rs)"
    using "3.IH"(2) [OF qs rs] "3.prems"(2) by auto
  have "j = k" if "at_or_under (?u j) x" "at_or_under (?u k) x" for j x
    using branches_disjoint [of "uid @ ''_''" j x k] that by simp
  then have "at_or_under (?u k) x \<Longrightarrow> \<exists>j\<ge>Suc k. at_or_under (?u j) x \<Longrightarrow> False" for x
    by (metis Suc_n_not_le_n)
  from segment_append [OF Q R(1) this]
  have "segment (\<lambda>x. at_or_under (?u k) x \<or> (\<exists>j\<ge>Suc k. at_or_under (?u j) x)) [] ps"
    unfolding ps append_Nil .
  then have "segment (\<lambda>x. \<exists>j\<ge>k. at_or_under (?u j) x) [] ps"
    by (rule segment_mono) (metis Suc_leD order_refl)
  moreover have "''_dep'' @ uid @ ''_'' @ dec_nat (k + j) \<in> set (produced ps)" if "j < length (s # ss)" for j
    using that R(2) result_key_produced [OF qs] by (cases j) (auto simp: ps sub_key)
  ultimately show ?case by blast
qed simp

section \<open>The plan of a route is well typed\<close>

text \<open>
  Names that cannot be taken for the plan's own keys, and names that a double underscore cannot
  split in two ways.
\<close>

definition plain_name :: "string \<Rightarrow> bool" where
  "plain_name n \<longleftrightarrow>
     n \<noteq> [] \<and> \<not> prefix ''_dep'' n \<and> \<not> prefix ''_pm'' n \<and> \<not> prefix ''_fmreq_'' n \<and> n \<noteq> ''_combined_body''"

definition no_dunder :: "string \<Rightarrow> bool" where
  "no_dunder n \<longleftrightarrow> find_sub ''__'' (n @ ''_'') = None"

definition seg_key :: "kind \<Rightarrow> nat \<Rightarrow> string \<Rightarrow> bool" where
  "seg_key k idx x \<longleftrightarrow>
     prefix (''_pmreq_'' @ kind_name k @ dec_nat idx @ ''_'') x \<or> prefix (''_pm_'' @ kind_name k @ dec_nat idx @ ''_'') x"

definition form_key :: "string \<Rightarrow> string \<Rightarrow> bool" where
  "form_key n x \<longleftrightarrow> prefix (''_pm_fm_'' @ n @ ''__'') x"

definition body_key :: "string \<Rightarrow> bool" where
  "body_key x \<longleftrightarrow> prefix ''_pm_fm_'' x \<or> prefix ''_fmreq_'' x \<or> x = ''_combined_body''"

lemma single_segment:
  assumes "param_from_field f k None = Inr p" and "k \<noteq> KDependency"
  shows "segment P [f_name f] [p]"
  using param_from_field_Inr [OF assms(1)] assms(2) by (auto simp: segment_def dep_ok_def)

lemma expand_segment:
  assumes "distinct (map fst mfs)" and "k \<noteq> KDependency" and "\<And>n. P (''_pm'' @ uid @ ''__'' @ n)"
  shows "segment P [n] (expand_param_model a mfs k uid n True)"
proof -
  let ?ps = "map (expanded_field k uid) mfs"
  have names: "map p_name ?ps = map (\<lambda>m. ''_pm'' @ uid @ ''__'' @ m) (map fst mfs)"
    by (simp add: expanded_field_def case_prod_beta)
  have hid: "\<forall>p\<in>set ?ps. \<not> is_handler_param p" and kinds: "\<forall>p\<in>set ?ps. p_kind p = k \<and> dep_callable p = None \<and> dep_input_names p = []"
    and hints: "\<forall>p\<in>set ?ps. known_hint (type_hint p)"
    by (auto simp: expanded_field_def known_hint_def scalar_hint_get_type_name)
  have "distinct (map p_name ?ps)"
    unfolding names using assms(1) by (intro distinct_map [THEN iffD2]) (auto simp: inj_on_def)
  moreover have "wired {} ?ps"
    using kinds assms(2) by (intro wired_plain) auto
  ultimately have seg: "segment P [] ?ps"
    using hidden_all [OF hid] hints assms(3) unfolding segment_def names by auto
  have "produced ?ps = map p_name ?ps"
    using hid by (simp add: produced_def produces_def filter_id_conv [THEN iffD2])
  then have "snd ` set (map (\<lambda>(fname, fi). (field_key fname fi, ''_pm'' @ uid @ ''__'' @ fname)) mfs) \<subseteq> set (produced ?ps)"
    unfolding names by (simp add: image_image case_prod_beta)
  then have "dep_ok (set (produced ?ps))
      (dep_param n (CallBuilder a (if k = KForm then ''body'' else kind_name k)) False
        (map (\<lambda>(fname, fi). (field_key fname fi, ''_pm'' @ uid @ ''__'' @ fname)) mfs) True)"
    unfolding dep_ok_def dep_param_def by auto
  from segment_snoc [OF seg this] show ?thesis
    by (simp add: expand_param_model_def dep_param_def)
qed

lemma model_segment:
  "P (''_pmreq'' @ uid) \<Longrightarrow> segment P [n] (emit_request_param_model f k uid n True)"
  "P (''_fmreq_'' @ f_name f) \<Longrightarrow> segment P [n] (emit_form_param_model f n True)"
  by (auto simp: segment_def emit_defs dep_ok_def produces_def)

lemma handler_field_segment:
  assumes "emit_handler_field models (k, idx, f) = Inr ps" and "scalar_bucket k" and "\<And>a. distinct (map fst (models a))"
  shows "segment (seg_key k idx) [f_name f] ps"
proof -
  have [simp]: "k \<noteq> KDependency" using assms(2) by (auto simp: scalar_bucket_def)
  show ?thesis
    using assms(1) unfolding emit_handler_field_def
    by (auto simp: Let_def map_sum_Inr seg_key_def split: if_splits
        intro!: single_segment model_segment expand_segment assms(3))
qed

lemma form_field_segment:
  assumes "emit_form_field models f = Inr ps" and "\<And>a. distinct (map fst (models a))"
  shows "segment (form_key (f_name f)) [f_name f] ps"
  using assms(1) unfolding emit_form_field_def
  by (auto simp: Let_def map_sum_Inr form_key_def split: if_splits
      intro!: single_segment expand_segment assms(2))

lemma seg_keyE:
  assumes "seg_key k idx x"
  obtains p a where "x = p @ kind_name k @ dec_nat idx @ ''_'' @ a" "p \<in> {''_pmreq_'', ''_pm_''}"
  using assms unfolding seg_key_def prefix_def by (metis append.assoc insertCI)

lemma seg_key_unique:
  assumes "seg_key k i x" and "seg_key l j x" and "scalar_bucket k" and "scalar_bucket l"
  shows "(k, i) = (l, j)"
proof -
  obtain p a where x: "x = p @ kind_name k @ dec_nat i @ ''_'' @ a" "p \<in> {''_pmreq_'', ''_pm_''}"
    using assms(1) by (rule seg_keyE)
  obtain q b where y: "x = q @ kind_name l @ dec_nat j @ ''_'' @ b" "q \<in> {''_pmreq_'', ''_pm_''}"
    using assms(2) by (rule seg_keyE)
  have *: "kind_name k @ dec_nat i @ ''_'' @ a = kind_name l @ dec_nat j @ ''_'' @ b"
    using x y assms(3,4) by (auto simp: scalar_bucket_def)
  then have "k = l" using assms(3,4) by (auto simp: scalar_bucket_def)
  with * show ?thesis
    using dec_nat_sep [of i "''_'' @ a" j "''_'' @ b"] by simp
qed

lemma find_sub_None: "find_sub pat xs = None \<Longrightarrow> xs \<noteq> us @ pat @ vs"
proof (induction xs arbitrary: us)
  case (Cons x xs)
  then show ?case
    by (cases us) (auto split: if_splits simp: prefix_def)
qed (auto split: if_splits)

text \<open>A name without a double underscore ends where the first one starts.\<close>

lemma no_dunder_split:
  assumes "no_dunder m" and "no_dunder n" and "m @ ''__'' @ a = n @ ''__'' @ b"
  shows "m = n"
proof -
  have *: False if "no_dunder v" "v = u @ w" "w @ ''__'' @ a = ''__'' @ b" "w \<noteq> []" for u v w a b
  proof -
    from that(3,4) obtain z where "w @ ''_'' = ''__'' @ z"
      by (cases w; cases "tl w") auto
    with that(1,2) find_sub_None [of "''__''" "v @ ''_''" u z] show False
      by (simp add: no_dunder_def)
  qed
  from assms(3) obtain w where "m = n @ w \<and> w @ ''__'' @ a = ''__'' @ b \<or> m @ w = n \<and> ''__'' @ a = w @ ''__'' @ b"
    unfolding append_eq_append_conv2 by blast
  with * [OF assms(1), of n w a b] * [OF assms(2), of m w b a] show ?thesis
    by (metis append_Nil2)
qed

lemma form_key_unique: "form_key m x \<Longrightarrow> form_key n x \<Longrightarrow> no_dunder m \<Longrightarrow> no_dunder n \<Longrightarrow> m = n"
  using no_dunder_split [of m n] by (auto simp: form_key_def prefix_def)

lemma combined_segment:
  assumes "emit_combined_body bf i = Inr ps"
  shows "segment body_key (map f_name (body_params i)) ps"
proof -
  let ?g = "\<lambda>b. dep_param (f_name b) (CallGetter (f_name b)) False [(''cb'', ''_combined_body'')] True"
  obtain f where ps: "ps = combined_body f # map ?g (body_params i)"
    using assms by (auto simp: emit_combined_body_def split: option.splits if_splits)
  have "wired {''_combined_body''} (map ?g fs) \<and> (\<forall>p\<in>set (map ?g fs). type_hint p = ''any'') \<and>
      shown (map ?g fs) = map f_name fs \<and> hidden (map ?g fs) = []" for fs
  proof (induction fs)
    case (Cons f fs)
    then show ?case
      using wired_mono [of "{''_combined_body''}" "map ?g fs" "insert (f_name f) {''_combined_body''}"]
      by (simp add: dep_ok_def dep_param_def produces_def insert_commute)
  qed simp
  then show ?thesis
    unfolding ps by (auto simp: segment_def combined_body_def produces_def dep_ok_def body_key_def)
qed

lemma form_body_key: "form_key n x \<Longrightarrow> body_key x"
  by (auto simp: form_key_def body_key_def prefix_def)

lemma emit_body_cases:
  assumes "emit_body models bf i = Inr ps"
  shows "body_params i = [] \<and> ps = [] \<or> emit_combined_body bf i = Inr ps \<or>
    (\<exists>f. body_params i = [f] \<and> ps = emit_form_param_model f (f_name f) True) \<or>
    (\<exists>f p. body_params i = [f] \<and> ps = [p] \<and> param_from_field f KBody None = Inr p) \<or>
    concat_sum (map (emit_form_field models) (body_params i)) = Inr ps"
proof (cases "body_params i")
  case Nil
  with assms show ?thesis by (simp add: emit_body_def)
next
  case fs: (Cons f fs)
  show ?thesis
  proof (cases fs)
    case Nil
    with fs assms show ?thesis
      by (auto simp add: emit_body_def Let_def map_sum_Inr split: if_splits sum.splits)
  next
    case (Cons g gs)
    with fs assms show ?thesis
      by (simp add: emit_body_def Let_def del: concat_sum.simps split: if_splits)
  qed
qed

lemma body_segment:
  assumes "emit_body models bf i = Inr ps" and "distinct (map f_name (body_params i))"
    and "\<forall>f\<in>set (body_params i). no_dunder (f_name f)" and models: "\<And>a. distinct (map fst (models a))"
  shows "segment body_key (map f_name (body_params i)) ps"
proof -
  from emit_body_cases [OF assms(1)]
  consider "body_params i = []" "ps = []"
    | "emit_combined_body bf i = Inr ps"
    | f where "body_params i = [f]" "ps = emit_form_param_model f (f_name f) True"
    | f p where "body_params i = [f]" "ps = [p]" "param_from_field f KBody None = Inr p"
    | "concat_sum (map (emit_form_field models) (body_params i)) = Inr ps"
    by blast
  then show ?thesis
  proof cases
    case 2 then show ?thesis by (rule combined_segment)
  next
    case 3 then show ?thesis by (auto intro!: model_segment simp: body_key_def)
  next
    case 4 then show ?thesis by (auto intro!: single_segment)
  next
    case 5
    have "segment (\<lambda>z. \<exists>f\<in>set (body_params i). form_key (f_name f) z) (concat (map (\<lambda>f. [f_name f]) (body_params i))) ps"
      using 5 by (rule segment_concat [where c = f_name])
        (use assms(2,3) in \<open>auto intro: form_field_segment models dest: form_key_unique\<close>)
    then show ?thesis
      by (auto intro: segment_mono form_body_key simp: concat_map_singleton)
  qed simp
qed

definition handler_key :: "string \<Rightarrow> bool" where
  "handler_key x \<longleftrightarrow> (\<exists>k idx. scalar_bucket k \<and> seg_key k idx x) \<or> body_key x"

definition dep_args :: "dependant \<Rightarrow> string list" where
  "dep_args d = (case dep_name d of Some n \<Rightarrow> [n] | None \<Rightarrow> [])"

definition own_args :: "route \<Rightarrow> string list" where
  "own_args r =
     map field_name (scalar_fields (r_info r)) @ map f_name (body_params (r_info r)) @ map fst (special_params (r_info r))"

definition handler_args :: "route \<Rightarrow> string list" where
  "handler_args r = own_args r @ concat (map dep_args (r_deps r))"

definition good_names :: "route \<Rightarrow> bool" where
  "good_names r \<longleftrightarrow>
     distinct (handler_args r) \<and> list_all plain_name (handler_args r) \<and> list_all good_tree (r_deps r) \<and>
     list_all (\<lambda>f. no_dunder (f_name f)) (body_params (r_info r))"

lemma concat_sum_appendE:
  assumes "concat_sum (xs @ ys) = Inr ps"
  obtains qs rs where "concat_sum xs = Inr qs" "concat_sum ys = Inr rs" "ps = qs @ rs"
proof -
  have "\<exists>qs rs. concat_sum xs = Inr qs \<and> concat_sum ys = Inr rs \<and> ps = qs @ rs"
    using assms by (induction xs arbitrary: ps) (fastforce split: sum.splits)+
  with that show thesis by blast
qed

lemma scalar_fields_distinct: "distinct (map (\<lambda>x. (fst x, fst (snd x))) (scalar_fields i))"
proof -
  have "distinct (map fst (enumerate n xs))" for n and xs :: "field list"
    by (simp add: map_fst_enumerate)
  then show ?thesis
    by (auto simp: scalar_fields_def distinct_map inj_on_def comp_def in_set_enumerate_eq)
qed

lemma special_args_segment: "segment (\<lambda>z. False) (map fst (special_params i)) (emit_special_params i)"
proof -
  have "k \<noteq> KDependency" if "(n, k) \<in> set (special_params i)" for n k
    using that by (auto simp: special_params_def special_param_def split: option.splits)
  then have "wired {} (emit_special_params i)"
    by (intro wired_plain) (auto simp: emit_special_params_def emit_defs)
  moreover have "shown (map (\<lambda>(n, k). inject_param n k True (g k)) xs) = map fst xs \<and>
      hidden (map (\<lambda>(n, k). inject_param n k True (g k)) xs) = []" for g and xs :: "(string \<times> kind) list"
    by (induction xs) (auto simp: inject_param_def)
  ultimately show ?thesis
    unfolding segment_def by (auto simp: emit_special_params_def inject_param_def)
qed

lemma seg_body_apart: "seg_key k idx z \<Longrightarrow> scalar_bucket k \<Longrightarrow> body_key z \<Longrightarrow> False"
  by (auto simp: seg_key_def body_key_def prefix_def scalar_bucket_def)

lemma handler_segment:
  assumes "emit_handler models r = Inr ps" and "good_names r" and models: "\<And>a. distinct (map fst (models a))"
  shows "segment handler_key (own_args r) ps"
proof -
  let ?i = "r_info r"
  from assms(1) obtain as bs where as: "concat_sum (map (emit_handler_field models) (scalar_fields ?i)) = Inr as"
    and bs: "emit_body models (r_body_field r) ?i = Inr bs" and ps: "ps = as @ bs @ emit_special_params ?i"
    unfolding emit_handler_def by (auto elim!: concat_sum_appendE split: sum.splits)
  have A: "segment (\<lambda>z. \<exists>x\<in>set (scalar_fields ?i). scalar_bucket (fst x) \<and> seg_key (fst x) (fst (snd x)) z)
      (concat (map (\<lambda>x. [field_name x]) (scalar_fields ?i))) as"
    using as
  proof (rule segment_concat [where c = "\<lambda>x. (fst x, fst (snd x))"])
    fix x qs assume x: "x \<in> set (scalar_fields ?i)" and qs: "emit_handler_field models x = Inr qs"
    have k: "scalar_bucket (fst x)" using x scalar_fields_kinds [of "fst x" "fst (snd x)" "snd (snd x)"] by simp
    have "segment (seg_key (fst x) (fst (snd x))) [field_name x] qs"
      using qs k models by (intro handler_field_segment [where models = models]) auto
    with k show "segment (\<lambda>z. scalar_bucket (fst x) \<and> seg_key (fst x) (fst (snd x)) z) [field_name x] qs"
      by simp
  qed (use scalar_fields_distinct seg_key_unique in auto)
  have B: "segment body_key (map f_name (body_params ?i)) bs"
    using assms(2) models
    by (intro body_segment [OF bs]) (auto simp: good_names_def handler_args_def own_args_def list_all_iff)
  have S: "segment (\<lambda>z. False) (map fst (special_params ?i)) (emit_special_params ?i)"
    by (rule special_args_segment)
  have "\<exists>x\<in>set (scalar_fields ?i). scalar_bucket (fst x) \<and> seg_key (fst x) (fst (snd x)) z \<Longrightarrow> body_key z \<Longrightarrow> False" for z
    using seg_body_apart by blast
  then have "segment handler_key (concat (map (\<lambda>x. [field_name x]) (scalar_fields ?i)) @
      map f_name (body_params ?i) @ map fst (special_params ?i)) ps"
    unfolding ps by (intro segment_mono [OF segment_append3 [OF A B S]]) (auto simp: handler_key_def)
  then show ?thesis by (simp add: own_args_def concat_map_singleton)
qed

lemma deps_segment:
  assumes "emit_handler_deps ids has_app n ds = Inr ps" and "list_all good_tree ds"
    and "list_all plain_name (concat (map dep_args ds))"
  shows "segment (\<lambda>x. \<exists>j\<ge>n. at_or_under (dec_nat j) x) (concat (map dep_args ds)) ps"
  using assms
proof (induction ds arbitrary: n ps)
  case (Cons d ds)
  from Cons.prems(1) obtain qs rs where qs: "emit_dep ids has_app (dec_nat n) (dep_name d \<noteq> None) d = Inr qs"
    and rs: "emit_handler_deps ids has_app (Suc n) ds = Inr rs" and ps: "ps = qs @ rs"
    by (auto split: sum.splits)
  have "(if dep_name d \<noteq> None then [result_key (dec_nat n) (dep_name d \<noteq> None) (dep_name d)] else []) = dep_args d"
    using Cons.prems(3) by (auto simp: dep_args_def result_key_def truthy_name_def plain_name_def)
  then have "segment (\<lambda>x. under (dec_nat n) x \<or> dep_name d = None \<and> x = result_key (dec_nat n) False None) (dep_args d) qs"
    using emit_dep_segment(1) [OF qs] Cons.prems(2) by (simp cong: conj_cong split: if_splits)
  then have Q: "segment (at_or_under (dec_nat n)) (dep_args d) qs"
    by (rule segment_mono) (auto simp: at_or_under_def sub_key)
  have R: "segment (\<lambda>x. \<exists>j\<ge>Suc n. at_or_under (dec_nat j) x) (concat (map dep_args ds)) rs"
    using Cons.IH [OF rs] Cons.prems(2,3) by simp
  have "j = n" if "at_or_under (dec_nat j) x" "at_or_under (dec_nat n) x" for j x
    using branches_disjoint [of "[]" j x n] that by simp
  then have apart: "at_or_under (dec_nat n) x \<Longrightarrow> \<exists>j\<ge>Suc n. at_or_under (dec_nat j) x \<Longrightarrow> False" for x
    by (metis Suc_n_not_le_n)
  have "segment (\<lambda>x. \<exists>j\<ge>n. at_or_under (dec_nat j) x) (dep_args d @ concat (map dep_args ds)) ps"
    unfolding ps by (rule segment_mono [OF segment_append [OF Q R apart]]) (auto intro: Suc_leD)
  then show ?case by simp
qed simp

lemma keys_not_plain:
  "handler_key x \<Longrightarrow> \<not> plain_name x" "at_or_under (dec_nat j) x \<Longrightarrow> \<not> plain_name x"
  by (auto simp: handler_key_def seg_key_def body_key_def at_or_under_def under_def plain_name_def prefix_def)

lemma handler_dep_apart:
  assumes "handler_key x" and "at_or_under (dec_nat j) x"
  shows False
proof -
  obtain p a where x: "x = p @ dec_nat j @ a" "p \<in> {''_dep'', ''_pmreq''}"
    using assms(2) by (rule at_or_underE)
  obtain c cs where c: "dec_nat j = c # cs" "is_digit c"
    using dec_nat_nonempty [of j] by (cases "dec_nat j") auto
  then have "c \<noteq> CHR ''_''" by auto
  with assms(1) x c(1) show False
    by (auto simp: handler_key_def seg_key_def body_key_def prefix_def)
qed


definition demo_field :: "string \<Rightarrow> ann \<Rightarrow> fi_class \<Rightarrow> field" where
  "demo_field n a c =
     \<lparr>f_name = n, f_ann = a, f_class = c, f_required = True, f_default = None, f_validation_alias = None,
      f_alias = None, f_json = False, f_metadata = False, f_embed = False, f_adapter = Some 0, f_rebuilt = None\<rparr>"

definition no_params :: dep_info where
  "no_params =
     \<lparr>request_param_name = None, http_connection_param_name = None, response_param_name = None,
      background_tasks_param_name = None, security_scopes_param_name = None, websocket_param_name = None,
      path_params = [], query_params = [], header_params = [], cookie_params = [], body_params = [],
      d_oauth_scopes = [], use_cache = True, cache_scopes = [], d_scope = None, is_gen_callable = False,
      is_async_gen_callable = False, is_coroutine_callable = False\<rparr>"

text \<open>
  A route \<open>/items/{item_id}\<close> with a query model, a form model beside a file, the request, and a user who is
  found by a session, which is found by a cookie.
\<close>

definition demo_session :: dependant where
  "demo_session =
     Dep (Some ''session'') 1 (no_params\<lparr>request_param_name := Some ''req'',
       cookie_params := [demo_field ''sid'' (AUnion [AClass TStr, AClass TNone]) FiOther]\<rparr>) []"

definition demo_user :: dependant where
  "demo_user =
     Dep (Some ''user'') 2 (no_params\<lparr>header_params := [demo_field ''token'' (AClass TStr) FiOther],
       query_params := [demo_field ''page'' (AClass (TModel 1)) FiOther]\<rparr>) [demo_session]"

definition demo_route :: route where
  "demo_route =
     \<lparr>r_info = no_params\<lparr>request_param_name := Some ''request'',
        path_params := [demo_field ''item_id'' (AClass TInt) FiOther],
        query_params := [demo_field ''q'' (AGeneric TList [AClass TInt]) FiOther, demo_field ''f'' (AClass (TModel 1)) FiOther],
        body_params := [demo_field ''data'' (AClass (TModel 1)) FiForm, demo_field ''upload'' (AClass TUpload) FiFile]\<rparr>,
      r_deps = [demo_user, Dep None 3 no_params []],
      r_body_field = None\<rparr>"

definition demo_models :: models where
  "demo_models a = [(''limit'', demo_field ''limit'' (AClass TInt) FiOther), (''order'', demo_field ''order'' (AClass TStr) FiOther)]"


text \<open>The documentation of \<open>_get_type_name\<close> lists no hint for a list of lists or of bytes; the code makes them.\<close>

lemma nested_list_hint:
  "get_type_name (AGeneric TList [AGeneric TList [AClass TInt]]) = ''list_list_int''"
  "get_type_name (AGeneric TSet [AClass TBytes]) = ''list_bytes''"
  by (simp_all add: is_container_def)

end
