(* ===== verification/Dep_Engine.thy ===== *)
theory Dep_Engine
  imports Param_Plan "HOL-Library.AList"
begin

text \<open>
  The engine that walks a plan (\<open>src/router.rs\<close>: the unified dependency path of \<open>handle_request\<close>, with
  \<open>extract_single_param\<close>, \<open>build_injected_object\<close> and the tear-down of generators).  The code of the
  application is a function of an arbitrary world, which it may change.  The plan of a tree of
  dependencies is shown to do what evaluating the tree does.
\<close>

section \<open>Values from the request\<close>

definition is_rust_ws :: "char \<Rightarrow> bool" where
  "is_rust_ws c \<longleftrightarrow> (let n = of_char c :: nat in 9 \<le> n \<and> n \<le> 13 \<or> n \<in> {32, 133, 160})"

definition parse_i64 :: "string \<Rightarrow> int option" where
  "parse_i64 t =
     (case (case t of
              [] \<Rightarrow> (1, [])
            | c # cs \<Rightarrow> if c = CHR ''-'' then (- 1, cs) else if c = CHR ''+'' then (1, cs) else (1, t)) of
        (sign, ds) \<Rightarrow>
          if ds = [] \<or> \<not> list_all is_digit ds then None
          else
            let v = sign * int (foldl (\<lambda>n c. n * 10 + digit_val c) 0 ds) in
            if - (2 ^ 63) \<le> v \<and> v < 2 ^ 63 then Some v else None)"

text \<open>\<open>try_coerce_str_to_py\<close>; which texts are floats is a parameter.\<close>

definition try_coerce_str_to_py :: "(string \<Rightarrow> bool) \<Rightarrow> string \<Rightarrow> string \<Rightarrow> pv option" where
  "try_coerce_str_to_py float_ok raw hint =
     (if hint = ''int'' then map_option PvInt (parse_i64 (strip_by is_rust_ws raw))
      else if hint = ''float'' then
        (let t = strip_by is_rust_ws raw in if float_ok t then Some (PvFloat t) else None)
      else if hint = ''bool'' then
        (let l = py_lower raw in
         if l \<in> {''true'', ''t'', ''1'', ''yes'', ''y'', ''on''} then Some (PvBool True)
         else if l \<in> {''false'', ''f'', ''0'', ''no'', ''n'', ''off''} then Some (PvBool False)
         else None)
      else Some (PvStr raw))"

definition coerce_str_to_py :: "(string \<Rightarrow> bool) \<Rightarrow> string \<Rightarrow> string \<Rightarrow> pv" where
  "coerce_str_to_py float_ok raw hint =
     (case try_coerce_str_to_py float_ok raw hint of Some v \<Rightarrow> v | None \<Rightarrow> PvStr raw)"

definition split_once :: "char \<Rightarrow> string \<Rightarrow> (string \<times> string) option" where
  "split_once c s =
     (if c \<in> set s then Some (takeWhile (\<lambda>d. d \<noteq> c) s, tl (dropWhile (\<lambda>d. d \<noteq> c) s)) else None)"

definition unquote :: "string \<Rightarrow> string" where
  "unquote s = (if 2 \<le> length s \<and> hd s = CHR 0x22 \<and> last s = CHR 0x22 then butlast (tl s) else s)"

definition parse_cookie_value :: "string \<Rightarrow> string \<Rightarrow> string option" where
  "parse_cookie_value header n =
     foldl (\<lambda>found pair.
         case split_once (CHR ''='') (strip_by is_rust_ws pair) of
           None \<Rightarrow> found
         | Some (k, v) \<Rightarrow>
             if strip_by is_rust_ws k = n then Some (unquote (strip_by is_rust_ws v)) else found)
       None (split_on (CHR '';'') header)"

text \<open>A request; the value of a header is \<open>None\<close> when it is not readable as text.\<close>

record request =
  rq_path :: "(string \<times> string) list"
  rq_query :: "(string \<times> string) list"
  rq_query_multi :: "(string \<times> string list) list"
  rq_headers :: "(string \<times> string option) list option"

definition header_text :: "request \<Rightarrow> string \<Rightarrow> string option" where
  "header_text rq n = Option.bind (rq_headers rq) (\<lambda>hs. Option.bind (map_of hs n) id)"

datatype detail = Missing string string

datatype fetched = Got pv | Nothing | Missed detail | Abort nat

definition or_default :: "param_info \<Rightarrow> string \<Rightarrow> string \<Rightarrow> fetched" where
  "or_default p loc n =
     (if has_default p then Got (default_value p) else if required p then Missed (Missing loc n) else Nothing)"

definition lookup_name :: "param_info \<Rightarrow> string" where
  "lookup_name p = (case p_alias p of Some a \<Rightarrow> a | None \<Rightarrow> p_name p)"

text \<open>\<open>extract_single_param\<close>, one definition for each of the four scalar kinds.  The validator of the parameter is not consulted.\<close>

definition coerced_or :: "(string \<Rightarrow> bool) \<Rightarrow> param_info \<Rightarrow> string \<Rightarrow> string option \<Rightarrow> fetched" where
  "coerced_or float_ok p loc v =
     (case v of
        Some raw \<Rightarrow> Got (coerce_str_to_py float_ok raw (type_hint p))
      | None \<Rightarrow> or_default p loc (lookup_name p))"

definition extract_path :: "(string \<Rightarrow> bool) \<Rightarrow> request \<Rightarrow> param_info \<Rightarrow> fetched" where
  "extract_path float_ok rq p = coerced_or float_ok p ''path'' (map_of (rq_path rq) (lookup_name p))"

definition extract_query :: "(string \<Rightarrow> bool) \<Rightarrow> request \<Rightarrow> param_info \<Rightarrow> fetched" where
  "extract_query float_ok rq p =
     (if prefix ''list_'' (type_hint p) then
        (case map_of (rq_query_multi rq) (lookup_name p) of
           Some (v # vs) \<Rightarrow> Got (PvList (map (\<lambda>v. coerce_str_to_py float_ok v (drop 5 (type_hint p))) (v # vs)))
         | _ \<Rightarrow> or_default p ''query'' (lookup_name p))
      else coerced_or float_ok p ''query'' (map_of (rq_query rq) (lookup_name p)))"

definition extract_header :: "(string \<Rightarrow> bool) \<Rightarrow> request \<Rightarrow> param_info \<Rightarrow> fetched" where
  "extract_header float_ok rq p = coerced_or float_ok p ''header'' (header_text rq (py_lower (lookup_name p)))"

definition extract_cookie :: "(string \<Rightarrow> bool) \<Rightarrow> request \<Rightarrow> param_info \<Rightarrow> fetched" where
  "extract_cookie float_ok rq p =
     coerced_or float_ok p ''cookie''
       (Option.bind (header_text rq ''cookie'') (\<lambda>s. parse_cookie_value s (lookup_name p)))"

definition extract_scalar :: "(string \<Rightarrow> bool) \<Rightarrow> request \<Rightarrow> param_info \<Rightarrow> fetched" where
  "extract_scalar float_ok rq p =
     (case p_kind p of
        KPath \<Rightarrow> extract_path float_ok rq p
      | KQuery \<Rightarrow> extract_query float_ok rq p
      | KHeader \<Rightarrow> extract_header float_ok rq p
      | KCookie \<Rightarrow> extract_cookie float_ok rq p
      | _ \<Rightarrow> Nothing)"

lemmas extract_defs = extract_scalar_def extract_path_def extract_query_def extract_header_def extract_cookie_def
  coerced_or_def

section \<open>The application's code\<close>

datatype 'e gsend = GYield pv | GStop pv | GRaise 'e

type_synonym kwargs = "(string \<times> pv) list"

text \<open>
  Callables and generators of the application, the models that FastAPI and pydantic validate, the
  objects the framework makes, and the inputs that come from a body or a form.
\<close>

record ('w, 'e) env =
  call_obj :: "callable \<Rightarrow> kwargs \<Rightarrow> 'w \<Rightarrow> ('e + pv) \<times> 'w"
  call_gen :: "callable \<Rightarrow> kwargs \<Rightarrow> 'w \<Rightarrow> ('e + nat) \<times> 'w"
  gen_send :: "nat \<Rightarrow> 'w \<Rightarrow> 'e gsend \<times> 'w"
  gen_throw :: "nat \<Rightarrow> 'e \<Rightarrow> 'w \<Rightarrow> 'e gsend \<times> 'w"
  gen_close :: "nat \<Rightarrow> 'w \<Rightarrow> 'w"
  overrides :: "nat \<Rightarrow> nat option"
  new_object :: "kind \<Rightarrow> string list \<Rightarrow> 'w \<Rightarrow> ('e + pv) \<times> 'w"
  other_input :: "param_info \<Rightarrow> 'w \<Rightarrow> fetched \<times> 'w"
  float_ok :: "string \<Rightarrow> bool"

text \<open>What the engine and the evaluation of the tree have in common.\<close>

record 'w core =
  gen_deps :: "(nat \<times> bool) list"
  derrs :: "detail list"
  slots :: "kind \<Rightarrow> pv option"
  world :: 'w

text \<open>\<open>_override_aware_dep\<close>: the override of a callable, if there is one, at the time of the call.\<close>

definition override_of :: "('w, 'e) env \<Rightarrow> nat \<Rightarrow> nat" where
  "override_of env n = (case overrides env n of Some m \<Rightarrow> m | None \<Rightarrow> n)"

definition effective :: "('w, 'e) env \<Rightarrow> callable \<Rightarrow> callable" where
  "effective env c =
     (case c of
        CallOverride n _ \<Rightarrow> CallUser (override_of env n)
      | CallBridge n \<Rightarrow> CallBridge (override_of env n)
      | _ \<Rightarrow> c)"

text \<open>\<open>enter_sync_generator_dep\<close>: a generator that stops at once has a value and nothing to tear down.\<close>

definition enter_sync_generator_dep ::
  "('w, 'e) env \<Rightarrow> bool \<Rightarrow> callable \<Rightarrow> kwargs \<Rightarrow> ('w, 'z) core_scheme \<Rightarrow> ('e + pv) \<times> ('w, 'z) core_scheme"
where
  "enter_sync_generator_dep env fscope c kw s =
     (case call_gen env (effective env c) kw (world s) of
        (Inl e, w) \<Rightarrow> (Inl e, s\<lparr>world := w\<rparr>)
      | (Inr g, w) \<Rightarrow>
          (case gen_send env g w of
             (GYield v, w) \<Rightarrow> (Inr v, s\<lparr>gen_deps := gen_deps s @ [(g, fscope)], world := w\<rparr>)
           | (GStop v, w) \<Rightarrow> (Inr v, s\<lparr>world := w\<rparr>)
           | (GRaise e, w) \<Rightarrow> (Inl e, s\<lparr>world := w\<rparr>)))"

definition run_dep ::
  "('w, 'e) env \<Rightarrow> bool \<Rightarrow> bool \<Rightarrow> callable \<Rightarrow> kwargs \<Rightarrow> ('w, 'z) core_scheme \<Rightarrow> ('e + pv) \<times> ('w, 'z) core_scheme"
where
  "run_dep env is_gen fscope c kw s =
     (if is_gen then enter_sync_generator_dep env fscope c kw s
      else case call_obj env (effective env c) kw (world s) of (r, w) \<Rightarrow> (r, s\<lparr>world := w\<rparr>))"

text \<open>
  \<open>build_injected_object\<close>: request, response and background tasks are made once and shared; security
  scopes are made for each use.
\<close>

definition build_injected_object ::
  "('w, 'e) env \<Rightarrow> kind \<Rightarrow> string list \<Rightarrow> ('w, 'z) core_scheme \<Rightarrow> ('e + pv) \<times> ('w, 'z) core_scheme"
where
  "build_injected_object env k scopes s =
     (if k = KInjectScopes then
        (case new_object env k scopes (world s) of (r, w) \<Rightarrow> (r, s\<lparr>world := w\<rparr>))
      else
        case slots s k of
          Some v \<Rightarrow> (Inr v, s)
        | None \<Rightarrow>
            (case new_object env k [] (world s) of
               (Inl e, w) \<Rightarrow> (Inl e, s\<lparr>world := w\<rparr>)
             | (Inr v, w) \<Rightarrow> (Inr v, s\<lparr>slots := (slots s)(k \<mapsto> v), world := w\<rparr>)))"

definition fetch ::
  "('w, 'e) env \<Rightarrow> request \<Rightarrow> param_info \<Rightarrow> ('w, 'z) core_scheme \<Rightarrow> fetched \<times> ('w, 'z) core_scheme"
where
  "fetch env rq p s =
     (if scalar_bucket (p_kind p) then (extract_scalar (float_ok env) rq p, s)
      else case other_input env p (world s) of (r, w) \<Rightarrow> (r, s\<lparr>world := w\<rparr>))"

section \<open>The engine\<close>

record 'w eng = "'w core" +
  resolved :: "string \<Rightarrow> pv option"
  dep_cache :: "64 word \<Rightarrow> string option"
  failed_sources :: "string set"

datatype 'e stop = DepRaised 'e | BodyError nat

definition add_arg :: "string \<Rightarrow> pv option \<Rightarrow> kwargs \<Rightarrow> kwargs" where
  "add_arg n v d = (case v of None \<Rightarrow> d | Some v \<Rightarrow> AList.update n v d)"

definition dep_kwargs :: "(string \<Rightarrow> pv option) \<Rightarrow> (string \<times> string) list \<Rightarrow> kwargs" where
  "dep_kwargs res wiring = foldl (\<lambda>d (n, src). add_arg n (res src) d) [] wiring"

definition is_inject :: "kind \<Rightarrow> bool" where
  "is_inject k \<longleftrightarrow> k \<in> {KInjectRequest, KInjectResponse, KInjectBackground, KInjectScopes}"

definition put :: "string \<Rightarrow> pv \<Rightarrow> 'w eng \<Rightarrow> 'w eng" where
  "put n v s = s\<lparr>resolved := (resolved s)(n \<mapsto> v)\<rparr>"

definition cache_hit :: "param_info \<Rightarrow> 'w eng \<Rightarrow> pv option" where
  "cache_hit p s = Option.bind (dep_callable_id p) (\<lambda>i. Option.bind (dep_cache s i) (resolved s))"

definition remember :: "param_info \<Rightarrow> 'w eng \<Rightarrow> 'w eng" where
  "remember p s =
     (case dep_callable_id p of Some i \<Rightarrow> s\<lparr>dep_cache := (dep_cache s)(i \<mapsto> p_name p)\<rparr> | None \<Rightarrow> s)"

definition dependency_step ::
  "('w, 'e) env \<Rightarrow> param_info \<Rightarrow> 'w eng \<Rightarrow> 'e stop \<times> 'w eng + 'w eng"
where
  "dependency_step env p s =
     (if \<exists>w\<in>set (dep_input_names p). snd w \<in> failed_sources s then Inr s
      else
        case cache_hit p s of
          Some v \<Rightarrow> Inr (put (p_name p) v s)
        | None \<Rightarrow>
            (case dep_callable p of
               None \<Rightarrow> Inr s
             | Some c \<Rightarrow>
                 (case run_dep env (is_generator_dep p) (is_function_scope p) c
                         (dep_kwargs (resolved s) (dep_input_names p)) s of
                    (Inl e, s) \<Rightarrow> Inl (DepRaised e, s)
                  | (Inr v, s) \<Rightarrow> Inr (put (p_name p) v (remember p s)))))"

definition input_step ::
  "('w, 'e) env \<Rightarrow> request \<Rightarrow> param_info \<Rightarrow> 'w eng \<Rightarrow> 'e stop \<times> 'w eng + 'w eng"
where
  "input_step env rq p s =
     (if is_handler_param p then Inr s
      else if is_inject (p_kind p) then
        (case build_injected_object env (p_kind p) (p_oauth_scopes p) s of
           (Inl e, s) \<Rightarrow> Inl (DepRaised e, s)
         | (Inr v, s) \<Rightarrow> Inr (put (p_name p) v s))
      else
        case fetch env rq p s of
          (Got v, s) \<Rightarrow> Inr (put (p_name p) v s)
        | (Nothing, s) \<Rightarrow> Inr s
        | (Missed d, s) \<Rightarrow>
            Inr (s\<lparr>derrs := derrs s @ [d], failed_sources := insert (p_name p) (failed_sources s)\<rparr>)
        | (Abort r, s) \<Rightarrow> Inl (BodyError r, s))"

definition engine_step ::
  "('w, 'e) env \<Rightarrow> request \<Rightarrow> param_info \<Rightarrow> 'w eng \<Rightarrow> 'e stop \<times> 'w eng + 'w eng"
where
  "engine_step env rq p s =
     (if p_kind p = KDependency then dependency_step env p s else input_step env rq p s)"

fun run_params ::
  "('w, 'e) env \<Rightarrow> request \<Rightarrow> param_info list \<Rightarrow> 'w eng \<Rightarrow> 'e stop \<times> 'w eng + 'w eng"
where
  "run_params env rq [] s = Inr s"
| "run_params env rq (p # ps) s =
     (case engine_step env rq p s of Inl x \<Rightarrow> Inl x | Inr s \<Rightarrow> run_params env rq ps s)"

section \<open>The evaluation of the tree\<close>

text \<open>
  The specification: dependencies are evaluated where they stand in the tree, without keys.  An
  argument is a value or nothing, with a mark if its input could not be extracted.  A dependency with
  a marked input is skipped.  With \<open>strict\<close>, as in FastAPI, so is one that needs a skipped dependency.
\<close>

record 'w sol = "'w core" +
  cached :: "64 word \<Rightarrow> pv option"

type_synonym arg = "pv option \<times> bool"

type_synonym ('w, 'e) solver = "'w sol \<Rightarrow> 'e stop \<times> 'w sol + arg list \<times> 'w sol"

definition then_all :: "('w, 'e) solver \<Rightarrow> ('w, 'e) solver \<Rightarrow> ('w, 'e) solver" where
  "then_all A B s =
     (case A s of
        Inl z \<Rightarrow> Inl z
      | Inr (rs, s) \<Rightarrow> (case B s of Inl z \<Rightarrow> Inl z | Inr (ts, s) \<Rightarrow> Inr (rs @ ts, s)))"

fun traverse :: "('a \<Rightarrow> ('w, 'e) solver) \<Rightarrow> 'a list \<Rightarrow> ('w, 'e) solver" where
  "traverse f [] = (\<lambda>s. Inr ([], s))"
| "traverse f (x # xs) = then_all (f x) (traverse f xs)"

definition value_of :: "('e + pv) \<times> 'w sol \<Rightarrow> 'e stop \<times> 'w sol + arg list \<times> 'w sol" where
  "value_of rs = (case rs of (Inl e, s) \<Rightarrow> Inl (DepRaised e, s) | (Inr v, s) \<Rightarrow> Inr ([(Some v, False)], s))"

definition solve_special :: "('w, 'e) env \<Rightarrow> dep_info \<Rightarrow> string \<times> kind \<Rightarrow> ('w, 'e) solver" where
  "solve_special env i nk s = value_of (build_injected_object env (snd nk) (scopes_for i (snd nk)) s)"

definition input_result :: "fetched \<times> 'w sol \<Rightarrow> 'e stop \<times> 'w sol + arg list \<times> 'w sol" where
  "input_result r =
     (case r of
        (Got v, s) \<Rightarrow> Inr ([(Some v, False)], s)
      | (Nothing, s) \<Rightarrow> Inr ([(None, False)], s)
      | (Missed d, s) \<Rightarrow> Inr ([(None, True)], s\<lparr>derrs := derrs s @ [d]\<rparr>)
      | (Abort r, s) \<Rightarrow> Inl (BodyError r, s))"

definition solve_input :: "('w, 'e) env \<Rightarrow> request \<Rightarrow> kind \<times> nat \<times> field \<Rightarrow> ('w, 'e) solver" where
  "solve_input env rq kf s =
     (case kf of
        (k, idx, f) \<Rightarrow>
          if k \<in> {KQuery, KHeader, KCookie} \<and> is_basemodel (unwrap_optional (f_ann f)) then
            (case build_injected_object env KInjectRequest [] s of
               (Inl e, s) \<Rightarrow> Inl (DepRaised e, s)
             | (Inr v, s) \<Rightarrow>
                 value_of (run_dep env False False (CallParamModel (f_name f) k) [(''request'', v)] s))
          else
            case param_from_field f k (Some (f_name f)) of
              Inl _ \<Rightarrow> Inr ([(None, False)], s)
            | Inr p \<Rightarrow> input_result (fetch env rq p s))"

definition args_of :: "string list \<Rightarrow> arg list \<Rightarrow> kwargs" where
  "args_of ns rs = foldl (\<lambda>d (n, v). add_arg n v d) [] (zip ns (map fst rs))"

definition store :: "64 word option \<Rightarrow> pv \<Rightarrow> 'w sol \<Rightarrow> 'w sol" where
  "store i v s = (case i of Some i \<Rightarrow> s\<lparr>cached := (cached s)(i \<mapsto> v)\<rparr> | None \<Rightarrow> s)"

definition finish_dep ::
  "('w, 'e) env \<Rightarrow> ids \<Rightarrow> bool \<Rightarrow> bool \<Rightarrow> nat \<Rightarrow> dep_info \<Rightarrow> string list \<Rightarrow> arg list \<Rightarrow> arg list \<Rightarrow> ('w, 'e) solver"
where
  "finish_dep env ids has_app strict call i ns own below s =
     (if list_ex snd (own @ below) \<or> strict \<and> list_ex (\<lambda>r. fst r = None) below then Inr ([(None, False)], s)
      else
        case Option.bind (ids i call) (cached s) of
          Some v \<Rightarrow> Inr ([(Some v, False)], s)
        | None \<Rightarrow>
            (case run_dep env (is_gen_callable i \<or> is_async_gen_callable i) (d_scope i = Some ''function'')
                    (wrap_dep has_app i call) (args_of ns (own @ below)) s of
               (Inl e, s) \<Rightarrow> Inl (DepRaised e, s)
             | (Inr v, s) \<Rightarrow> Inr ([(Some v, False)], store (ids i call) v s)))"

fun solve_dep :: "('w, 'e) env \<Rightarrow> request \<Rightarrow> ids \<Rightarrow> bool \<Rightarrow> bool \<Rightarrow> dependant \<Rightarrow> ('w, 'e) solver"
and solve_subs :: "('w, 'e) env \<Rightarrow> request \<Rightarrow> ids \<Rightarrow> bool \<Rightarrow> bool \<Rightarrow> dependant list \<Rightarrow> ('w, 'e) solver"
where
  "solve_dep env rq ids has_app strict (Dep nm call i subs) s =
     (case then_all (traverse (solve_special env i) (special_params i)) (traverse (solve_input env rq) (scalar_fields i)) s of
        Inl z \<Rightarrow> Inl z
      | Inr (own, s) \<Rightarrow>
          (case solve_subs env rq ids has_app strict subs s of
             Inl z \<Rightarrow> Inl z
           | Inr (below, s) \<Rightarrow>
               finish_dep env ids has_app strict call i (input_names i @ map (\<lambda>d. the (dep_name d)) subs) own below s))"
| "solve_subs env rq ids has_app strict [] s = Inr ([], s)"
| "solve_subs env rq ids has_app strict (d # ds) s =
     (case solve_dep env rq ids has_app strict d s of
        Inl z \<Rightarrow> Inl z
      | Inr (rs, s) \<Rightarrow>
          (case solve_subs env rq ids has_app strict ds s of
             Inl z \<Rightarrow> Inl z
           | Inr (ts, s) \<Rightarrow> Inr (rs @ ts, s)))"

section \<open>Simulation\<close>

definition same_core :: "('w, 'y) core_scheme \<Rightarrow> ('w, 'z) core_scheme \<Rightarrow> bool" where
  "same_core e s \<longleftrightarrow> gen_deps e = gen_deps s \<and> derrs e = derrs s \<and> slots e = slots s \<and> world e = world s"

text \<open>The evaluation's cache holds what the engine's cache refers to.\<close>

definition related :: "'w eng \<Rightarrow> 'w sol \<Rightarrow> bool" where
  "related e s \<longleftrightarrow>
     same_core e s \<and> cached s = (\<lambda>i. Option.bind (dep_cache e i) (resolved e)) \<and>
     (\<forall>i n. dep_cache e i = Some n \<longrightarrow> resolved e n \<noteq> None)"

definition fresh :: "(string \<Rightarrow> bool) \<Rightarrow> 'w eng \<Rightarrow> bool" where
  "fresh P e \<longleftrightarrow> (\<forall>y. P y \<longrightarrow> resolved e y = None \<and> y \<notin> failed_sources e)"

definition unchanged :: "(string \<Rightarrow> bool) \<Rightarrow> 'w eng \<Rightarrow> 'w eng \<Rightarrow> bool" where
  "unchanged P e e' \<longleftrightarrow>
     (\<forall>y. P y \<or> resolved e' y = resolved e y \<and> (y \<in> failed_sources e' \<longleftrightarrow> y \<in> failed_sources e))"

text \<open>
  \<open>simulates\<close>: the segment \<open>ps\<close> of a plan, which writes only keys in \<open>P\<close>, does what the solver \<open>A\<close> does and
  leaves its results under the keys \<open>xs\<close>.
\<close>

definition matches ::
  "(string \<Rightarrow> bool) \<Rightarrow> string list \<Rightarrow> 'w eng \<Rightarrow> 'e stop \<times> 'w eng + 'w eng \<Rightarrow>
    'e stop \<times> 'w sol + arg list \<times> 'w sol \<Rightarrow> bool"
where
  "matches P xs e r t =
     (case t of
        Inl (st, s') \<Rightarrow> \<exists>e'. r = Inl (st, e') \<and> same_core e' s'
      | Inr (rs, s') \<Rightarrow>
          \<exists>e'. r = Inr e' \<and> related e' s' \<and> unchanged P e e' \<and>
            rs = map (\<lambda>x. (resolved e' x, x \<in> failed_sources e')) xs)"

definition simulates ::
  "('w, 'e) env \<Rightarrow> request \<Rightarrow> (string \<Rightarrow> bool) \<Rightarrow> param_info list \<Rightarrow> string list \<Rightarrow> ('w, 'e) solver \<Rightarrow> bool"
where
  "simulates env rq P ps xs A \<longleftrightarrow>
     (\<forall>e s. related e s \<longrightarrow> fresh P e \<longrightarrow> matches P xs e (run_params env rq ps e) (A s))"

lemma run_params_append:
  "run_params env rq (ps @ qs) e =
     (case run_params env rq ps e of Inl z \<Rightarrow> Inl z | Inr e \<Rightarrow> run_params env rq qs e)"
  by (induction ps arbitrary: e) (auto split: sum.split)

lemma matchesI [intro]:
  "same_core e' s' \<Longrightarrow> matches P xs e (Inl (st, e')) (Inl (st, s'))"
  "related e' s' \<Longrightarrow> unchanged P e e' \<Longrightarrow> rs = map (\<lambda>x. (resolved e' x, x \<in> failed_sources e')) xs \<Longrightarrow>
     matches P xs e (Inr e') (Inr (rs, s'))"
  by (auto simp: matches_def)

lemma matchesE:
  assumes "matches P xs e r t"
  obtains (stop) st e' s' where "r = Inl (st, e')" "t = Inl (st, s')" "same_core e' s'"
    | (go) rs e' s' where "r = Inr e'" "t = Inr (rs, s')" "related e' s'" "unchanged P e e'"
        "rs = map (\<lambda>x. (resolved e' x, x \<in> failed_sources e')) xs"
  using assms by (auto simp: matches_def split: sum.splits)

lemma simulates_Nil [simp]: "simulates env rq P [] [] (\<lambda>s. Inr ([], s))"
  by (auto simp: simulates_def unchanged_def)

lemma unchanged_mono: "unchanged P e e' \<Longrightarrow> (\<And>x. P x \<Longrightarrow> Q x) \<Longrightarrow> unchanged Q e e'"
  by (auto simp: unchanged_def)

lemma unchanged_trans:
  "unchanged P e e' \<Longrightarrow> unchanged Q e' e'' \<Longrightarrow> unchanged (\<lambda>x. P x \<or> Q x) e e''"
  unfolding unchanged_def by metis

lemma fresh_after: "fresh Q e \<Longrightarrow> unchanged P e e' \<Longrightarrow> (\<And>x. P x \<Longrightarrow> Q x \<Longrightarrow> False) \<Longrightarrow> fresh Q e'"
  unfolding unchanged_def fresh_def by metis

lemma fresh_mono: "fresh Q e \<Longrightarrow> (\<And>x. P x \<Longrightarrow> Q x) \<Longrightarrow> fresh P e"
  by (auto simp: fresh_def)

lemma simulates_mono:
  fixes A :: "('w, 'e) solver"
  assumes "simulates env rq P ps xs A" and "\<And>x. P x \<Longrightarrow> Q x"
  shows "simulates env rq Q ps xs A"
  unfolding simulates_def
proof (intro allI impI)
  fix e :: "'w eng" and s :: "'w sol"
  assume "related e s" and "fresh Q e"
  with assms have "matches P xs e (run_params env rq ps e) (A s)"
    unfolding simulates_def by (metis fresh_mono)
  then show "matches Q xs e (run_params env rq ps e) (A s)"
    by (cases rule: matchesE) (auto intro: unchanged_mono assms(2))
qed

lemma matches_then:
  fixes A B :: "('w, 'e) solver"
  assumes "related e' s'" and u: "unchanged P e e'"
    and rs: "rs = map (\<lambda>x. (resolved e' x, x \<in> failed_sources e')) xs"
    and m: "matches Q ys e' r (B s')" and A: "A s = Inr (rs, s')"
    and apart: "\<And>x. P x \<Longrightarrow> Q x \<Longrightarrow> False" and keys: "\<forall>x\<in>set xs. P x"
  shows "matches (\<lambda>x. P x \<or> Q x) (xs @ ys) e r (then_all A B s)"
  using m
proof (cases rule: matchesE)
  case (stop st e'' s'')
  then show ?thesis
    by (simp add: A then_all_def matchesI)
next
  case (go ts e'' s'')
  have "rs = map (\<lambda>x. (resolved e'' x, x \<in> failed_sources e'')) xs"
  proof -
    have "resolved e'' x = resolved e' x \<and> (x \<in> failed_sources e'') = (x \<in> failed_sources e')" if "x \<in> set xs" for x
    proof -
      have "\<not> Q x" using that keys apart by blast
      then show ?thesis using go(4) unfolding unchanged_def by blast
    qed
    then show ?thesis by (simp add: rs)
  qed
  with go show ?thesis
    by (simp add: A then_all_def matchesI(2) unchanged_trans [OF u])
qed

lemma simulates_append:
  fixes A B :: "('w, 'e) solver"
  assumes A: "simulates env rq P ps xs A" and B: "simulates env rq Q qs ys B"
    and apart: "\<And>x. P x \<Longrightarrow> Q x \<Longrightarrow> False" and keys: "\<forall>x\<in>set xs. P x"
  shows "simulates env rq (\<lambda>x. P x \<or> Q x) (ps @ qs) (xs @ ys) (then_all A B)"
  unfolding simulates_def
proof (intro allI impI)
  fix e :: "'w eng" and s :: "'w sol"
  assume "related e s" and f: "fresh (\<lambda>x. P x \<or> Q x) e"
  moreover have "fresh P e" and q: "fresh Q e"
    using f by (auto simp: fresh_def)
  ultimately have "matches P xs e (run_params env rq ps e) (A s)"
    using A unfolding simulates_def by blast
  then show "matches (\<lambda>x. P x \<or> Q x) (xs @ ys) e (run_params env rq (ps @ qs) e) (then_all A B s)"
  proof (cases rule: matchesE)
    case (stop st e' s')
    then show ?thesis
      by (simp add: then_all_def run_params_append matchesI)
  next
    case (go rs e' s')
    have "fresh Q e'"
      using q go(4) apart by (rule fresh_after)
    with B go(3) have "matches Q ys e' (run_params env rq qs e') (B s')"
      unfolding simulates_def by blast
    with go(3,4,5) have "matches (\<lambda>x. P x \<or> Q x) (xs @ ys) e (run_params env rq qs e') (then_all A B s)"
      using go(2) apart keys by (rule matches_then)
    then show ?thesis
      by (simp add: run_params_append go(1))
  qed
qed

text \<open>What both sides do to the common state is the same.\<close>

definition carried :: "'w eng \<Rightarrow> 'r \<times> 'w eng \<Rightarrow> 'r \<times> 'w sol \<Rightarrow> bool" where
  "carried e x y \<longleftrightarrow>
     fst x = fst y \<and> related (snd x) (snd y) \<and> resolved (snd x) = resolved e \<and>
     failed_sources (snd x) = failed_sources e"

lemma carriedE:
  assumes "carried e x y"
  obtains r e' s' where "x = (r, e')" "y = (r, s')" "related e' s'" "resolved e' = resolved e"
    "failed_sources e' = failed_sources e"
  using assms by (cases x; cases y) (simp add: carried_def)

lemma related_core:
  assumes "related e s"
  shows "gen_deps e = gen_deps s" "derrs e = derrs s" "slots e = slots s" "world e = world s"
    "cached s i = Option.bind (dep_cache e i) (resolved e)"
  using assms by (simp_all add: related_def same_core_def)

lemma related_update [simp]:
  assumes "related e s"
  shows "related (e\<lparr>world := w\<rparr>) (s\<lparr>world := w\<rparr>)"
    "related (e\<lparr>gen_deps := gs, world := w\<rparr>) (s\<lparr>gen_deps := gs, world := w\<rparr>)"
    "related (e\<lparr>slots := t, world := w\<rparr>) (s\<lparr>slots := t, world := w\<rparr>)"
    "related (e\<lparr>derrs := ds, failed_sources := F\<rparr>) (s\<lparr>derrs := ds\<rparr>)"
  using assms by (auto simp: related_def same_core_def)

lemma run_dep_sim: "related e s \<Longrightarrow> carried e (run_dep env g f c kw e) (run_dep env g f c kw s)"
  unfolding run_dep_def enter_sync_generator_dep_def
  by (simp add: related_core carried_def split: prod.split sum.split gsend.split)

lemma build_sim: "related e s \<Longrightarrow> carried e (build_injected_object env k sc e) (build_injected_object env k sc s)"
  unfolding build_injected_object_def
  by (simp add: related_core carried_def split: prod.split sum.split option.split)

lemma fetch_sim: "related e s \<Longrightarrow> carried e (fetch env rq p e) (fetch env rq p s)"
  unfolding fetch_def by (simp add: related_core carried_def split: prod.split)

lemma bind_other:
  assumes "related e s" and "resolved e n = None"
  shows "Option.bind (dep_cache e i) ((resolved e)(n \<mapsto> v)) = Option.bind (dep_cache e i) (resolved e)"
  using assms by (cases "dep_cache e i") (fastforce simp: related_def)+

lemma related_put:
  assumes "related e s" and "resolved e n = None"
  shows "related (put n v e) s"
  using assms bind_other [OF assms] by (auto simp: related_def same_core_def put_def)

lemma related_remember:
  assumes "related e s" and "resolved e (p_name p) = None"
  shows "related (put (p_name p) v (remember p e)) (store (dep_callable_id p) v s)"
proof (cases "dep_callable_id p")
  case (Some i)
  then show ?thesis
    using assms(1) bind_other [OF assms] by (auto simp: remember_def store_def put_def related_def same_core_def)
qed (use assms in \<open>simp add: related_put remember_def store_def\<close>)

lemma unchanged_put:
  "P n \<Longrightarrow> resolved e' = resolved e \<Longrightarrow> failed_sources e' = failed_sources e \<Longrightarrow> unchanged P e (put n v e')"
  by (auto simp: unchanged_def put_def)

lemma put_simps [simp]:
  "resolved (put n v e) n = Some v" "failed_sources (put n v e) = failed_sources e"
  "resolved (remember p e) = resolved e" "failed_sources (remember p e) = failed_sources e"
  by (auto simp: put_def remember_def split: option.split)

section \<open>Single entries\<close>

lemma freshD: "fresh P e \<Longrightarrow> P n \<Longrightarrow> resolved e n = None \<and> n \<notin> failed_sources e"
  by (simp add: fresh_def)

lemma matches_put:
  assumes "fresh (\<lambda>x. x = n) e" and "related (put n v e') s'" and "resolved e' = resolved e"
    and "failed_sources e' = failed_sources e"
  shows "matches (\<lambda>x. x = n) [n] e (Inr (put n v e')) (Inr ([(Some v, False)], s'))"
  using freshD [OF assms(1), of n] assms(2-4) by (intro matchesI) (auto intro: unchanged_put)

lemma matches_skip:
  assumes "fresh (\<lambda>x. x = n) e" and "related e' s'" and "resolved e' = resolved e" and "failed_sources e' = failed_sources e"
  shows "matches (\<lambda>x. x = n) [n] e (Inr e') (Inr ([(None, False)], s'))"
  using freshD [OF assms(1), of n] assms(2-4) by (intro matchesI) (auto simp: unchanged_def)

lemma simulates_single:
  fixes A :: "('w, 'e) solver"
  assumes "\<And>e s. related e s \<Longrightarrow> fresh P e \<Longrightarrow> matches P xs e (engine_step env rq p e) (A s)"
  shows "simulates env rq P [p] xs A"
  unfolding simulates_def
proof (intro allI impI)
  fix e :: "'w eng" and s :: "'w sol"
  assume "related e s" and "fresh P e"
  from assms [OF this] show "matches P xs e (run_params env rq [p] e) (A s)"
    by (cases "engine_step env rq p e") simp_all
qed

lemma inject_sim:
  fixes env :: "('w, 'e) env"
  assumes "is_inject k"
  shows "simulates env rq (\<lambda>x. x = n) [inject_param n k False sc] [n]
    (\<lambda>s. value_of (build_injected_object env k sc s))"
proof (rule simulates_single)
  fix e :: "'w eng" and s :: "'w sol"
  assume es: "related e s" "fresh (\<lambda>x. x = n) e"
  have k: "k \<noteq> KDependency" using assms by (auto simp: is_inject_def)
  from build_sim [OF es(1), of env k sc]
  show "matches (\<lambda>x. x = n) [n] e (engine_step env rq (inject_param n k False sc) e)
    (value_of (build_injected_object env k sc s))"
  proof (cases rule: carriedE)
    case (1 r e' s')
    have "resolved e' n = None" using freshD [OF es(2)] 1(4) by simp
    then have "related (put n v e') s'" for v using 1(3) by (simp add: related_put)
    then show ?thesis
      using 1 es k assms
      by (cases r) (auto simp: engine_step_def input_step_def inject_param_def value_of_def related_def intro!: matchesI(1) matches_put)
  qed
qed

lemma field_sim:
  fixes env :: "('w, 'e) env"
  assumes "\<not> is_handler_param p" and "\<not> is_inject (p_kind p)" and "p_kind p \<noteq> KDependency" and n: "n = p_name p"
  shows "simulates env rq (\<lambda>x. x = n) [p] [n] (\<lambda>s. input_result (fetch env rq p s))"
proof (rule simulates_single)
  fix e :: "'w eng" and s :: "'w sol"
  assume es: "related e s" "fresh (\<lambda>x. x = n) e"
  from fetch_sim [OF es(1), of env rq p]
  show "matches (\<lambda>x. x = n) [n] e (engine_step env rq p e) (input_result (fetch env rq p s))"
  proof (cases rule: carriedE)
    case (1 r e' s')
    have none: "resolved e' n = None" "n \<notin> failed_sources e" using freshD [OF es(2)] 1(4) by auto
    have step: "engine_step env rq p e = (case r of Got v \<Rightarrow> Inr (put n v e') | Nothing \<Rightarrow> Inr e'
        | Missed d \<Rightarrow> Inr (e'\<lparr>derrs := derrs s' @ [d], failed_sources := insert n (failed_sources e')\<rparr>)
        | Abort x \<Rightarrow> Inl (BodyError x, e'))"
      using assms 1 by (auto simp: engine_step_def input_step_def related_core split: fetched.split)
    show ?thesis
    proof (cases r)
      case (Got v)
      then show ?thesis
        using 1 es none by (simp add: step input_result_def matches_put related_put)
    next
      case Nothing
      then show ?thesis
        using 1 es by (simp add: step input_result_def matches_skip)
    next
      case (Missed d)
      then show ?thesis
        using 1 none by (auto simp: step input_result_def unchanged_def intro!: matchesI(2))
    next
      case (Abort x)
      then show ?thesis
        using 1 by (auto simp: step input_result_def related_def intro: matchesI(1))
    qed
  qed
qed

text \<open>An entry for a callable, given what its inputs gave.\<close>

definition solve_entry :: "('w, 'e) env \<Rightarrow> param_info \<Rightarrow> callable \<Rightarrow> string list \<Rightarrow> arg list \<Rightarrow> ('w, 'e) solver" where
  "solve_entry env p c ns rs s =
     (if list_ex snd rs then Inr ([(None, False)], s)
      else
        case Option.bind (dep_callable_id p) (cached s) of
          Some v \<Rightarrow> Inr ([(Some v, False)], s)
        | None \<Rightarrow>
            (case run_dep env (is_generator_dep p) (is_function_scope p) c (args_of ns rs) s of
               (Inl e, s) \<Rightarrow> Inl (DepRaised e, s)
             | (Inr v, s) \<Rightarrow> Inr ([(Some v, False)], store (dep_callable_id p) v s)))"

lemma dep_kwargs_args:
  assumes "length ns = length xs"
  shows "dep_kwargs res (zip ns xs) = args_of ns (map (\<lambda>x. (res x, f x)) xs)"
proof -
  have "foldl (\<lambda>d (n, src). add_arg n (res src) d) d (zip ns xs) =
      foldl (\<lambda>d (n, v). add_arg n v d) d (zip ns (map res xs))" for d
    using assms by (induction ns xs arbitrary: d rule: list_induct2) simp_all
  then show ?thesis
    by (simp add: dep_kwargs_def args_of_def comp_def)
qed

lemma entry_sim:
  fixes env :: "('w, 'e) env"
  assumes p: "p_kind p = KDependency" "dep_callable p = Some c" "dep_input_names p = zip ns xs" "length ns = length xs"
    and es: "related e s" "fresh (\<lambda>x. x = p_name p) e"
  shows "matches (\<lambda>x. x = p_name p) [p_name p] e (engine_step env rq p e)
    (solve_entry env p c ns (map (\<lambda>x. (resolved e x, x \<in> failed_sources e)) xs) s)"
proof -
  let ?rs = "map (\<lambda>x. (resolved e x, x \<in> failed_sources e)) xs" and ?kw = "dep_kwargs (resolved e) (dep_input_names p)"
  have failed: "(\<exists>w\<in>set (dep_input_names p). snd w \<in> failed_sources e) \<longleftrightarrow> list_ex snd ?rs"
  proof -
    have "(\<exists>w\<in>set (dep_input_names p). snd w \<in> failed_sources e) \<longleftrightarrow> (\<exists>x\<in>snd ` set (zip ns xs). x \<in> failed_sources e)"
      by (simp add: p(3))
    also have "snd ` set (zip ns xs) = set xs"
      using p(4) by (metis map_snd_zip set_map)
    finally show ?thesis by (simp add: list_ex_iff)
  qed
  have same: "cache_hit p e = Option.bind (dep_callable_id p) (cached s)"
    by (cases "dep_callable_id p") (simp_all add: cache_hit_def related_core [OF es(1)])
  have kw: "?kw = args_of ns ?rs"
    by (simp add: p(3) dep_kwargs_args [OF p(4)])
  have none: "resolved e (p_name p) = None" using freshD [OF es(2)] by simp
  note defs = engine_step_def dependency_step_def solve_entry_def failed same p(1,2)
  consider (failed) "list_ex snd ?rs" | (hit) v where "\<not> list_ex snd ?rs" "Option.bind (dep_callable_id p) (cached s) = Some v"
    | (run) "\<not> list_ex snd ?rs" "Option.bind (dep_callable_id p) (cached s) = None"
    by (cases "Option.bind (dep_callable_id p) (cached s)") auto
  then show ?thesis
  proof cases
    case failed
    then show ?thesis using es by (simp add: defs matches_skip)
  next
    case (hit v)
    then show ?thesis using es none by (simp add: defs matches_put related_put)
  next
    case run
    from run_dep_sim [OF es(1), of env "is_generator_dep p" "is_function_scope p" c ?kw]
    show ?thesis
    proof (cases rule: carriedE)
      case (1 r e' s')
      have "related (put (p_name p) v (remember p e')) (store (dep_callable_id p) v s')" for v
        using 1 none by (intro related_remember) auto
      then show ?thesis
        using run 1 es
        by (cases r) (auto simp: defs kw [symmetric] related_def [of e' s'] intro!: matchesI(1) matches_put)
    qed
  qed
qed

lemma matches_after:
  assumes "unchanged P e e'" and "matches Q xs e' r t"
  shows "matches (\<lambda>x. P x \<or> Q x) xs e r t"
  using assms(2)
proof (cases rule: matchesE)
  case (go rs e'' s'')
  then show ?thesis
    using unchanged_trans [OF assms(1) go(4)] by (simp add: matchesI(2))
qed (simp add: matchesI(1))

lemma simulates_snoc:
  fixes A :: "('w, 'e) solver"
  assumes A: "simulates env rq P ps xs A" and n: "\<not> P (p_name p)"
    and p: "p_kind p = KDependency" "dep_callable p = Some c" "dep_input_names p = zip ns xs" "length ns = length xs"
  shows "simulates env rq (\<lambda>x. P x \<or> x = p_name p) (ps @ [p]) [p_name p]
    (\<lambda>s. case A s of Inl z \<Rightarrow> Inl z | Inr (rs, s) \<Rightarrow> solve_entry env p c ns rs s)"
    (is "simulates _ _ _ _ _ ?B")
  unfolding simulates_def
proof (intro allI impI)
  fix e :: "'w eng" and s :: "'w sol"
  assume es: "related e s" "fresh (\<lambda>x. P x \<or> x = p_name p) e"
  then have "fresh P e" and f: "fresh (\<lambda>x. x = p_name p) e" by (simp_all add: fresh_def)
  with A es(1) have "matches P xs e (run_params env rq ps e) (A s)"
    unfolding simulates_def by blast
  then show "matches (\<lambda>x. P x \<or> x = p_name p) [p_name p] e (run_params env rq (ps @ [p]) e) (?B s)"
  proof (cases rule: matchesE)
    case (stop st e' s')
    then show ?thesis by (simp add: run_params_append matchesI)
  next
    case (go rs e' s')
    have "fresh (\<lambda>x. x = p_name p) e'"
      using f go(4) by (rule fresh_after) (use n in simp)
    from entry_sim [OF p go(3) this, of env rq]
    have "matches (\<lambda>x. x = p_name p) [p_name p] e' (engine_step env rq p e') (?B s)"
      by (simp add: go)
    moreover have "run_params env rq (ps @ [p]) e = engine_step env rq p e'"
      by (simp add: run_params_append go(1) split: sum.split)
    ultimately show ?thesis
      using matches_after [OF go(4)] by simp
  qed
qed

lemma simulates_traverse:
  fixes f :: "'a \<Rightarrow> ('w, 'e) solver"
  assumes "concat_sum (map g xs) = Inr ps"
    and "\<And>x qs. x \<in> set xs \<Longrightarrow> g x = Inr qs \<Longrightarrow> simulates env rq (P (c x)) qs [key (c x)] (f x)"
    and "\<And>n. P n (key n)" and "\<And>m n z. P m z \<Longrightarrow> P n z \<Longrightarrow> m = n" and "distinct (map c xs)"
  shows "simulates env rq (\<lambda>z. \<exists>n\<in>set (map c xs). P n z) ps (map (\<lambda>x. key (c x)) xs) (traverse f xs)"
  using assms(1,2,5)
proof (induction xs arbitrary: ps)
  case (Cons x xs)
  from Cons.prems(1) obtain qs rs where qs: "g x = Inr qs" and rs: "concat_sum (map g xs) = Inr rs" and ps: "ps = qs @ rs"
    by (auto split: sum.splits)
  have "simulates env rq (P (c x)) qs [key (c x)] (f x)"
    using Cons.prems(2) qs by simp
  moreover have "simulates env rq (\<lambda>z. \<exists>n\<in>set (map c xs). P n z) rs (map (\<lambda>x. key (c x)) xs) (traverse f xs)"
    using Cons.IH [OF rs] Cons.prems(2,3) by simp
  moreover have "P (c x) z \<Longrightarrow> \<exists>n\<in>set (map c xs). P n z \<Longrightarrow> False" for z
  proof -
    assume z: "P (c x) z" and "\<exists>n\<in>set (map c xs). P n z"
    then obtain n where "n \<in> set (map c xs)" "P n z" by blast
    moreover have "n = c x" using \<open>P n z\<close> z by (rule assms(4))
    ultimately show False using Cons.prems(3) by simp
  qed
  ultimately have "simulates env rq (\<lambda>z. P (c x) z \<or> (\<exists>n\<in>set (map c xs). P n z)) (qs @ rs)
      ([key (c x)] @ map (\<lambda>x. key (c x)) xs) (then_all (f x) (traverse f xs))"
    using assms(3) by (intro simulates_append) simp_all
  then show ?case
    by (simp add: ps)
qed simp

section \<open>The tree\<close>

lemma concat_sum_single: "concat_sum (map (\<lambda>x. Inr [h x]) xs) = Inr (map h xs)"
  by (induction xs) simp_all

lemma special_params_inject: "x \<in> set (special_params i) \<Longrightarrow> is_inject (snd x)"
  by (auto simp: special_params_def special_param_def is_inject_def split: option.splits)

lemma specials_sim:
  fixes env :: "('w, 'e) env"
  assumes "distinct (map fst (special_params i))"
  shows "simulates env rq (\<lambda>z. \<exists>n\<in>set (map fst (special_params i)). z \<in> own_keys uid n)
    (emit_dep_special_params uid i) (map (\<lambda>x. dep_key uid (fst x)) (special_params i))
    (traverse (solve_special env i) (special_params i))"
proof (rule simulates_traverse)
  show "concat_sum (map (\<lambda>x. Inr [inject_param (dep_key uid (fst x)) (snd x) False (scopes_for i (snd x))]) (special_params i)) =
    (Inr (emit_dep_special_params uid i) :: decline + param_info list)"
    by (simp add: concat_sum_single emit_dep_special_params_def case_prod_beta)
next
  fix x qs
  assume x: "x \<in> set (special_params i)"
    and qs: "(Inr [inject_param (dep_key uid (fst x)) (snd x) False (scopes_for i (snd x))] :: decline + param_info list) = Inr qs"
  have "simulates env rq (\<lambda>z. z = dep_key uid (fst x)) qs [dep_key uid (fst x)]
      (\<lambda>s. value_of (build_injected_object env (snd x) (scopes_for i (snd x)) s))"
    using qs inject_sim [OF special_params_inject [OF x]] by auto
  then show "simulates env rq (\<lambda>z. z \<in> own_keys uid (fst x)) qs [dep_key uid (fst x)] (solve_special env i x)"
    unfolding solve_special_def [abs_def] by (rule simulates_mono) (simp add: key_own)
qed (use assms key_own own_keys_eq in auto)

lemma param_renamed:
  assumes "param_from_field f k (Some n) = Inr p"
  shows "param_from_field f k (Some m) = Inr (p\<lparr>p_name := m\<rparr>)" and "p_alias p \<noteq> None" "p_kind p = k" "p_name p = n"
    "\<not> is_handler_param p"
  using assms by (auto simp: param_from_field_def Let_def split: if_splits option.splits)

lemma renamed_simps:
  "p_alias p \<noteq> None \<Longrightarrow> lookup_name (p\<lparr>p_name := m\<rparr>) = lookup_name p"
  "or_default (p\<lparr>p_name := m\<rparr>) = or_default p"
  by (auto simp: lookup_name_def or_default_def fun_eq_iff)

lemma fetch_renamed:
  "p_alias p \<noteq> None \<Longrightarrow> scalar_bucket (p_kind p) \<Longrightarrow> fetch env rq (p\<lparr>p_name := m\<rparr>) s = fetch env rq p s"
  by (simp add: fetch_def extract_defs renamed_simps split: kind.split option.split list.split)

lemma solve_model_input:
  "k \<in> {KQuery, KHeader, KCookie} \<Longrightarrow> is_basemodel (unwrap_optional (f_ann f)) \<Longrightarrow>
   (case value_of (build_injected_object env KInjectRequest [] s) of
      Inl z \<Rightarrow> Inl z
    | Inr (rs, s) \<Rightarrow>
        solve_entry env (dep_param n (CallParamModel (f_name f) k) False w False) (CallParamModel (f_name f) k) [''request''] rs s) =
   solve_input env rq (k, idx, f) s"
  by (auto simp: solve_input_def value_of_def solve_entry_def dep_param_def args_of_def add_arg_def store_def
      split: sum.split prod.split)

lemma input_sim:
  fixes env :: "('w, 'e) env"
  assumes ps: "emit_dep_input uid (k, idx, f) = Inr ps" and k: "scalar_bucket k"
  shows "simulates env rq (\<lambda>z. z \<in> own_keys uid (f_name f)) ps [dep_key uid (f_name f)] (solve_input env rq (k, idx, f))"
proof (cases "k \<in> {KQuery, KHeader, KCookie} \<and> is_basemodel (unwrap_optional (f_ann f))")
  case True
  let ?src = "''_pmreq'' @ uid @ ''_'' @ f_name f" and ?key = "dep_key uid (f_name f)" and ?c = "CallParamModel (f_name f) k"
  let ?p = "dep_param ?key ?c False [(''request'', ?src)] False"
  have ps': "ps = [inject_param ?src KInjectRequest False []] @ [?p]"
    using ps True by (auto simp: emit_dep_input_def emit_request_param_model_def Let_def)
  have "simulates env rq (\<lambda>x. x = ?src \<or> x = p_name ?p) ps [p_name ?p]
    (\<lambda>s. case value_of (build_injected_object env KInjectRequest [] s) of Inl z \<Rightarrow> Inl z
       | Inr (rs, s) \<Rightarrow> solve_entry env ?p ?c [''request''] rs s)"
    unfolding ps'
    by (intro simulates_snoc [OF inject_sim]) (simp_all add: is_inject_def dep_param_def dep_key_def)
  then have "simulates env rq (\<lambda>x. x = ?src \<or> x = p_name ?p) ps [p_name ?p] (solve_input env rq (k, idx, f))"
    using solve_model_input [where k = k and f = f and env = env and n = ?key and w = "[(''request'', ?src)]" and rq = rq and idx = idx] True
    by simp
  then have "simulates env rq (\<lambda>x. x = ?src \<or> x = p_name ?p) ps [?key] (solve_input env rq (k, idx, f))"
    by (simp add: dep_param_def)
  then show ?thesis
    by (rule simulates_mono) (auto simp: own_keys_def dep_param_def)
next
  case False
  with ps obtain p where p: "param_from_field f k (Some (dep_key uid (f_name f))) = Inr p" and ps: "ps = [p]"
    by (auto simp: emit_dep_input_def map_sum_Inr)
  note named = param_renamed [OF p]
  have kinds: "\<not> is_inject k" "k \<noteq> KDependency" using k by (auto simp: scalar_bucket_def is_inject_def)
  have "solve_input env rq (k, idx, f) = (\<lambda>s. input_result (fetch env rq p s))"
    using False named(1) [of "f_name f"] named(2,3) k by (auto simp: solve_input_def fun_eq_iff fetch_renamed)
  moreover have "simulates env rq (\<lambda>x. x = dep_key uid (f_name f)) [p] [dep_key uid (f_name f)]
      (\<lambda>s. input_result (fetch env rq p s))"
    using named kinds by (intro field_sim) auto
  ultimately have "simulates env rq (\<lambda>x. x = dep_key uid (f_name f)) ps [dep_key uid (f_name f)] (solve_input env rq (k, idx, f))"
    by (simp add: ps)
  then show ?thesis
    by (rule simulates_mono) (simp add: key_own)
qed

lemma inputs_sim:
  fixes env :: "('w, 'e) env"
  assumes "concat_sum (map (emit_dep_input uid) (scalar_fields i)) = Inr ins"
    and "distinct (map field_name (scalar_fields i))"
  shows "simulates env rq (\<lambda>z. \<exists>n\<in>set (map field_name (scalar_fields i)). z \<in> own_keys uid n)
    ins (map (\<lambda>x. dep_key uid (field_name x)) (scalar_fields i)) (traverse (solve_input env rq) (scalar_fields i))"
  using assms(1)
proof (rule simulates_traverse)
  fix x qs assume x: "x \<in> set (scalar_fields i)" and "emit_dep_input uid x = Inr qs"
  moreover have "scalar_bucket (fst x)"
    using x scalar_fields_kinds [of "fst x" "fst (snd x)" "snd (snd x)"] by simp
  ultimately show "simulates env rq (\<lambda>z. z \<in> own_keys uid (field_name x)) qs [dep_key uid (field_name x)] (solve_input env rq x)"
    using input_sim [of uid "fst x" "fst (snd x)" "snd (snd x)" qs env rq] by simp
qed (use assms(2) key_own own_keys_eq in auto)

text \<open>The keys under which the dependencies of a dependency are found.\<close>

definition sub_keys :: "string \<Rightarrow> nat \<Rightarrow> nat \<Rightarrow> string list" where
  "sub_keys uid k n = map (\<lambda>j. ''_dep'' @ uid @ ''_'' @ dec_nat j) [k..<k + n]"

lemma wiring_zip:
  "input_wiring uid i @ sub_wiring uid subs =
     zip (input_names i @ map (\<lambda>d. the (dep_name d)) subs)
       ((map (\<lambda>x. dep_key uid (fst x)) (special_params i) @ map (\<lambda>x. dep_key uid (field_name x)) (scalar_fields i)) @
        sub_keys uid 0 (length subs))"
proof -
  have "input_wiring uid i = zip (input_names i) (map (dep_key uid) (input_names i))"
    by (simp add: input_wiring_def zip_map2 zip_same_conv_map comp_def)
  moreover have "sub_wiring uid subs = zip (map (\<lambda>d. the (dep_name d)) subs) (sub_keys uid 0 (length subs))"
    by (rule nth_equalityI) (simp_all add: sub_wiring_def sub_keys_def nth_enumerate_eq)
  ultimately show ?thesis
    by (simp add: input_names_alt comp_def)
qed

lemma entry_simps [simp]:
  "p_name (dep_entry ids has_app uid h nm call i w) = result_key uid h nm"
  "p_kind (dep_entry ids has_app uid h nm call i w) = KDependency"
  "dep_callable (dep_entry ids has_app uid h nm call i w) = Some (wrap_dep has_app i call)"
  "dep_input_names (dep_entry ids has_app uid h nm call i w) = w"
  "dep_callable_id (dep_entry ids has_app uid h nm call i w) = ids i call"
  "is_generator_dep (dep_entry ids has_app uid h nm call i w) \<longleftrightarrow> is_gen_callable i \<or> is_async_gen_callable i"
  "is_function_scope (dep_entry ids has_app uid h nm call i w) \<longleftrightarrow> d_scope i = Some ''function''"
  by (simp_all add: dep_entry_def dep_param_def)

lemma solve_dep_alt:
  "solve_dep env rq ids has_app False (Dep nm call i subs) s =
     (case then_all (then_all (traverse (solve_special env i) (special_params i)) (traverse (solve_input env rq) (scalar_fields i)))
         (solve_subs env rq ids has_app False subs) s of
        Inl z \<Rightarrow> Inl z
      | Inr (rs, s) \<Rightarrow>
          solve_entry env (dep_entry ids has_app uid h nm call i w) (wrap_dep has_app i call)
            (input_names i @ map (\<lambda>d. the (dep_name d)) subs) rs s)"
  by (simp add: then_all_def [of "then_all _ _"] finish_dep_def solve_entry_def
      split: sum.split prod.split option.split)

lemma dep_sim:
  fixes env :: "('w, 'e) env"
  assumes ins: "concat_sum (map (emit_dep_input uid) (scalar_fields i)) = Inr ins"
    and names: "list_all ident_name (input_names i)" "distinct (input_names i)"
    and below: "simulates env rq (\<lambda>x. \<exists>j\<ge>0. at_or_under (uid @ ''_'' @ dec_nat j) x) below
      (sub_keys uid 0 (length subs)) (solve_subs env rq ids has_app False subs)"
    and key: "\<not> under uid (result_key uid h nm)"
    and e: "e = dep_entry ids has_app uid h nm call i (input_wiring uid i @ sub_wiring uid subs)"
  shows "simulates env rq (\<lambda>x. under uid x \<or> x = result_key uid h nm)
    ((emit_dep_special_params uid i @ ins @ below) @ [e]) [result_key uid h nm]
    (solve_dep env rq ids has_app False (Dep nm call i subs))"
proof -
  let ?A = "\<lambda>x. \<exists>n\<in>set (map fst (special_params i)). x \<in> own_keys uid n"
  let ?B = "\<lambda>x. \<exists>n\<in>set (map field_name (scalar_fields i)). x \<in> own_keys uid n"
  let ?C = "\<lambda>x. \<exists>j\<ge>0. at_or_under (uid @ ''_'' @ dec_nat j) x"
  let ?ks = "map (\<lambda>x. dep_key uid (fst x)) (special_params i)" and ?kf = "map (\<lambda>x. dep_key uid (field_name x)) (scalar_fields i)"
  have own: "ident_name n" if "n \<in> set (map fst (special_params i)) \<union> set (map field_name (scalar_fields i))" for n
    using names(1) that unfolding input_names_alt list_all_iff set_append by blast
  have apart: "?A x \<or> ?B x \<Longrightarrow> ?C x \<Longrightarrow> False" for x
    using own own_not_below [of x uid] by blast
  have apart2: "?A x \<Longrightarrow> ?B x \<Longrightarrow> False" for x
    using names(2) own_keys_eq [of x uid] unfolding input_names_alt distinct_append by blast
  have d: "distinct (map fst (special_params i))" "distinct (map field_name (scalar_fields i))"
    using names(2) by (simp_all add: input_names_alt)
  have "simulates env rq (\<lambda>x. ?A x \<or> ?B x) (emit_dep_special_params uid i @ ins) (?ks @ ?kf)
      (then_all (traverse (solve_special env i) (special_params i)) (traverse (solve_input env rq) (scalar_fields i)))"
    by (rule simulates_append [OF specials_sim [OF d(1)] inputs_sim [OF ins d(2)] apart2]) (auto intro: key_own)
  from this below apart have "simulates env rq (\<lambda>x. (?A x \<or> ?B x) \<or> ?C x) ((emit_dep_special_params uid i @ ins) @ below)
      ((?ks @ ?kf) @ sub_keys uid 0 (length subs))
      (then_all (then_all (traverse (solve_special env i) (special_params i)) (traverse (solve_input env rq) (scalar_fields i)))
        (solve_subs env rq ids has_app False subs))" (is "simulates _ _ _ ?ps ?xs ?S")
    by (rule simulates_append) (auto intro: key_own)
  then have "simulates env rq (under uid) ?ps ?xs ?S"
    by (rule simulates_mono) (auto simp: at_or_under_def under_def prefix_def dest: own_keys_under)
  then have "simulates env rq (\<lambda>x. under uid x \<or> x = p_name e) (?ps @ [e]) [p_name e]
      (\<lambda>s. case ?S s of Inl z \<Rightarrow> Inl z | Inr (rs, s) \<Rightarrow>
        solve_entry env e (wrap_dep has_app i call) (input_names i @ map (\<lambda>d. the (dep_name d)) subs) rs s)"
  proof (rule simulates_snoc)
    show "dep_input_names e = zip (input_names i @ map (\<lambda>d. the (dep_name d)) subs) ?xs"
      by (simp only: e entry_simps wiring_zip)
  qed (use key in \<open>simp_all add: e input_names_alt sub_keys_def\<close>)
  moreover have "solve_dep env rq ids has_app False (Dep nm call i subs) = (\<lambda>s. case ?S s of Inl z \<Rightarrow> Inl z | Inr (rs, s) \<Rightarrow>
        solve_entry env e (wrap_dep has_app i call) (input_names i @ map (\<lambda>d. the (dep_name d)) subs) rs s)"
    unfolding e by (rule ext, rule solve_dep_alt)
  ultimately show ?thesis
    by (simp only: append_assoc) (simp add: e)
qed

lemma solve_subs_alt:
  "solve_subs env rq ids has_app strict [] = (\<lambda>s. Inr ([], s))"
  "solve_subs env rq ids has_app strict (d # ds) =
     then_all (solve_dep env rq ids has_app strict d) (solve_subs env rq ids has_app strict ds)"
  by (auto simp: then_all_def fun_eq_iff split: sum.split)

lemma sub_keys_simps [simp]:
  "sub_keys uid k 0 = []"
  "sub_keys uid k (Suc n) = (''_dep'' @ uid @ ''_'' @ dec_nat k) # sub_keys uid (Suc k) n"
  by (simp_all add: sub_keys_def upt_conv_Cons [of k "Suc (k + n)"] del: upt_Suc)

lemma emit_dep_sim:
  fixes env :: "('w, 'e) env"
  shows
  "emit_dep ids has_app uid h d = Inr ps \<Longrightarrow> good_tree d \<Longrightarrow> \<not> under uid (result_key uid h (dep_name d)) \<Longrightarrow>
     simulates env rq (\<lambda>x. under uid x \<or> x = result_key uid h (dep_name d)) ps [result_key uid h (dep_name d)]
       (solve_dep env rq ids has_app False d)"
  "emit_subs ids has_app uid k ss = Inr ps \<Longrightarrow> \<forall>s\<in>set ss. good_tree s \<Longrightarrow>
     simulates env rq (\<lambda>x. \<exists>j\<ge>k. at_or_under (uid @ ''_'' @ dec_nat j) x) ps (sub_keys uid k (length ss))
       (solve_subs env rq ids has_app False ss)"
proof (induction ids has_app uid h d and ids has_app uid k ss arbitrary: ps and ps
    rule: emit_dep_emit_subs.induct)
  case (1 ids has_app uid h nm call i subs)
  from "1.prems"(1) obtain ins below where ins: "concat_sum (map (emit_dep_input uid) (scalar_fields i)) = Inr ins"
    and below: "emit_subs ids has_app uid 0 subs = Inr below"
    and ps: "ps = (emit_dep_special_params uid i @ ins @ below) @
      [dep_entry ids has_app uid h nm call i (input_wiring uid i @ sub_wiring uid subs)]"
    by (rule emit_dep_InrE)
  have "\<not> (body_params i \<noteq> [] \<or> websocket_param_name i \<noteq> None)"
    using "1.prems"(1) by (auto split: if_splits)
  from "1.IH" [OF this ins below] "1.prems"(2)
  have "simulates env rq (\<lambda>x. \<exists>j\<ge>0. at_or_under (uid @ ''_'' @ dec_nat j) x) below (sub_keys uid 0 (length subs))
      (solve_subs env rq ids has_app False subs)" by simp
  then show ?case
    using "1.prems"(2,3) unfolding ps dependant.sel by (intro dep_sim [OF ins]) simp_all
next
  case (3 ids has_app uid k s ss)
  from "3.prems"(1) obtain qs rs where qs: "emit_dep ids has_app (uid @ ''_'' @ dec_nat k) False s = Inr qs"
    and rs: "emit_subs ids has_app uid (Suc k) ss = Inr rs" and ps: "ps = qs @ rs"
    by (rule emit_subs_InrE)
  let ?u = "\<lambda>j. uid @ ''_'' @ dec_nat j"
  have "(\<lambda>x. under (?u k) x \<or> x = ''_dep'' @ ?u k) = at_or_under (?u k)"
    unfolding at_or_under_def by (rule ext) blast
  then have Q: "simulates env rq (at_or_under (?u k)) qs [''_dep'' @ ?u k] (solve_dep env rq ids has_app False s)"
    using "3.IH"(1) [OF qs] "3.prems"(2) not_at_own [of "?u k"] unfolding sub_key by simp
  have R: "simulates env rq (\<lambda>x. \<exists>j\<ge>Suc k. at_or_under (?u j) x) rs (sub_keys uid (Suc k) (length ss))
      (solve_subs env rq ids has_app False ss)"
    using "3.IH"(2) [OF qs rs] "3.prems"(2) by simp
  have "j = k" if "at_or_under (?u j) x" "at_or_under (?u k) x" for j x
    using branches_disjoint [of "uid @ ''_''" j x k] that by simp
  then have "at_or_under (?u k) x \<Longrightarrow> \<exists>j\<ge>Suc k. at_or_under (?u j) x \<Longrightarrow> False" for x
    by (metis Suc_n_not_le_n)
  with Q R have "simulates env rq (\<lambda>x. at_or_under (?u k) x \<or> (\<exists>j\<ge>Suc k. at_or_under (?u j) x)) (qs @ rs)
      ([''_dep'' @ ?u k] @ sub_keys uid (Suc k) (length ss))
      (then_all (solve_dep env rq ids has_app False s) (solve_subs env rq ids has_app False ss))"
    by (rule simulates_append) (simp_all add: at_or_under_def [of "?u k" "''_dep'' @ ?u k", simplified])
  then have "simulates env rq (\<lambda>x. \<exists>j\<ge>k. at_or_under (?u j) x) (qs @ rs)
      ([''_dep'' @ ?u k] @ sub_keys uid (Suc k) (length ss))
      (then_all (solve_dep env rq ids has_app False s) (solve_subs env rq ids has_app False ss))"
    by (rule simulates_mono) (metis Suc_leD order_refl)
  then show ?case
    by (simp add: ps solve_subs_alt)
qed (simp add: solve_subs_alt)

section \<open>Nothing missing\<close>

text \<open>A solver that marks an argument reports it.  Reports are only added.\<close>

definition honest :: "('w, 'e) solver \<Rightarrow> bool" where
  "honest A \<longleftrightarrow>
     (\<forall>s rs s'. A s = Inr (rs, s') \<longrightarrow> (\<exists>ds. derrs s' = derrs s @ ds \<and> (ds = [] \<longrightarrow> \<not> list_ex snd rs)))"

lemma honestD:
  assumes "honest A" and "A s = Inr (rs, s')"
  obtains ds where "derrs s' = derrs s @ ds" and "ds = [] \<longrightarrow> \<not> list_ex snd rs"
  using assms unfolding honest_def by blast

lemma honest_Nil [intro]: "honest (\<lambda>s. Inr ([], s))"
  by (simp add: honest_def)

lemma honest_then_all [intro]:
  assumes "honest A" and "honest B"
  shows "honest (then_all A B)"
  unfolding honest_def
proof (intro allI impI)
  fix s rs s' assume "then_all A B s = Inr (rs, s')"
  then obtain us t vs where A: "A s = Inr (us, t)" and B: "B t = Inr (vs, s')" and rs: "rs = us @ vs"
    by (auto simp: then_all_def split: sum.splits)
  obtain ds where d: "derrs t = derrs s @ ds" "ds = [] \<longrightarrow> \<not> list_ex snd us"
    using assms(1) A by (rule honestD)
  obtain ds' where d': "derrs s' = derrs t @ ds'" "ds' = [] \<longrightarrow> \<not> list_ex snd vs"
    using assms(2) B by (rule honestD)
  show "\<exists>ds. derrs s' = derrs s @ ds \<and> (ds = [] \<longrightarrow> \<not> list_ex snd rs)"
    using d d' by (intro exI [of _ "ds @ ds'"]) (auto simp: rs)
qed

lemma honest_traverse [intro]: "(\<And>x. x \<in> set xs \<Longrightarrow> honest (f x)) \<Longrightarrow> honest (traverse f xs)"
  by (induction xs) auto

lemma keeps_errors:
  "derrs (snd (run_dep env g f c kw s)) = derrs s" "derrs (snd (build_injected_object env k sc s)) = derrs s"
  "derrs (snd (fetch env rq p s)) = derrs s"
  by (simp_all add: run_dep_def enter_sync_generator_dep_def build_injected_object_def fetch_def
      split: prod.split sum.split gsend.split option.split)

lemma store_errors [simp]: "derrs (store i v s) = derrs s"
  by (simp add: store_def split: option.split)

lemma keeps_errorsD:
  "run_dep env g f c kw s = (r, s') \<Longrightarrow> derrs s' = derrs s"
  "build_injected_object env k sc s = (r, s') \<Longrightarrow> derrs s' = derrs s"
  "fetch env rq p s = (x, s') \<Longrightarrow> derrs s' = derrs s"
  using keeps_errors(1) [of env g f c kw s] keeps_errors(2) [of env k sc s] keeps_errors(3) [of env rq p s] by simp_all

lemma honest_special [intro]: "honest (solve_special env i x)"
  by (auto simp: honest_def solve_special_def value_of_def split: prod.splits sum.splits dest!: keeps_errorsD)

lemma honest_input [intro]: "honest (solve_input env rq x)"
  by (auto simp: honest_def solve_input_def value_of_def input_result_def
      split: prod.splits sum.splits if_splits fetched.splits dest!: keeps_errorsD)

lemma finish_dep_ok:
  assumes "finish_dep env ids has_app strict call i ns own below s = Inr (rs, s')"
  shows "derrs s' = derrs s \<and> \<not> list_ex snd rs"
  using assms
  by (auto simp: finish_dep_def split: if_splits option.splits prod.splits sum.splits dest!: keeps_errorsD)

lemma finish_dep_strict:
  assumes "finish_dep env ids has_app False call i ns own below s = Inr (rs, s')"
    and "\<not> list_ex snd (own @ below)" and "\<not> list_ex (\<lambda>r. fst r = None) below"
  shows "finish_dep env ids has_app True call i ns own below s = Inr (rs, s') \<and> \<not> list_ex (\<lambda>r. fst r = None) rs"
  using assms by (auto simp: finish_dep_def split: option.splits prod.splits sum.splits)

lemma solve_dep_InrE:
  assumes "solve_dep env rq ids has_app strict (Dep nm call i subs) s = Inr (rs, s')"
  obtains own s1 below s2
  where "then_all (traverse (solve_special env i) (special_params i)) (traverse (solve_input env rq) (scalar_fields i)) s = Inr (own, s1)"
    and "solve_subs env rq ids has_app strict subs s1 = Inr (below, s2)"
    and "finish_dep env ids has_app strict call i (input_names i @ map (\<lambda>d. the (dep_name d)) subs) own below s2 = Inr (rs, s')"
  using assms by (auto split: sum.splits)

lemma honest_inputs:
  "honest (then_all (traverse (solve_special env i) (special_params i)) (traverse (solve_input env rq) (scalar_fields i)))"
  by auto

lemma honest_tree:
  "honest (solve_dep env rq ids has_app strict d)"
  "honest (solve_subs env rq ids has_app strict ds)"
proof -
  have "\<And>rs s'. solve_dep env rq ids has_app strict d s = Inr (rs, s') \<Longrightarrow>
      \<exists>es. derrs s' = derrs s @ es \<and> (es = [] \<longrightarrow> \<not> list_ex snd rs)"
    "\<And>rs s'. solve_subs env rq ids has_app strict ds t = Inr (rs, s') \<Longrightarrow>
      \<exists>es. derrs s' = derrs t @ es \<and> (es = [] \<longrightarrow> \<not> list_ex snd rs)" for s t
  proof (induction env rq ids has_app strict d s and env rq ids has_app strict ds t rule: solve_dep_solve_subs.induct)
    case (1 env rq ids has_app strict nm call i subs s)
    from "1.prems" obtain own s1 below s2
      where own: "then_all (traverse (solve_special env i) (special_params i)) (traverse (solve_input env rq) (scalar_fields i)) s = Inr (own, s1)"
        and below: "solve_subs env rq ids has_app strict subs s1 = Inr (below, s2)"
        and fin: "finish_dep env ids has_app strict call i (input_names i @ map (\<lambda>d. the (dep_name d)) subs) own below s2 = Inr (rs, s')"
      by (rule solve_dep_InrE)
    obtain es where "derrs s1 = derrs s @ es"
      using honest_inputs own by (rule honestD)
    moreover obtain es' where "derrs s2 = derrs s1 @ es'"
      using "1.IH" [OF own refl below] by blast
    ultimately show ?case
      using finish_dep_ok [OF fin] by simp
  next
    case (3 env rq ids has_app strict d ds s)
    from "3.prems" obtain us s1 vs where d: "solve_dep env rq ids has_app strict d s = Inr (us, s1)"
      and ds: "solve_subs env rq ids has_app strict ds s1 = Inr (vs, s')" and rs: "rs = us @ vs"
      by (auto simp: solve_subs_alt then_all_def split: sum.splits)
    obtain es where es: "derrs s1 = derrs s @ es" "es = [] \<longrightarrow> \<not> list_ex snd us"
      using "3.IH"(1) [OF d] by blast
    obtain es' where es': "derrs s' = derrs s1 @ es'" "es' = [] \<longrightarrow> \<not> list_ex snd vs"
      using "3.IH"(2) [OF d refl ds] by blast
    show ?case
      using es es' by (intro exI [of _ "es @ es'"]) (auto simp: rs)
  qed simp
  then show "honest (solve_dep env rq ids has_app strict d)" "honest (solve_subs env rq ids has_app strict ds)"
    unfolding honest_def by blast+
qed

text \<open>With nothing reported, the engine's rule for skipping and FastAPI's agree.\<close>

lemma strict_agrees:
  "solve_dep env rq ids has_app False d s = Inr (rs, s') \<Longrightarrow> derrs s' = derrs s \<Longrightarrow>
     solve_dep env rq ids has_app True d s = Inr (rs, s') \<and> \<not> list_ex (\<lambda>r. fst r = None) rs"
  "solve_subs env rq ids has_app False ds t = Inr (ts, t') \<Longrightarrow> derrs t' = derrs t \<Longrightarrow>
     solve_subs env rq ids has_app True ds t = Inr (ts, t') \<and> \<not> list_ex (\<lambda>r. fst r = None) ts"
proof (induction env rq ids has_app False d s and env rq ids has_app False ds t arbitrary: rs s' and ts t'
    rule: solve_dep_solve_subs.induct)
  case (1 env rq ids has_app nm call i subs s)
  from "1.prems"(1) obtain own s1 below s2
    where own: "then_all (traverse (solve_special env i) (special_params i)) (traverse (solve_input env rq) (scalar_fields i)) s = Inr (own, s1)"
      and below: "solve_subs env rq ids has_app False subs s1 = Inr (below, s2)"
      and fin: "finish_dep env ids has_app False call i (input_names i @ map (\<lambda>d. the (dep_name d)) subs) own below s2 = Inr (rs, s')"
    by (rule solve_dep_InrE)
  obtain es where es: "derrs s1 = derrs s @ es" "es = [] \<longrightarrow> \<not> list_ex snd own"
    using honest_inputs own by (rule honestD)
  obtain es' where es': "derrs s2 = derrs s1 @ es'" "es' = [] \<longrightarrow> \<not> list_ex snd below"
    using honest_tree(2) below by (rule honestD)
  have "derrs s' = derrs s2" using finish_dep_ok [OF fin] by simp
  with "1.prems"(2) es(1) es'(1) have none: "es = []" "es' = []" by simp_all
  then have "solve_subs env rq ids has_app True subs s1 = Inr (below, s2) \<and> \<not> list_ex (\<lambda>r. fst r = None) below"
    using es'(1) by (intro "1.hyps" [OF own refl below]) simp
  then show ?case
    using own none es(2) es'(2) finish_dep_strict [OF fin] by simp
next
  case (3 env rq ids has_app d ds s)
  from "3.prems"(1) obtain us s1 vs where d: "solve_dep env rq ids has_app False d s = Inr (us, s1)"
    and ds: "solve_subs env rq ids has_app False ds s1 = Inr (vs, t')" and ts: "ts = us @ vs"
    by (auto simp: solve_subs_alt then_all_def split: sum.splits)
  obtain es where es: "derrs s1 = derrs s @ es"
    using honest_tree(1) d by (rule honestD)
  obtain es' where es': "derrs t' = derrs s1 @ es'"
    using honest_tree(2) ds by (rule honestD)
  have none: "es = []" "es' = []" using es es' "3.prems"(2) by simp_all
  have "solve_dep env rq ids has_app True d s = Inr (us, s1) \<and> \<not> list_ex (\<lambda>r. fst r = None) us"
    using es none by (intro "3.hyps"(1) [OF d]) simp
  moreover have "solve_subs env rq ids has_app True ds s1 = Inr (vs, t') \<and> \<not> list_ex (\<lambda>r. fst r = None) vs"
    using es' none by (intro "3.hyps"(2) [OF d refl ds]) simp
  ultimately show ?case
    by (simp add: solve_subs_alt then_all_def ts)
qed simp

section \<open>The plan of a route\<close>

fun dep_keys :: "nat \<Rightarrow> dependant list \<Rightarrow> string list" where
  "dep_keys n [] = []"
| "dep_keys n (d # ds) = result_key (dec_nat n) (dep_name d \<noteq> None) (dep_name d) # dep_keys (Suc n) ds"

definition deps_key :: "nat \<Rightarrow> dependant list \<Rightarrow> string \<Rightarrow> bool" where
  "deps_key n ds x \<longleftrightarrow> (\<exists>j\<ge>n. at_or_under (dec_nat j) x) \<or> x \<in> set (concat (map dep_args ds))"

lemma dep_key_cases:
  assumes "list_all plain_name (dep_args d)"
  shows "result_key (dec_nat n) (dep_name d \<noteq> None) (dep_name d) = (case dep_name d of Some m \<Rightarrow> m | None \<Rightarrow> ''_dep'' @ dec_nat n)"
  using assms by (auto simp: dep_args_def result_key_def truthy_name_def plain_name_def split: option.splits)

lemma handler_dep_sim:
  fixes env :: "('w, 'e) env"
  assumes ps: "emit_dep ids has_app (dec_nat n) (dep_name d \<noteq> None) d = Inr ps" and "good_tree d"
    and plain: "list_all plain_name (dep_args d)"
  shows "simulates env rq (\<lambda>x. at_or_under (dec_nat n) x \<or> x \<in> set (dep_args d)) ps
    [result_key (dec_nat n) (dep_name d \<noteq> None) (dep_name d)] (solve_dep env rq ids has_app False d)"
proof -
  let ?k = "result_key (dec_nat n) (dep_name d \<noteq> None) (dep_name d)"
  have k: "?k = ''_dep'' @ dec_nat n \<or> ?k \<in> set (dep_args d)"
    using dep_key_cases [OF plain] by (auto simp: dep_args_def split: option.split)
  have "\<not> under (dec_nat n) ?k"
  proof (cases "?k \<in> set (dep_args d)")
    case True
    with plain have "plain_name ?k" by (simp add: list_all_iff)
    then show ?thesis using keys_not_plain(2) [of n ?k] by (auto simp: at_or_under_def)
  qed (use k not_at_own in auto)
  from emit_dep_sim(1) [OF ps assms(2) this] show ?thesis
    by (rule simulates_mono) (use k in \<open>auto simp: at_or_under_def\<close>)
qed

lemma handler_deps_sim:
  fixes env :: "('w, 'e) env"
  assumes "emit_handler_deps ids has_app n ds = Inr ps" and "list_all good_tree ds"
    and "list_all plain_name (concat (map dep_args ds))" and "distinct (concat (map dep_args ds))"
  shows "simulates env rq (deps_key n ds) ps (dep_keys n ds) (solve_subs env rq ids has_app False ds)"
  using assms
proof (induction ds arbitrary: n ps)
  case (Cons d ds)
  from Cons.prems(1) obtain qs rs where qs: "emit_dep ids has_app (dec_nat n) (dep_name d \<noteq> None) d = Inr qs"
    and rs: "emit_handler_deps ids has_app (Suc n) ds = Inr rs" and ps: "ps = qs @ rs"
    by (auto split: sum.splits)
  let ?P = "\<lambda>x. at_or_under (dec_nat n) x \<or> x \<in> set (dep_args d)"
  have plain: "list_all plain_name (dep_args d)" "list_all plain_name (concat (map dep_args ds))"
    using Cons.prems(3) by simp_all
  have Q: "simulates env rq ?P qs [result_key (dec_nat n) (dep_name d \<noteq> None) (dep_name d)] (solve_dep env rq ids has_app False d)"
    using qs _ plain(1) by (rule handler_dep_sim) (use Cons.prems(2) in simp)
  have R: "simulates env rq (deps_key (Suc n) ds) rs (dep_keys (Suc n) ds) (solve_subs env rq ids has_app False ds)"
    using Cons.IH [OF rs] Cons.prems(2-4) by simp
  have "?P x \<Longrightarrow> deps_key (Suc n) ds x \<Longrightarrow> False" for x
  proof -
    assume x: "?P x" "deps_key (Suc n) ds x"
    have "j = n" if "at_or_under (dec_nat j) x" "at_or_under (dec_nat n) x" for j
      using branches_disjoint [of "[]" j x n] that by simp
    moreover have "plain_name x" if "x \<in> set (dep_args d) \<or> x \<in> set (concat (map dep_args ds))"
      using plain that by (auto simp: list_all_iff)
    moreover have "\<not> (x \<in> set (dep_args d) \<and> x \<in> set (concat (map dep_args ds)))"
      using Cons.prems(4) by auto
    ultimately show False
      using x keys_not_plain(2) unfolding deps_key_def by (metis Suc_n_not_le_n)
  qed
  with Q R have "simulates env rq (\<lambda>x. ?P x \<or> deps_key (Suc n) ds x) (qs @ rs)
      ([result_key (dec_nat n) (dep_name d \<noteq> None) (dep_name d)] @ dep_keys (Suc n) ds)
      (then_all (solve_dep env rq ids has_app False d) (solve_subs env rq ids has_app False ds))"
    by (rule simulates_append)
      (use dep_key_cases [OF plain(1), of n] in \<open>auto simp: dep_args_def at_or_under_def split: option.splits\<close>)
  then have "simulates env rq (deps_key n (d # ds)) (qs @ rs)
      ([result_key (dec_nat n) (dep_name d \<noteq> None) (dep_name d)] @ dep_keys (Suc n) ds)
      (then_all (solve_dep env rq ids has_app False d) (solve_subs env rq ids has_app False ds))"
    by (rule simulates_mono) (auto simp: deps_key_def intro: Suc_leD)
  then show ?case
    by (simp add: ps solve_subs_alt)
qed (simp add: solve_subs_alt)

text \<open>Before the dependencies, the plan has the handler's own entries.  They leave the dependencies' keys alone.\<close>

definition cache_ok :: "'w eng \<Rightarrow> bool" where
  "cache_ok e \<longleftrightarrow> (\<forall>i n. dep_cache e i = Some n \<longrightarrow> resolved e n \<noteq> None)"

definition tree_state :: "'w eng \<Rightarrow> 'w sol" where
  "tree_state e =
     \<lparr>gen_deps = gen_deps e, derrs = derrs e, slots = slots e, world = world e,
      cached = (\<lambda>i. Option.bind (dep_cache e i) (resolved e))\<rparr>"

lemma related_tree_state: "cache_ok e \<Longrightarrow> related e (tree_state e)"
  by (simp add: related_def same_core_def tree_state_def cache_ok_def)

lemma keeps_tables:
  fixes e :: "'w eng"
  shows
  "run_dep env g f c kw e = (r, e') \<Longrightarrow>
     resolved e' = resolved e \<and> dep_cache e' = dep_cache e \<and> failed_sources e' = failed_sources e"
  "build_injected_object env k sc e = (r, e') \<Longrightarrow>
     resolved e' = resolved e \<and> dep_cache e' = dep_cache e \<and> failed_sources e' = failed_sources e"
  "fetch env rq p e = (x, e') \<Longrightarrow>
     resolved e' = resolved e \<and> dep_cache e' = dep_cache e \<and> failed_sources e' = failed_sources e"
  by (auto simp: run_dep_def enter_sync_generator_dep_def build_injected_object_def fetch_def
      split: if_splits prod.splits sum.splits gsend.splits option.splits)

lemma put_tables:
  assumes "resolved e' = resolved e" and "failed_sources e' = failed_sources e" and "cache_ok e \<longrightarrow> cache_ok e'"
  shows "unchanged (\<lambda>x. x = n) e (put n v e') \<and> (cache_ok e \<longrightarrow> cache_ok (put n v e'))"
  using assms by (auto simp: unchanged_def cache_ok_def put_def)

lemma remember_tables:
  assumes "resolved e' = resolved e" and "failed_sources e' = failed_sources e" and "dep_cache e' = dep_cache e"
  shows "unchanged (\<lambda>x. x = p_name p) e (put (p_name p) v (remember p e')) \<and>
    (cache_ok e \<longrightarrow> cache_ok (put (p_name p) v (remember p e')))"
  using assms by (cases "dep_callable_id p") (auto simp: unchanged_def cache_ok_def put_def remember_def)

lemma unchanged_refl [simp]: "unchanged P e e"
  by (simp add: unchanged_def)

lemma same_tables:
  assumes "resolved e' = resolved e" and "failed_sources e' = failed_sources e" and "dep_cache e' = dep_cache e"
  shows "unchanged P e e' \<and> (cache_ok e \<longrightarrow> cache_ok e')"
  using assms by (simp add: unchanged_def cache_ok_def)

lemma dependency_step_tables:
  assumes "dependency_step env p e = Inr e'"
  shows "unchanged (\<lambda>x. x = p_name p) e e' \<and> (cache_ok e \<longrightarrow> cache_ok e')"
  using assms
  by (auto simp: dependency_step_def put_tables split: if_splits prod.splits sum.splits option.splits
      dest!: keeps_tables(1) remember_tables)

lemma input_step_tables:
  fixes e :: "'w eng"
  assumes "input_step env rq p e = Inr e'"
  shows "unchanged (\<lambda>x. x = p_name p) e e' \<and> (cache_ok e \<longrightarrow> cache_ok e')"
proof -
  have miss: "unchanged (\<lambda>x. x = p_name p) e (e1\<lparr>derrs := ds, failed_sources := insert (p_name p) (failed_sources e1)\<rparr>) \<and>
      (cache_ok e \<longrightarrow> cache_ok (e1\<lparr>derrs := ds, failed_sources := insert (p_name p) (failed_sources e1)\<rparr>))"
    if "resolved e1 = resolved e \<and> dep_cache e1 = dep_cache e \<and> failed_sources e1 = failed_sources e" for e1 :: "'w eng" and ds
    using that by (auto simp: unchanged_def cache_ok_def)
  have ok: "cache_ok e \<longrightarrow> cache_ok e1" if "resolved e1 = resolved e \<and> dep_cache e1 = dep_cache e \<and> F" for e1 :: "'w eng" and F
    using that by (simp add: cache_ok_def)
  consider "is_handler_param p" | r e1 where "\<not> is_handler_param p" "is_inject (p_kind p)" "build_injected_object env (p_kind p) (p_oauth_scopes p) e = (r, e1)"
    | r e1 where "\<not> is_handler_param p" "\<not> is_inject (p_kind p)" "fetch env rq p e = (r, e1)"
    by (metis surj_pair)
  then show ?thesis
  proof cases
    case (2 r e1)
    then show ?thesis
      using assms keeps_tables(2) [OF 2(3)] ok [of e1] by (auto simp: input_step_def put_tables split: sum.splits)
  next
    case (3 r e1)
    then show ?thesis
      using assms keeps_tables(3) [OF 3(3)] ok [of e1] miss [of e1] same_tables [of e1 e]
      by (cases r) (auto simp: input_step_def put_tables)
  qed (use assms in \<open>simp add: input_step_def\<close>)
qed

lemma engine_step_tables:
  "engine_step env rq p e = Inr e' \<Longrightarrow> unchanged (\<lambda>x. x = p_name p) e e' \<and> (cache_ok e \<longrightarrow> cache_ok e')"
  by (auto simp: engine_step_def dest: dependency_step_tables input_step_tables split: if_splits)

lemma run_params_tables:
  "run_params env rq ps e = Inr e' \<Longrightarrow> unchanged (\<lambda>x. x \<in> p_name ` set ps) e e' \<and> (cache_ok e \<longrightarrow> cache_ok e')"
proof (induction ps arbitrary: e)
  case (Cons p ps)
  from Cons.prems obtain e1 where e1: "engine_step env rq p e = Inr e1" and rest: "run_params env rq ps e1 = Inr e'"
    by (auto split: sum.splits)
  have "unchanged (\<lambda>x. x = p_name p \<or> x \<in> p_name ` set ps) e e'"
    using engine_step_tables [OF e1] Cons.IH [OF rest] by (intro unchanged_trans) blast+
  then show ?case
    using engine_step_tables [OF e1] Cons.IH [OF rest] by simp
qed (simp add: unchanged_def)

definition start :: "'w \<Rightarrow> 'w eng" where
  "start w =
     \<lparr>gen_deps = [], derrs = [], slots = (\<lambda>k. None), world = w, resolved = (\<lambda>n. None), dep_cache = (\<lambda>i. None),
      failed_sources = {}\<rparr>"

lemma handler_names_apart:
  assumes "emit_handler models r = Inr as" and "good_names r" and "\<And>a. distinct (map fst (models a))"
    and x: "x \<in> p_name ` set as" "deps_key 0 (r_deps r) x"
  shows False
proof -
  have "segment handler_key (own_args r) as"
    using assms(1-3) by (rule handler_segment)
  then have "x \<in> set (own_args r) \<or> handler_key x"
    using x(1) names_split [of as] by (auto simp: segment_def)
  moreover have "plain_name x" if "x \<in> set (handler_args r)"
    using that assms(2) by (simp add: good_names_def list_all_iff)
  moreover have "\<not> (x \<in> set (own_args r) \<and> x \<in> set (concat (map dep_args (r_deps r))))"
    using assms(2) by (auto simp: good_names_def handler_args_def)
  moreover have "(\<exists>j. at_or_under (dec_nat j) x) \<or> x \<in> set (concat (map dep_args (r_deps r)))"
    using x(2) unfolding deps_key_def by blast
  ultimately show False
    using keys_not_plain(1) [of x] keys_not_plain(2) [where x = x] handler_dep_apart [of x] unfolding handler_args_def set_append by blast
qed

lemma plan_runs:
  fixes env :: "('w, 'e) env"
  assumes "extract_params_from_route ids models has_app r = Inr ps" and good: "good_names r"
    and models: "\<And>a. distinct (map fst (models a))"
  shows "\<exists>as. emit_handler models r = Inr as \<and>
    (\<forall>z. run_params env rq as (start w) = Inl z \<longrightarrow> run_params env rq ps (start w) = Inl z) \<and>
    (\<forall>e. run_params env rq as (start w) = Inr e \<longrightarrow>
      matches (deps_key 0 (r_deps r)) (dep_keys 0 (r_deps r)) e (run_params env rq ps (start w))
        (solve_subs env rq ids has_app False (r_deps r) (tree_state e)))"
proof -
  from assms(1) obtain as bs where as: "emit_handler models r = Inr as"
    and bs: "emit_handler_deps ids has_app 0 (r_deps r) = Inr bs" and ps: "ps = as @ bs"
    by (auto simp: extract_params_from_route_def split: sum.splits)
  have tree: "matches (deps_key 0 (r_deps r)) (dep_keys 0 (r_deps r)) e (run_params env rq ps (start w))
        (solve_subs env rq ids has_app False (r_deps r) (tree_state e))" if e: "run_params env rq as (start w) = Inr e" for e
  proof -
    have "simulates env rq (deps_key 0 (r_deps r)) bs (dep_keys 0 (r_deps r)) (solve_subs env rq ids has_app False (r_deps r))"
      using good by (intro handler_deps_sim [OF bs]) (simp_all add: good_names_def handler_args_def)
    moreover have "cache_ok e"
      using run_params_tables [OF e] by (simp add: start_def cache_ok_def)
    moreover have "fresh (deps_key 0 (r_deps r)) e"
    proof (rule fresh_after)
      show "fresh (deps_key 0 (r_deps r)) (start w)" by (simp add: start_def fresh_def)
      show "unchanged (\<lambda>x. x \<in> p_name ` set as) (start w) e" using run_params_tables [OF e] by blast
    qed (rule handler_names_apart [OF as good models])
    ultimately show ?thesis
      unfolding simulates_def ps run_params_append e sum.case by (blast intro: related_tree_state)
  qed
  have "run_params env rq ps (start w) = Inl z" if "run_params env rq as (start w) = Inl z" for z
    by (simp add: ps run_params_append that)
  with as tree show ?thesis by blast
qed

text \<open>
  C39.  Walking the plan of a route is evaluating its tree of dependencies.  After the handler's own
  entries, the engine ends as the evaluation of the tree does: with the same exception or the same
  results, each under its dependency's key, the same generators to tear down, the same reports, the same shared objects
  and the same effects on the world.  If the dependencies add no report, this is what FastAPI's rule gives,
  by which a dependency is not called when one that it needs was not.
\<close>

theorem plan_resolves_tree:
  fixes env :: "('w, 'e) env"
  assumes "extract_params_from_route ids models has_app r = Inr ps" and "good_names r"
    and "\<And>a. distinct (map fst (models a))"
  shows "\<exists>as. emit_handler models r = Inr as \<and>
    (case run_params env rq as (start w) of
       Inl z \<Rightarrow> run_params env rq ps (start w) = Inl z
     | Inr e \<Rightarrow>
         (case solve_subs env rq ids has_app False (r_deps r) (tree_state e) of
            Inl (st, s) \<Rightarrow> \<exists>e'. run_params env rq ps (start w) = Inl (st, e') \<and> same_core e' s
          | Inr (rs, s) \<Rightarrow>
              \<exists>e'. run_params env rq ps (start w) = Inr e' \<and> same_core e' s \<and>
                map fst rs = map (resolved e') (dep_keys 0 (r_deps r)) \<and>
                (derrs e' = derrs e \<longrightarrow>
                   solve_subs env rq ids has_app True (r_deps r) (tree_state e) = Inr (rs, s))))"
proof -
  obtain as where as: "emit_handler models r = Inr as"
    and stop: "\<forall>z. run_params env rq as (start w) = Inl z \<longrightarrow> run_params env rq ps (start w) = Inl z"
    and tree: "\<forall>e. run_params env rq as (start w) = Inr e \<longrightarrow>
      matches (deps_key 0 (r_deps r)) (dep_keys 0 (r_deps r)) e (run_params env rq ps (start w))
        (solve_subs env rq ids has_app False (r_deps r) (tree_state e))"
    using plan_runs [OF assms, of env rq w] by blast
  show ?thesis
  proof (cases "run_params env rq as (start w)")
    case (Inr e)
    from tree [rule_format, OF Inr] show ?thesis
    proof (cases rule: matchesE)
      case (go rs e' s)
      have "solve_subs env rq ids has_app True (r_deps r) (tree_state e) = Inr (rs, s)" if "derrs e' = derrs e"
        using strict_agrees(2) [OF go(2)] go(3) that by (simp add: related_core tree_state_def)
      with as Inr go show ?thesis
        by (simp add: related_def comp_def)
    qed (use as Inr in simp)
  qed (use as stop in simp)
qed

definition demo_env :: "(callable list, unit) env" where
  "demo_env =
     \<lparr>call_obj = (\<lambda>c kw w. (Inr (PvInt (int (length kw))), w @ [c])),
      call_gen = (\<lambda>c kw w. (Inr 0, w @ [c])), gen_send = (\<lambda>g w. (GYield PvNone, w)),
      gen_throw = (\<lambda>g e w. (GRaise e, w)), gen_close = (\<lambda>g w. w), overrides = (\<lambda>n. if n = 1 then Some 9 else None),
      new_object = (\<lambda>k sc w. (Inr PvNone, w)), other_input = (\<lambda>p w. (Nothing, w)), float_ok = (\<lambda>t. False)\<rparr>"

definition demo_request :: request where
  "demo_request =
     \<lparr>rq_path = [(''item_id'', ''7'')], rq_query = [], rq_query_multi = [],
      rq_headers = Some [(''token'', Some ''t''), (''cookie'', Some ''a=1; sid=s'')]\<rparr>"

definition demo_ids :: ids where
  "demo_ids i c = Some (word_of_nat c)"

theorem plan_resolves_tree_witness:
  "\<exists>ps e s0 rs s. extract_params_from_route demo_ids demo_models True demo_route = Inr ps \<and>
     run_params demo_env demo_request ps (start []) = Inr e \<and>
     world e = [CallParamModel ''f'' KQuery, CallBuilder (AClass (TModel 1)) ''body'', CallParamModel ''page'' KQuery,
       CallUser 9, CallUser 2, CallUser 3] \<and>
     solve_subs demo_env demo_request demo_ids True True (r_deps demo_route) s0 = Inr (rs, s) \<and>
     map fst rs = [Some (PvInt 3), Some (PvInt 0)] \<and> map (resolved e) [''user'', ''_dep1''] = map fst rs \<and> world s = world e"
proof -
  have good: "good_names demo_route"
    by code_simp
  have "(case extract_params_from_route demo_ids demo_models True demo_route of
      Inl e \<Rightarrow> False
    | Inr ps \<Rightarrow>
        (case run_params demo_env demo_request ps (start []) of
           Inl z \<Rightarrow> False
         | Inr e \<Rightarrow> derrs e = [] \<and> map (resolved e) [''user'', ''_dep1''] = [Some (PvInt 3), Some (PvInt 0)] \<and>
            world e = [CallParamModel ''f'' KQuery, CallBuilder (AClass (TModel 1)) ''body'', CallParamModel ''page'' KQuery,
              CallUser 9, CallUser 2, CallUser 3]))"
    by code_simp
  then obtain ps e where ps: "extract_params_from_route demo_ids demo_models True demo_route = Inr ps"
    and e: "run_params demo_env demo_request ps (start []) = Inr e" "derrs e = []"
      "map (resolved e) [''user'', ''_dep1''] = [Some (PvInt 3), Some (PvInt 0)]"
    and w: "world e = [CallParamModel ''f'' KQuery, CallBuilder (AClass (TModel 1)) ''body'', CallParamModel ''page'' KQuery,
              CallUser 9, CallUser 2, CallUser 3]"
    by (auto split: sum.splits)
  have keys: "dep_keys 0 (r_deps demo_route) = [''user'', ''_dep1'']"
    by code_simp
  have "distinct (map fst (demo_models a))" for a
    by (simp add: demo_models_def)
  note plan = plan_resolves_tree [OF ps good this, of demo_env demo_request "[]"]
  obtain e0 rs s where tree: "solve_subs demo_env demo_request demo_ids True False (r_deps demo_route) (tree_state e0) = Inr (rs, s)"
    and s: "same_core e s" "map fst rs = map (resolved e) (dep_keys 0 (r_deps demo_route))"
    and strict: "derrs e = derrs e0 \<longrightarrow> solve_subs demo_env demo_request demo_ids True True (r_deps demo_route) (tree_state e0) = Inr (rs, s)"
  proof -
    from plan obtain as where plan: "case run_params demo_env demo_request as (start []) of
       Inl z \<Rightarrow> run_params demo_env demo_request ps (start []) = Inl z
     | Inr e0 \<Rightarrow>
         (case solve_subs demo_env demo_request demo_ids True False (r_deps demo_route) (tree_state e0) of
            Inl (st, s) \<Rightarrow> \<exists>e'. run_params demo_env demo_request ps (start []) = Inl (st, e') \<and> same_core e' s
          | Inr (rs, s) \<Rightarrow>
              \<exists>e'. run_params demo_env demo_request ps (start []) = Inr e' \<and> same_core e' s \<and>
                map fst rs = map (resolved e') (dep_keys 0 (r_deps demo_route)) \<and>
                (derrs e' = derrs e0 \<longrightarrow>
                   solve_subs demo_env demo_request demo_ids True True (r_deps demo_route) (tree_state e0) = Inr (rs, s)))"
      by blast
    with e(1) obtain e0 where e0: "run_params demo_env demo_request as (start []) = Inr e0"
      by (cases "run_params demo_env demo_request as (start [])") auto
    with plan e(1) obtain rs s where "solve_subs demo_env demo_request demo_ids True False (r_deps demo_route) (tree_state e0) = Inr (rs, s)"
      by (cases "solve_subs demo_env demo_request demo_ids True False (r_deps demo_route) (tree_state e0)") auto
    with plan e(1) e0 show thesis
      using that by simp
  qed
  obtain ds where "derrs s = derrs (tree_state e0) @ ds"
    using honest_tree(2) tree by (rule honestD)
  with e(2) s(1) have "derrs e = derrs e0"
    by (simp add: same_core_def tree_state_def)
  with strict have "solve_subs demo_env demo_request demo_ids True True (r_deps demo_route) (tree_state e0) = Inr (rs, s)"
    by blast
  moreover have "world s = world e" using s(1) by (simp add: same_core_def)
  ultimately show ?thesis
    using ps e(1,3) w s(2) unfolding keys by metis
qed

text \<open>
  Without its cookie the session is not made, and the missing cookie is reported.  The engine still calls the user,
  without the session it needs.  By FastAPI's rule it is not called.
\<close>

definition calls :: "bool \<Rightarrow> request \<Rightarrow> callable list" where
  "calls strict rq =
     (case solve_dep demo_env rq demo_ids True strict demo_user (tree_state (start [])) of
        Inl (st, s) \<Rightarrow> world s
      | Inr (rs, s) \<Rightarrow> world s)"

lemma skipped_dependency:
  defines "rq \<equiv> demo_request\<lparr>rq_headers := Some [(''token'', Some ''t'')]\<rparr>"
  shows "CallUser 2 \<in> set (calls False rq)" "CallUser 9 \<notin> set (calls False rq)" "CallUser 2 \<notin> set (calls True rq)"
  unfolding rq_def by code_simp+

text \<open>A text that is not a number is passed on as it is, whatever validator the parameter has.\<close>

lemma unvalidated_input:
  assumes "p_kind p = KQuery" and "type_hint p = ''int''" and "map_of (rq_query rq) (lookup_name p) = Some ''abc''"
  shows "extract_scalar fo rq p = Got (PvStr ''abc'')"
proof -
  have "parse_i64 (strip_by is_rust_ws ''abc'') = None"
    by code_simp
  with assms show ?thesis
    by (simp add: extract_defs coerce_str_to_py_def try_coerce_str_to_py_def prefix_def)
qed

end
