(* ===== verification/Dep_Request.thy ===== *)
theory Dep_Request
  imports Dep_Engine
begin

text \<open>
  A request to a handler with dependencies (\<open>src/router.rs\<close>: the unified path of \<open>handle_request\<close>, from the
  walk over the plan to the response): the arguments of the handler, its call, and the tear-down of the
  generators on every way out.
\<close>

section \<open>Tear-down\<close>

text \<open>
  What the request needs from the server: the handlers of exceptions, the responses, the extraction of
  the handler's own arguments, the handler, background tasks, and the wrapping of a stream.
\<close>

record ('w, 'e, 'r) server =
  user_handler :: "'e \<Rightarrow> 'w \<Rightarrow> 'r option \<times> 'w"
  error_response :: "'e \<Rightarrow> 'w \<Rightarrow> 'r \<times> 'w"
  body_response :: "nat \<Rightarrow> 'r"
  validation_error :: "detail list \<Rightarrow> 'w \<Rightarrow> 'r \<times> 'w"
  extract_handler :: "'w \<Rightarrow> ('r + kwargs) \<times> 'w"
  metadata :: kwargs
  call_handler :: "kwargs \<Rightarrow> 'w \<Rightarrow> ('e + pv) \<times> 'w"
  run_background :: "pv \<Rightarrow> 'w \<Rightarrow> 'w"
  has_body_iterator :: "pv \<Rightarrow> bool"
  wrap_stream :: "pv \<Rightarrow> nat list \<Rightarrow> 'w \<Rightarrow> bool \<times> 'w"
  make_response :: "pv \<Rightarrow> 'w \<Rightarrow> 'r \<times> 'w"
  capture :: "'e \<Rightarrow> 'w \<Rightarrow> 'w"
  fastapi_error :: 'e

type_synonym gens = "(nat \<times> bool) list"

definition leave_gen :: "('w, 'e) env \<Rightarrow> nat \<Rightarrow> 'w \<Rightarrow> 'w" where
  "leave_gen env g w =
     (case gen_send env g w of
        (GYield _, w) \<Rightarrow> gen_close env g w
      | (GStop _, w) \<Rightarrow> w
      | (GRaise _, w) \<Rightarrow> w)"

definition teardown_generator_deps :: "('w, 'e) env \<Rightarrow> gens \<Rightarrow> bool \<Rightarrow> 'w \<Rightarrow> 'w" where
  "teardown_generator_deps env gens errored w =
     fold (\<lambda>(g, _) w. if errored then gen_close env g w else leave_gen env g w) (rev gens) w"

fun leave_function :: "('w, 'e) env \<Rightarrow> gens \<Rightarrow> 'w \<Rightarrow> 'e option \<times> 'w" where
  "leave_function env [] w = (None, w)"
| "leave_function env ((g, is_func) # gs) w =
     (if \<not> is_func then leave_function env gs w
      else
        case gen_send env g w of
          (GYield _, w) \<Rightarrow> leave_function env gs (gen_close env g w)
        | (GStop _, w) \<Rightarrow> leave_function env gs w
        | (GRaise e, w) \<Rightarrow> (Some e, w))"

definition teardown_function_scope_gens :: "('w, 'e) env \<Rightarrow> gens \<Rightarrow> 'w \<Rightarrow> 'e option \<times> 'w" where
  "teardown_function_scope_gens env gens = leave_function env (rev gens)"

definition leave_request :: "('w, 'e) env \<Rightarrow> ('w, 'e, 'r) server \<Rightarrow> bool \<Rightarrow> nat \<times> bool \<Rightarrow> 'w \<Rightarrow> 'w" where
  "leave_request env srv errored x w =
     (if snd x then w
      else if errored then gen_close env (fst x) w
      else
        case gen_send env (fst x) w of
          (GYield _, w) \<Rightarrow> gen_close env (fst x) w
        | (GStop _, w) \<Rightarrow> w
        | (GRaise e, w) \<Rightarrow> capture srv e w)"

definition teardown_request_scope_gens :: "('w, 'e) env \<Rightarrow> ('w, 'e, 'r) server \<Rightarrow> gens \<Rightarrow> bool \<Rightarrow> 'w \<Rightarrow> 'w" where
  "teardown_request_scope_gens env srv gens errored w = fold (leave_request env srv errored) (rev gens) w"

definition request_gens :: "gens \<Rightarrow> nat list" where
  "request_gens gens = map fst (filter (\<lambda>x. \<not> snd x) gens)"

definition maybe_defer_request_scope_to_stream ::
  "('w, 'e, 'r) server \<Rightarrow> pv \<Rightarrow> gens \<Rightarrow> 'w \<Rightarrow> bool \<times> 'w"
where
  "maybe_defer_request_scope_to_stream srv v gens w =
     (if \<not> has_body_iterator srv v \<or> request_gens gens = [] then (False, w)
      else wrap_stream srv v (request_gens gens) w)"

text \<open>The live exception is thrown into each generator; one that returns has swallowed it.\<close>

definition throw_step :: "('w, 'e) env \<Rightarrow> nat \<times> bool \<Rightarrow> 'e option \<times> 'w \<Rightarrow> 'e option \<times> 'w" where
  "throw_step env x lw =
     (case lw of
        (Some err, w) \<Rightarrow>
          (case gen_throw env (fst x) err w of
             (GStop _, w) \<Rightarrow> (None, w)
           | (GRaise e, w) \<Rightarrow> (Some e, w)
           | (GYield _, w) \<Rightarrow> (Some err, gen_close env (fst x) w))
      | (None, w) \<Rightarrow> (None, leave_gen env (fst x) w))"

definition teardown_generator_deps_error ::
  "('w, 'e) env \<Rightarrow> ('w, 'e, 'r) server \<Rightarrow> gens \<Rightarrow> 'e \<Rightarrow> 'w \<Rightarrow> 'e \<times> 'w"
where
  "teardown_generator_deps_error env srv gens original w =
     (case fold (throw_step env) (rev gens) (Some original, w) of
        (Some e, w) \<Rightarrow> (e, w)
      | (None, w) \<Rightarrow> (fastapi_error srv, w))"

section \<open>The request\<close>

text \<open>\<open>try_user_dep_exception_handler\<close>, and the default response if no handler of the application applies.\<close>

definition dep_error_response :: "('w, 'e, 'r) server \<Rightarrow> 'e \<Rightarrow> 'w \<Rightarrow> 'r \<times> 'w" where
  "dep_error_response srv e w =
     (case user_handler srv e w of (Some r, w) \<Rightarrow> (r, w) | (None, w) \<Rightarrow> error_response srv e w)"

definition overlay :: "param_info list \<Rightarrow> (string \<Rightarrow> pv option) \<Rightarrow> kwargs \<Rightarrow> kwargs" where
  "overlay ps res kw =
     fold (\<lambda>p kw. if is_handler_param p \<and> p_kind p = KDependency then add_arg (p_name p) (res (p_name p)) kw else kw) ps kw"

fun inject_framework_objects ::
  "('w, 'e) env \<Rightarrow> param_info list \<Rightarrow> kwargs \<Rightarrow> 'w eng \<Rightarrow> ('e + kwargs) \<times> 'w eng"
where
  "inject_framework_objects env [] kw s = (Inr kw, s)"
| "inject_framework_objects env (p # ps) kw s =
     (if \<not> is_handler_param p \<or> \<not> is_inject (p_kind p) then inject_framework_objects env ps kw s
      else
        case (if p_kind p = KInjectRequest then map_of kw ''_middleware_request'' else None) of
          Some r \<Rightarrow> inject_framework_objects env ps (AList.update (p_name p) r kw) s
        | None \<Rightarrow>
            (case build_injected_object env (p_kind p) (p_oauth_scopes p) s of
               (Inl e, s) \<Rightarrow> (Inl e, s)
             | (Inr v, s) \<Rightarrow> inject_framework_objects env ps (AList.update (p_name p) v kw) s))"

text \<open>
  \<open>drain_background_tasks\<close>: the shared object first, then those of the handler that are other objects.  This
  path is taken only by routes with dependencies, for which the guard of the drain is always true;
  running an object without tasks does nothing.
\<close>

definition background_objects :: "param_info list \<Rightarrow> kwargs \<Rightarrow> pv option \<Rightarrow> pv list" where
  "background_objects ps kw shared =
     rev (remdups (rev
       ((case shared of Some v \<Rightarrow> [v] | None \<Rightarrow> []) @
        List.map_filter (\<lambda>p. if p_kind p = KInjectBackground then map_of kw (p_name p) else None) ps)))"

definition drain_background_tasks :: "('w, 'e, 'r) server \<Rightarrow> param_info list \<Rightarrow> kwargs \<Rightarrow> pv option \<Rightarrow> 'w \<Rightarrow> 'w" where
  "drain_background_tasks srv ps kw shared w = fold (run_background srv) (background_objects ps kw shared) w"

definition after_handler :: "('w, 'e) env \<Rightarrow> ('w, 'e, 'r) server \<Rightarrow> gens \<Rightarrow> pv \<Rightarrow> 'w \<Rightarrow> 'r \<times> 'w" where
  "after_handler env srv gens v w =
     (case teardown_function_scope_gens env gens w of
        (Some e, w) \<Rightarrow> dep_error_response srv e (teardown_request_scope_gens env srv gens True w)
      | (None, w) \<Rightarrow>
          (case maybe_defer_request_scope_to_stream srv v gens w of
             (deferred, w) \<Rightarrow>
               (case make_response srv v w of
                  (r, w) \<Rightarrow> (r, if deferred then w else teardown_request_scope_gens env srv gens False w))))"

definition call_and_finish ::
  "('w, 'e) env \<Rightarrow> ('w, 'e, 'r) server \<Rightarrow> param_info list \<Rightarrow> kwargs \<Rightarrow> 'w eng \<Rightarrow> 'r \<times> 'w"
where
  "call_and_finish env srv ps kw s =
     (case call_handler srv kw (world s) of
        (Inr v, w) \<Rightarrow>
          after_handler env srv (gen_deps s) v (drain_background_tasks srv ps kw (slots s KInjectBackground) w)
      | (Inl e, w) \<Rightarrow>
          (case teardown_generator_deps_error env srv (gen_deps s) e w of (e, w) \<Rightarrow> error_response srv e w))"

definition handle_resolved ::
  "('w, 'e) env \<Rightarrow> ('w, 'e, 'r) server \<Rightarrow> param_info list \<Rightarrow> 'w eng \<Rightarrow> 'r \<times> 'w"
where
  "handle_resolved env srv ps s =
     (let gens = gen_deps s in
      if derrs s \<noteq> [] then validation_error srv (derrs s) (teardown_generator_deps env gens True (world s))
      else
        case extract_handler srv (world s) of
          (Inl r, w) \<Rightarrow> (r, teardown_generator_deps env gens True w)
        | (Inr kw, w) \<Rightarrow>
            (case inject_framework_objects env ps (overlay ps (resolved s) kw) (s\<lparr>world := w\<rparr>) of
               (Inl e, s) \<Rightarrow> error_response srv e (teardown_generator_deps env gens True (world s))
             | (Inr kw, s) \<Rightarrow> call_and_finish env srv ps (fold (\<lambda>(n, v). AList.update n v) (metadata srv) kw) s))"

definition handle_request ::
  "('w, 'e) env \<Rightarrow> ('w, 'e, 'r) server \<Rightarrow> request \<Rightarrow> param_info list \<Rightarrow> 'w \<Rightarrow> 'r \<times> 'w"
where
  "handle_request env srv rq ps w =
     (case run_params env rq ps (start w) of
        Inl (DepRaised e, s) \<Rightarrow> dep_error_response srv e (teardown_generator_deps env (gen_deps s) True (world s))
      | Inl (BodyError n, s) \<Rightarrow> (body_response srv n, teardown_generator_deps env (gen_deps s) True (world s))
      | Inr s \<Rightarrow> handle_resolved env srv ps s)"

section \<open>Every generator is left once\<close>

text \<open>What can be seen of the end of a request.\<close>

datatype ev = Sent nat | Thrown nat | Closed nat | Called bool | Ran pv | Deferred "nat list" | Responded

definition exit_of :: "nat \<times> bool \<Rightarrow> ev list \<Rightarrow> bool" where
  "exit_of x es \<longleftrightarrow>
     es \<in> {[Sent (fst x)], [Sent (fst x), Closed (fst x)], [Thrown (fst x)], [Thrown (fst x), Closed (fst x)]}"

inductive exits :: "gens \<Rightarrow> ev list \<Rightarrow> bool" where
  exits_Nil: "exits [] []"
| exits_Cons: "exit_of x es \<Longrightarrow> exits xs rest \<Longrightarrow> exits (x # xs) (es @ rest)"

inductive_simps exits_simps: "exits [] es" "exits (x # xs) es"

definition closes :: "gens \<Rightarrow> ev list" where
  "closes gens = map (\<lambda>x. Closed (fst x)) gens"

locale gen_log =
  fixes env :: "('w, 'e) env" and log :: "'w \<Rightarrow> ev list"
  assumes send: "log (snd (gen_send env g w)) = log w @ [Sent g]"
    and throw: "log (snd (gen_throw env g e w)) = log w @ [Thrown g]"
    and close: "log (gen_close env g w) = log w @ [Closed g]"
    and new: "log (snd (new_object env k sc w)) = log w"
begin

lemma sendD: "gen_send env g w = (r, w') \<Longrightarrow> log w' = log w @ [Sent g]"
  using send [of g w] by simp

lemma throwD: "gen_throw env g e w = (r, w') \<Longrightarrow> log w' = log w @ [Thrown g]"
  using throw [of g e w] by simp

lemma newD: "new_object env k sc w = (r, w') \<Longrightarrow> log w' = log w"
  using new [of k sc w] by simp

lemma teardown_closes: "log (teardown_generator_deps env gens True w) = log w @ closes (rev gens)"
proof -
  have "log (fold (\<lambda>(g, _) w. if True then gen_close env g w else leave_gen env g w) gs w) = log w @ closes gs" for gs
    by (induction gs arbitrary: w) (auto simp: closes_def close)
  then show ?thesis by (simp add: teardown_generator_deps_def)
qed

lemma leave_gen_exit: "\<exists>es. log (leave_gen env g w) = log w @ es \<and> exit_of (g, f) es"
  by (cases "gen_send env g w"; cases "fst (gen_send env g w)")
    (auto simp: leave_gen_def exit_of_def close dest!: sendD)

lemma leave_function_exits:
  "leave_function env gs w = (None, w') \<Longrightarrow> \<exists>es. log w' = log w @ es \<and> exits (filter snd gs) es"
  "leave_function env gs w = (Some e, w') \<Longrightarrow>
     \<exists>es pre x post. log w' = log w @ es \<and> filter snd gs = pre @ x # post \<and> exits (pre @ [x]) es"
proof (induction gs arbitrary: w)
  case (Cons x gs)
  obtain g f where x: "x = (g, f)" by fastforce
  have step: "\<exists>es w1. log w1 = log w @ es \<and> exit_of x es \<and>
      (leave_function env (x # gs) w = leave_function env gs w1 \<or> (\<exists>e. leave_function env (x # gs) w = (Some e, w1)))" if f for w
  proof -
    obtain r w0 where r: "gen_send env g w = (r, w0)" by fastforce
    show ?thesis
    proof (cases r)
      case (GYield v)
      then show ?thesis
        using that r sendD [OF r]
        by (intro exI [of _ "[Sent g, Closed g]"] exI [of _ "gen_close env g w0"]) (simp add: x exit_of_def close)
    qed (use that r sendD [OF r] in \<open>auto simp: x exit_of_def intro!: exI [of _ "[Sent g]"] exI [of _ w0]\<close>)
  qed
  {
    case 1
    show ?case
    proof (cases f)
      case True
      from step [OF True, of w] 1 obtain es w1 where w1: "log w1 = log w @ es" "exit_of x es" "leave_function env gs w1 = (None, w')"
        by (metis option.distinct(1) prod.inject)
      obtain fs where "log w' = log w1 @ fs" "exits (filter snd gs) fs" using Cons.IH(1) [OF w1(3)] by blast
      then show ?thesis
        using w1 True by (intro exI [of _ "es @ fs"]) (auto simp: x intro: exits_Cons)
    qed (use 1 Cons.IH(1) in \<open>simp add: x\<close>)
  next
    case 2
    show ?case
    proof (cases f)
      case True
      from step [OF True, of w] 2 obtain es w1 where w1: "log w1 = log w @ es" "exit_of x es"
        and or: "leave_function env gs w1 = (Some e, w') \<or> w1 = w'"
        by (metis prod.inject)
      from or show ?thesis
      proof
        assume "w1 = w'"
        moreover have "exits [x] (es @ [])" using w1(2) by (intro exits_Cons exits_Nil)
        ultimately have "log w' = log w @ es \<and> filter snd (x # gs) = [] @ x # filter snd gs \<and> exits ([] @ [x]) es"
          using w1(1) True by (simp add: x)
        then show ?thesis by blast
      next
        assume "leave_function env gs w1 = (Some e, w')"
        from Cons.IH(2) [OF this] obtain fs pre y post
          where fs: "log w' = log w1 @ fs" "filter snd gs = pre @ y # post" "exits (pre @ [y]) fs" by blast
        have "exits (x # (pre @ [y])) (es @ fs)" using w1(2) fs(3) by (rule exits_Cons)
        then have "log w' = log w @ (es @ fs) \<and> filter snd (x # gs) = (x # pre) @ y # post \<and> exits ((x # pre) @ [y]) (es @ fs)"
          using w1(1) fs(1,2) True by (simp add: x)
        then show ?thesis by blast
      qed
    qed (use 2 Cons.IH(2) in \<open>simp add: x\<close>)
  }
qed (simp_all add: exits_simps)

lemma throw_exits:
  "fold (throw_step env) gs lw = (l', w') \<Longrightarrow> \<exists>es. log w' = log (snd lw) @ es \<and> exits gs es"
proof (induction gs arbitrary: lw)
  case (Cons x gs)
  have "\<exists>es. log (snd (throw_step env x lw)) = log (snd lw) @ es \<and> exit_of x es"
  proof (cases lw)
    case (Pair l w)
    then show ?thesis
      using leave_gen_exit [of "fst x" w "snd x"]
      by (cases l; cases "gen_throw env (fst x) (the l) w"; cases "fst (gen_throw env (fst x) (the l) w)")
        (auto simp: throw_step_def exit_of_def close dest!: throwD)
  qed
  then obtain es where es: "log (snd (throw_step env x lw)) = log (snd lw) @ es" "exit_of x es" by blast
  from Cons.IH [of "throw_step env x lw"] Cons.prems obtain fs
    where "log w' = log (snd (throw_step env x lw)) @ fs" "exits gs fs" by auto
  with es show ?case
    by (intro exI [of _ "es @ fs"]) (simp add: exits_Cons)
qed (simp add: exits_simps)

lemma inject_log:
  "inject_framework_objects env ps kw s = (r, s') \<Longrightarrow> gen_deps s' = gen_deps s \<and> log (world s') = log (world s)"
proof (induction ps arbitrary: kw s)
  case (Cons p ps)
  have "gen_deps s1 = gen_deps s \<and> log (world s1) = log (world s)"
    if "build_injected_object env k sc s = (x, s1)" for k sc x s1
    using that by (auto simp: build_injected_object_def split: if_splits prod.splits option.splits sum.splits dest!: newD)
  with Cons show ?case
    by (fastforce split: if_splits option.splits prod.splits sum.splits)
qed simp

end

text \<open>
  \<open>leaves\<close>: how a request that went past its dependencies may end.  The handler was not called, and
  everything is closed.  It raised, and everything is left, the last entered first.  It returned: background tasks run,
  function scope is left, then the response is made and request scope left, or handed to the stream first.
  Or a generator of function scope raised: request scope is closed, and what is still open of function scope is not left.
\<close>

definition leaves_after :: "gens \<Rightarrow> ev list \<Rightarrow> bool" where
  "leaves_after gens es \<longleftrightarrow>
     (\<exists>fs rs. es = fs @ rs \<and> exits (filter snd (rev gens)) fs \<and>
        ((\<exists>xs. rs = Responded # xs \<and> exits (filter (\<lambda>x. \<not> snd x) (rev gens)) xs) \<or>
         rs = [Deferred (request_gens gens), Responded])) \<or>
     (\<exists>fs pre x post. es = fs @ closes (filter (\<lambda>x. \<not> snd x) (rev gens)) \<and>
        filter snd (rev gens) = pre @ x # post \<and> exits (pre @ [x]) fs)"

definition leaves :: "gens \<Rightarrow> ev list \<Rightarrow> bool" where
  "leaves gens es \<longleftrightarrow>
     es = closes (rev gens) \<or>
     (\<exists>xs. es = Called False # xs \<and> exits (rev gens) xs) \<or>
     (\<exists>bg xs. es = Called True # map Ran bg @ xs \<and> leaves_after gens xs)"

locale server_log = gen_log env log for env :: "('w, 'e) env" and log :: "'w \<Rightarrow> ev list" +
  fixes srv :: "('w, 'e, 'r) server"
  assumes quiet: "log (snd (user_handler srv e w)) = log w" "log (snd (error_response srv e w)) = log w"
      "log (snd (validation_error srv ds w)) = log w" "log (snd (extract_handler srv w)) = log w"
      "log (capture srv e w) = log w"
    and call: "log (snd (call_handler srv kw w)) = log w @ [Called (\<not> isl (fst (call_handler srv kw w)))]"
    and background: "log (run_background srv v w) = log w @ [Ran v]"
    and wrap: "log (snd (wrap_stream srv v gs w)) = log w @ (if fst (wrap_stream srv v gs w) then [Deferred gs] else [])"
    and response: "log (snd (make_response srv v w)) = log w @ [Responded]"
begin

lemma dep_error_log: "log (snd (dep_error_response srv e w)) = log w"
  using quiet(1) [of e w] quiet(2) by (auto simp: dep_error_response_def split: prod.splits option.splits)

lemma request_closes:
  "log (teardown_request_scope_gens env srv gens True w) = log w @ closes (filter (\<lambda>x. \<not> snd x) (rev gens))"
proof -
  have "log (fold (leave_request env srv True) gs w) = log w @ closes (filter (\<lambda>x. \<not> snd x) gs)" for gs
    by (induction gs arbitrary: w) (auto simp: closes_def close leave_request_def)
  then show ?thesis by (simp add: teardown_request_scope_gens_def)
qed

lemma request_exits:
  "\<exists>es. log (teardown_request_scope_gens env srv gens False w) = log w @ es \<and> exits (filter (\<lambda>x. \<not> snd x) (rev gens)) es"
proof -
  have "\<exists>es. log (fold (leave_request env srv False) gs w) = log w @ es \<and> exits (filter (\<lambda>x. \<not> snd x) gs) es" for gs
  proof (induction gs arbitrary: w)
    case (Cons x gs)
    have "\<exists>es. log (leave_request env srv False x w) = log w @ es \<and> (if snd x then es = [] else exit_of x es)"
      by (cases "gen_send env (fst x) w"; cases "fst (gen_send env (fst x) w)")
        (auto simp: leave_request_def exit_of_def close quiet(5) dest!: sendD)
    then obtain es where es: "log (leave_request env srv False x w) = log w @ es" "if snd x then es = [] else exit_of x es"
      by blast
    obtain fs where "log (fold (leave_request env srv False) gs (leave_request env srv False x w)) =
        log (leave_request env srv False x w) @ fs" "exits (filter (\<lambda>x. \<not> snd x) gs) fs"
      using Cons.IH by blast
    with es show ?case
      by (intro exI [of _ "es @ fs"]) (auto simp: exits_Cons split: if_splits)
  qed (simp add: exits_simps)
  then show ?thesis by (simp add: teardown_request_scope_gens_def)
qed

lemma after_handler_leaves: "\<exists>es. log (snd (after_handler env srv gens v w)) = log w @ es \<and> leaves_after gens es"
proof (cases "teardown_function_scope_gens env gens w")
  case (Pair x w1)
  show ?thesis
  proof (cases x)
    case None
    with Pair obtain fs where fs: "log w1 = log w @ fs" "exits (filter snd (rev gens)) fs"
      using leave_function_exits(1) unfolding teardown_function_scope_gens_def by blast
    obtain d w2 where d: "maybe_defer_request_scope_to_stream srv v gens w1 = (d, w2)" by fastforce
    have w2: "log w2 = log w1 @ (if d then [Deferred (request_gens gens)] else [])"
      using d wrap [of v "request_gens gens" w1] by (auto simp: maybe_defer_request_scope_to_stream_def split: if_splits)
    obtain r w3 where r: "make_response srv v w2 = (r, w3)" by fastforce
    then have w3: "log w3 = log w2 @ [Responded]" using response [of v w2] by simp
    obtain xs where xs: "log (teardown_request_scope_gens env srv gens False w3) = log w3 @ xs"
      "exits (filter (\<lambda>x. \<not> snd x) (rev gens)) xs"
      using request_exits by blast
    have "log (snd (after_handler env srv gens v w)) =
        log w @ fs @ (if d then [Deferred (request_gens gens), Responded] else Responded # xs)"
      using Pair None d r fs(1) w2 w3 xs(1) by (simp add: after_handler_def)
    then show ?thesis
      using fs(2) xs(2) unfolding leaves_after_def by (cases d) auto
  next
    case (Some e)
    with Pair obtain fs pre y post where fs: "log w1 = log w @ fs" "filter snd (rev gens) = pre @ y # post" "exits (pre @ [y]) fs"
      using leave_function_exits(2) unfolding teardown_function_scope_gens_def by blast
    have "log (snd (after_handler env srv gens v w)) = log w @ fs @ closes (filter (\<lambda>x. \<not> snd x) (rev gens))"
      using Pair Some fs(1) by (simp add: after_handler_def dep_error_log request_closes)
    then show ?thesis
      using fs(2,3) unfolding leaves_after_def by blast
  qed
qed

lemma drain_log: "log (drain_background_tasks srv ps kw shared w) = log w @ map Ran (background_objects ps kw shared)"
proof -
  have "log (fold (run_background srv) vs w) = log w @ map Ran vs" for vs
    by (induction vs arbitrary: w) (simp_all add: background)
  then show ?thesis by (simp add: drain_background_tasks_def)
qed

lemma finish_leaves: "\<exists>es. log (snd (call_and_finish env srv ps kw s)) = log (world s) @ es \<and> leaves (gen_deps s) es"
proof (cases "call_handler srv kw (world s)")
  case (Pair x w)
  show ?thesis
  proof (cases x)
    case (Inl e)
    with Pair have w: "log w = log (world s) @ [Called False]" using call [of kw "world s"] by simp
    obtain l w' where l: "fold (throw_step env) (rev (gen_deps s)) (Some e, w) = (l, w')" by fastforce
    obtain xs where xs: "log w' = log w @ xs" "exits (rev (gen_deps s)) xs"
      using throw_exits [OF l] by auto
    have "log (snd (call_and_finish env srv ps kw s)) = log (world s) @ Called False # xs"
      using Pair Inl l w xs(1) by (cases l) (simp_all add: call_and_finish_def teardown_generator_deps_error_def quiet(2))
    then show ?thesis
      using xs(2) unfolding leaves_def by blast
  next
    case (Inr v)
    with Pair have w: "log w = log (world s) @ [Called True]" using call [of kw "world s"] by simp
    let ?bg = "background_objects ps kw (slots s KInjectBackground)"
    obtain xs where xs: "log (snd (after_handler env srv (gen_deps s) v (drain_background_tasks srv ps kw (slots s KInjectBackground) w))) =
        log (drain_background_tasks srv ps kw (slots s KInjectBackground) w) @ xs" "leaves_after (gen_deps s) xs"
      using after_handler_leaves by blast
    have "log (snd (call_and_finish env srv ps kw s)) = log (world s) @ Called True # map Ran ?bg @ xs"
      using Pair Inr w xs(1) by (simp add: call_and_finish_def drain_log)
    then show ?thesis
      using xs(2) unfolding leaves_def by blast
  qed
qed

lemma resolved_leaves:
  "\<exists>es. log (snd (handle_resolved env srv ps s)) = log (world s) @ es \<and>
    (if derrs s \<noteq> [] then es = closes (rev (gen_deps s)) else leaves (gen_deps s) es)"
proof (cases "derrs s \<noteq> []")
  case True
  then show ?thesis by (simp add: handle_resolved_def quiet teardown_closes)
next
  case False
  obtain x w where x: "extract_handler srv (world s) = (x, w)" by fastforce
  then have w: "log w = log (world s)" using quiet(4) [of "world s"] by simp
  show ?thesis
  proof (cases x)
    case (Inl r)
    with False x w show ?thesis
      by (simp add: handle_resolved_def teardown_closes leaves_def)
  next
    case (Inr kw)
    obtain y s' where y: "inject_framework_objects env ps (overlay ps (resolved s) kw) (s\<lparr>world := w\<rparr>) = (y, s')" by fastforce
    have s': "gen_deps s' = gen_deps s" "log (world s') = log (world s)"
      using inject_log [OF y] w by simp_all
    show ?thesis
    proof (cases y)
      case (Inl e)
      with False x Inr y s' show ?thesis
        by (simp add: handle_resolved_def quiet teardown_closes leaves_def)
    next
      case (Inr kw')
      with False x \<open>x = Inr kw\<close> y s' show ?thesis
        using finish_leaves [of ps _ s'] by (simp add: handle_resolved_def)
    qed
  qed
qed

lemma request_leaves:
  "case run_params env rq ps (start w) of
     Inl (st, s) \<Rightarrow> log (snd (handle_request env srv rq ps w)) = log (world s) @ closes (rev (gen_deps s))
   | Inr s \<Rightarrow>
       \<exists>es. log (snd (handle_request env srv rq ps w)) = log (world s) @ es \<and>
         (if derrs s \<noteq> [] then es = closes (rev (gen_deps s)) else leaves (gen_deps s) es)"
proof (cases "run_params env rq ps (start w)")
  case (Inl z)
  then show ?thesis
    by (auto simp: handle_request_def dep_error_log teardown_closes split: prod.split stop.split)
next
  case (Inr s)
  then show ?thesis
    using resolved_leaves [of ps s] by (simp add: handle_request_def)
qed

end

text \<open>Any application and server, with a record of what can be seen.\<close>

definition noting :: "('v \<Rightarrow> 'a \<times> 'v) \<Rightarrow> ('a \<Rightarrow> ev list) \<Rightarrow> 'v \<times> ev list \<Rightarrow> 'a \<times> 'v \<times> ev list" where
  "noting f es vl = (case f (fst vl) of (a, v) \<Rightarrow> (a, v, snd vl @ es a))"

definition traced :: "('v, 'e) env \<Rightarrow> ('v \<times> ev list, 'e) env" where
  "traced env =
     \<lparr>call_obj = (\<lambda>c kw. noting (call_obj env c kw) (\<lambda>_. [])),
      call_gen = (\<lambda>c kw. noting (call_gen env c kw) (\<lambda>_. [])),
      gen_send = (\<lambda>g. noting (gen_send env g) (\<lambda>_. [Sent g])),
      gen_throw = (\<lambda>g e. noting (gen_throw env g e) (\<lambda>_. [Thrown g])),
      gen_close = (\<lambda>g vl. (gen_close env g (fst vl), snd vl @ [Closed g])),
      overrides = overrides env,
      new_object = (\<lambda>k sc. noting (new_object env k sc) (\<lambda>_. [])),
      other_input = (\<lambda>p. noting (other_input env p) (\<lambda>_. [])),
      float_ok = float_ok env\<rparr>"

definition traced_server :: "('v, 'e, 'r) server \<Rightarrow> ('v \<times> ev list, 'e, 'r) server" where
  "traced_server srv =
     \<lparr>user_handler = (\<lambda>e. noting (user_handler srv e) (\<lambda>_. [])),
      error_response = (\<lambda>e. noting (error_response srv e) (\<lambda>_. [])),
      body_response = body_response srv,
      validation_error = (\<lambda>ds. noting (validation_error srv ds) (\<lambda>_. [])),
      extract_handler = noting (extract_handler srv) (\<lambda>_. []),
      metadata = metadata srv,
      call_handler = (\<lambda>kw. noting (call_handler srv kw) (\<lambda>r. [Called (\<not> isl r)])),
      run_background = (\<lambda>v vl. (run_background srv v (fst vl), snd vl @ [Ran v])),
      has_body_iterator = has_body_iterator srv,
      wrap_stream = (\<lambda>v gs. noting (wrap_stream srv v gs) (\<lambda>ok. if ok then [Deferred gs] else [])),
      make_response = (\<lambda>v. noting (make_response srv v) (\<lambda>_. [Responded])),
      capture = (\<lambda>e vl. (capture srv e (fst vl), snd vl)),
      fastapi_error = fastapi_error srv\<rparr>"

lemma noting_log [simp]: "snd (snd (noting f es vl)) = snd vl @ es (fst (noting f es vl))"
  by (simp add: noting_def split: prod.split)

interpretation traced: server_log "traced env" snd "traced_server srv" for env srv
  by unfold_locales (simp_all add: traced_def traced_server_def)


text \<open>
  Two generators of function scope, the second of which raises while it is left: the first is not left.
\<close>

lemma function_scope_left_open:
  "teardown_function_scope_gens (traced (demo_env\<lparr>gen_send := (\<lambda>g w. (if g = 1 then GRaise () else GStop PvNone, w))\<rparr>))
     [(0, True), (1, True)] (w, []) = (Some (), w, [Sent 1])"
  by (simp add: teardown_function_scope_gens_def traced_def noting_def)

end
