(* ===== verification/Spec2Isabelle.thy ===== *)
theory Spec2Isabelle
  imports Redis_Mux Lifecycle Collect Ws_Decoration Async_Worker Middleware_Stack Session_Cookie Dep_Request
begin

text \<open>
  Verification of the Python layer of fastapi-turbo.
\<close>

end
